theory Spec2Isabelle
  imports Main "HOL-Library.Sublist"
begin

section \<open>JavaScript strings\<close>

text \<open>
  A JavaScript string is modelled as a \<^typ>\<open>string\<close>: one \<^typ>\<open>char\<close> per UTF-16 code unit,
  restricted to code units below 256. The character predicates below are the ECMAScript
  ones on that range.
\<close>

definition NL :: char where "NL = CHR 0x0A"
definition CR :: char where "CR = CHR 0x0D"
definition BSL :: char where "BSL = CHR 0x5C"
definition SQ :: char where "SQ = CHR 0x27"
definition DQ :: char where "DQ = CHR 0x22"
definition BT :: char where "BT = CHR 0x60"

text \<open>LineTerminator: what \<open>.\<close> refuses and where \<open>^\<close> and \<open>$\<close> match under the m flag.\<close>

definition isLineTerminator :: "char \<Rightarrow> bool" where
  "isLineTerminator c = (c = CHR 0x0A \<or> c = CHR 0x0D)"

text \<open>WhiteSpace and LineTerminator together: the class \<open>\s\<close>, and what \<open>trim\<close> strips.\<close>

definition isSpace :: "char \<Rightarrow> bool" where
  "isSpace c = (c = CHR 0x09 \<or> c = CHR 0x0A \<or> c = CHR 0x0B \<or> c = CHR 0x0C \<or> c = CHR 0x0D
                \<or> c = CHR 0x20 \<or> c = CHR 0xA0)"

definition inRange :: "char \<Rightarrow> char \<Rightarrow> char \<Rightarrow> bool" where
  "inRange lo hi c = ((of_char lo :: nat) \<le> of_char c \<and> (of_char c :: nat) \<le> of_char hi)"

definition isDigit :: "char \<Rightarrow> bool" where
  "isDigit c = inRange (CHR ''0'') (CHR ''9'') c"

definition isLetter :: "char \<Rightarrow> bool" where
  "isLetter c = (inRange (CHR ''a'') (CHR ''z'') c \<or> inRange (CHR ''A'') (CHR ''Z'') c)"

definition isWord :: "char \<Rightarrow> bool" where
  "isWord c = (isLetter c \<or> isDigit c \<or> c = CHR ''_'')"

definition trimStart :: "string \<Rightarrow> string" where
  "trimStart s = dropWhile isSpace s"

definition trimEnd :: "string \<Rightarrow> string" where
  "trimEnd s = rev (dropWhile isSpace (rev s))"

definition trim :: "string \<Rightarrow> string" where
  "trim s = trimEnd (trimStart s)"

text \<open>\<open>s.split(d)\<close> for a one-character separator: the empty string gives one empty piece.\<close>

fun split :: "char \<Rightarrow> string \<Rightarrow> string list" where
  "split d [] = [[]]"
| "split d (x # xs) =
     (if x = d then [] # split d xs
      else (case split d xs of [] \<Rightarrow> [[x]] | l # ls \<Rightarrow> (x # l) # ls))"

fun join :: "string \<Rightarrow> string list \<Rightarrow> string" where
  "join sep [] = []"
| "join sep [x] = x"
| "join sep (x # y # ys) = x @ sep @ join sep (y # ys)"

text \<open>\<open>s.indexOf(w) === 0\<close>\<close>

definition startsWith :: "string \<Rightarrow> string \<Rightarrow> bool" where
  "startsWith w s = prefix w s"

text \<open>First occurrence of a substring: the text before it and the text after it.\<close>

fun find_sub :: "string \<Rightarrow> string \<Rightarrow> string \<Rightarrow> (string \<times> string) option" where
  "find_sub w p [] = (if w = [] then Some (rev p, []) else None)"
| "find_sub w p (x # xs) =
     (if prefix w (x # xs) then Some (rev p, drop (length w) (x # xs))
      else find_sub w (x # p) xs)"

text \<open>
  The replacement text of \<open>String.prototype.replace\<close> with a string pattern: \<open>$$\<close>, \<open>$&\<close>,
  \<open>$`\<close> and \<open>$'\<close> are substituted; a string pattern has no capture, so \<open>$1\<close> stays as it is.
\<close>

fun expand :: "string \<Rightarrow> string \<Rightarrow> string \<Rightarrow> string \<Rightarrow> string" where
  "expand bef mid aft [] = []"
| "expand bef mid aft [x] = [x]"
| "expand bef mid aft (x # y # r) =
     (if x = CHR ''$'' \<and> y = CHR ''$'' then CHR ''$'' # expand bef mid aft r
      else if x = CHR ''$'' \<and> y = CHR ''&'' then mid @ expand bef mid aft r
      else if x = CHR ''$'' \<and> y = CHR 0x60 then bef @ expand bef mid aft r
      else if x = CHR ''$'' \<and> y = CHR 0x27 then aft @ expand bef mid aft r
      else x # expand bef mid aft (y # r))"

text \<open>\<open>s.replace(w, t)\<close> with strings \<open>w\<close> and \<open>t\<close>: the first occurrence only.\<close>

definition replace_str :: "string \<Rightarrow> string \<Rightarrow> string \<Rightarrow> string" where
  "replace_str w t s =
     (case find_sub w [] s of
        None \<Rightarrow> s
      | Some (bef, aft) \<Rightarrow> bef @ expand bef w aft t @ aft)"

text \<open>
  \<open>s.replaceAll(w, t)\<close> for a non-empty \<open>w\<close> and a replacement without \<open>$\<close> (the
  source passes one escaped punctuation character).
\<close>

fun replaceAll_str :: "string \<Rightarrow> string \<Rightarrow> string \<Rightarrow> string" where
  "replaceAll_str w t [] = []"
| "replaceAll_str w t (x # xs) =
     (if w \<noteq> [] \<and> prefix w (x # xs)
      then t @ replaceAll_str w t (drop (length w) (x # xs))
      else x # replaceAll_str w t xs)"

text \<open>Decimal rendering of a counter, as a template literal does.\<close>

definition digit_char :: "nat \<Rightarrow> char" where
  "digit_char d = char_of (48 + d)"

function show_nat :: "nat \<Rightarrow> string" where
  "show_nat n = (if n < 10 then [digit_char n] else show_nat (n div 10) @ [digit_char (n mod 10)])"
  by pat_completeness auto
termination
  by (relation "measure id") auto

declare show_nat.simps [simp del]

section \<open>Regular expressions\<close>

text \<open>
  The regular expressions of the source are written as terms of \<open>regex\<close> and run by a
  backtracking matcher that returns every way to match, most preferred first, so that
  its first result is the match the ECMAScript backtracking semantics finds.
\<close>

datatype citem = CChar char | CRange char char | CSpace | CWord | CDigit

datatype regex =
    Lit string
  | Cls "citem list"
  | NCls "citem list"
  | Dot
  | Seq regex regex
  | Alt regex regex
  | Star regex
  | StarL regex
  | Opt regex
  | Grp nat regex
  | Bol
  | Eol
  | Bos
  | Eos
  | Ahead regex
  | NAhead regex
  | NBehind string

text \<open>
  \<open>Star\<close> is the greedy \<open>*\<close>, \<open>StarL\<close> the lazy \<open>*?\<close>, \<open>Opt\<close> is \<open>?\<close>, \<open>Grp n\<close> the n-th
  capturing group; \<open>Bol\<close> and \<open>Eol\<close> are \<open>^\<close> and \<open>$\<close> under the m flag, \<open>Bos\<close> and \<open>Eos\<close>
  without it; \<open>Ahead\<close>, \<open>NAhead\<close> and \<open>NBehind\<close> are \<open>(?=r)\<close>, \<open>(?!r)\<close> and \<open>(?<!w)\<close> for a
  literal \<open>w\<close>.
\<close>

definition Plus :: "regex \<Rightarrow> regex" where
  "Plus r = Seq r (Star r)"

definition PlusL :: "regex \<Rightarrow> regex" where
  "PlusL r = Seq r (StarL r)"

fun Cat :: "regex list \<Rightarrow> regex" where
  "Cat [] = Lit []"
| "Cat [r] = r"
| "Cat (r # rs) = Seq r (Cat rs)"

text \<open>\<open>r{3,}\<close>\<close>

definition AtLeast3 :: "regex \<Rightarrow> regex" where
  "AtLeast3 r = Seq r (Seq r (Seq r (Star r)))"

fun inItem :: "citem \<Rightarrow> char \<Rightarrow> bool" where
  "inItem (CChar d) c = (c = d)"
| "inItem (CRange lo hi) c = inRange lo hi c"
| "inItem CSpace c = isSpace c"
| "inItem CWord c = isWord c"
| "inItem CDigit c = isDigit c"

definition inClass :: "citem list \<Rightarrow> char \<Rightarrow> bool" where
  "inClass items c = list_ex (\<lambda>i. inItem i c) items"

definition chars :: "string \<Rightarrow> citem list" where
  "chars w = map CChar w"

fun groups :: "regex \<Rightarrow> nat list" where
  "groups (Seq a b) = groups a @ groups b"
| "groups (Alt a b) = groups a @ groups b"
| "groups (Star a) = groups a"
| "groups (StarL a) = groups a"
| "groups (Opt a) = groups a"
| "groups (Grp n a) = n # groups a"
| "groups (Ahead a) = groups a"
| "groups (NAhead a) = groups a"
| "groups _ = []"

text \<open>
  A matcher state: the text before the position (reversed), the text from the position
  on, and the captures made so far (the latest first).
\<close>

type_synonym caps = "(nat \<times> string) list"
type_synonym mstate = "string \<times> string \<times> caps"

definition clear :: "nat list \<Rightarrow> caps \<Rightarrow> caps" where
  "clear gs c = filter (\<lambda>kv. fst kv \<notin> set gs) c"

definition cap :: "nat \<Rightarrow> caps \<Rightarrow> string option" where
  "cap n c = map_of c n"

text \<open>A capture in a replacement: an unset group gives the empty string.\<close>

definition capS :: "nat \<Rightarrow> caps \<Rightarrow> string" where
  "capS n c = (case map_of c n of None \<Rightarrow> [] | Some v \<Rightarrow> v)"

text \<open>
  An iteration of \<open>*\<close> or \<open>?\<close> starts with the captures of its body unset and is refused
  when it consumes nothing (RepeatMatcher of ECMA-262).
\<close>

function rm :: "regex \<Rightarrow> mstate \<Rightarrow> mstate list" where
  "rm (Lit w) (p, s, c) = (if prefix w s then [(rev w @ p, drop (length w) s, c)] else [])"
| "rm (Cls items) (p, s, c) =
     (case s of [] \<Rightarrow> [] | x # xs \<Rightarrow> if inClass items x then [(x # p, xs, c)] else [])"
| "rm (NCls items) (p, s, c) =
     (case s of [] \<Rightarrow> [] | x # xs \<Rightarrow> if inClass items x then [] else [(x # p, xs, c)])"
| "rm Dot (p, s, c) =
     (case s of [] \<Rightarrow> [] | x # xs \<Rightarrow> if isLineTerminator x then [] else [(x # p, xs, c)])"
| "rm (Seq a b) (p, s, c) = concat (map (rm b) (rm a (p, s, c)))"
| "rm (Alt a b) (p, s, c) = rm a (p, s, c) @ rm b (p, s, c)"
| "rm (Star a) (p, s, c) =
     concat (map (\<lambda>(p', s', c'). if length s' < length s then rm (Star a) (p', s', c') else [])
                 (rm a (p, s, clear (groups a) c)))
     @ [(p, s, c)]"
| "rm (StarL a) (p, s, c) =
     (p, s, c) #
     concat (map (\<lambda>(p', s', c'). if length s' < length s then rm (StarL a) (p', s', c') else [])
                 (rm a (p, s, clear (groups a) c)))"
| "rm (Opt a) (p, s, c) =
     filter (\<lambda>(p', s', c'). length s' < length s) (rm a (p, s, clear (groups a) c)) @ [(p, s, c)]"
| "rm (Grp n a) (p, s, c) =
     map (\<lambda>(p', s', c'). (p', s', (n, take (length s - length s') s) # c')) (rm a (p, s, c))"
| "rm Bol (p, s, c) = (if p = [] \<or> isLineTerminator (hd p) then [(p, s, c)] else [])"
| "rm Eol (p, s, c) = (if s = [] \<or> isLineTerminator (hd s) then [(p, s, c)] else [])"
| "rm Bos (p, s, c) = (if p = [] then [(p, s, c)] else [])"
| "rm Eos (p, s, c) = (if s = [] then [(p, s, c)] else [])"
| "rm (Ahead a) (p, s, c) =
     (case rm a (p, s, c) of [] \<Rightarrow> [] | (p', s', c') # _ \<Rightarrow> [(p, s, c')])"
| "rm (NAhead a) (p, s, c) = (if rm a (p, s, c) = [] then [(p, s, c)] else [])"
| "rm (NBehind w) (p, s, c) = (if prefix (rev w) p then [] else [(p, s, c)])"
  by pat_completeness auto
termination
  by (relation "inv_image (less_than <*lex*> less_than) (\<lambda>(r, p, s, c). (size r, length s))")
     auto

text \<open>The equations of the two stars unfold for ever: they are used by hand.\<close>

lemmas rm_Star = rm.simps(7)
lemmas rm_StarL = rm.simps(8)

declare rm.simps(7) [simp del] rm.simps(8) [simp del]

text \<open>
  One attempt at one position, as RegExpBuiltinExec makes it: the matched text and the
  captures of the preferred match.
\<close>

definition exec :: "regex \<Rightarrow> string \<Rightarrow> string \<Rightarrow> (string \<times> caps) option" where
  "exec r p s =
     (case rm r (p, s, []) of
        [] \<Rightarrow> None
      | (p', s', c) # _ \<Rightarrow> Some (take (length s - length s') s, c))"

text \<open>
  The matches of a regular expression with the g flag, from left to right: each position
  is tried unless it lies inside the previous match (\<open>k\<close> characters still to skip); an
  empty match lets the next character through. The result lists the characters copied
  and the matches found.
\<close>

fun gsegs :: "regex \<Rightarrow> string \<Rightarrow> string \<Rightarrow> nat \<Rightarrow> (char + string \<times> caps) list" where
  "gsegs r p [] k =
     (if k = 0 then (case exec r p [] of None \<Rightarrow> [] | Some mc \<Rightarrow> [Inr mc]) else [])"
| "gsegs r p (x # xs) k =
     (if 0 < k then gsegs r (x # p) xs (k - 1)
      else (case exec r p (x # xs) of
              None \<Rightarrow> Inl x # gsegs r (x # p) xs 0
            | Some (m, c) \<Rightarrow>
                if m = [] then Inr (m, c) # Inl x # gsegs r (x # p) xs 0
                else Inr (m, c) # gsegs r (x # p) xs (length m - 1)))"

text \<open>\<open>s.replace(r, f)\<close> for \<open>r\<close> with the g flag and a replacer function \<open>f\<close>.\<close>

definition gsub :: "regex \<Rightarrow> (string \<Rightarrow> caps \<Rightarrow> string) \<Rightarrow> string \<Rightarrow> string" where
  "gsub r f s =
     concat (map (\<lambda>seg. case seg of Inl x \<Rightarrow> [x] | Inr (m, c) \<Rightarrow> f m c) (gsegs r [] s 0))"

text \<open>
  The first match of a regular expression without the g flag (\<open>match\<close>, \<open>test\<close>, \<open>replace\<close>):
  the text before it (reversed), the match, its captures and the text after it.
\<close>

fun search :: "regex \<Rightarrow> string \<Rightarrow> string \<Rightarrow> (string \<times> string \<times> caps \<times> string) option" where
  "search r p [] =
     (case exec r p [] of None \<Rightarrow> None | Some (m, c) \<Rightarrow> Some (p, m, c, []))"
| "search r p (x # xs) =
     (case exec r p (x # xs) of
        Some (m, c) \<Rightarrow> Some (p, m, c, drop (length m) (x # xs))
      | None \<Rightarrow> search r (x # p) xs)"

definition test :: "regex \<Rightarrow> string \<Rightarrow> bool" where
  "test r s = (search r [] s \<noteq> None)"

definition match :: "regex \<Rightarrow> string \<Rightarrow> (string \<times> caps) option" where
  "match r s = (case search r [] s of None \<Rightarrow> None | Some (p, m, c, rest) \<Rightarrow> Some (m, c))"

definition replace_first :: "regex \<Rightarrow> string \<Rightarrow> string \<Rightarrow> string" where
  "replace_first r t s =
     (case search r [] s of None \<Rightarrow> s | Some (p, m, c, rest) \<Rightarrow> rev p @ t @ rest)"


section \<open>The converter\<close>

subsection \<open>escapeHtml\<close>

text \<open>\<^verbatim>\<open>/&(?![a-zA-Z]+;)|[<>"']/g\<close>\<close>

definition ESCAPE_HTML_RE :: regex where
  "ESCAPE_HTML_RE =
     Alt (Seq (Lit ''&'')
              (NAhead (Seq (Plus (Cls [CRange (CHR ''a'') (CHR ''z''), CRange (CHR ''A'') (CHR ''Z'')]))
                           (Lit '';''))))
         (Cls [CChar (CHR ''<''), CChar (CHR ''>''), CChar DQ, CChar SQ])"

definition entity :: "string \<Rightarrow> string" where
  "entity m =
     (if m = ''&'' then ''&amp;''
      else if m = ''<'' then ''&lt;''
      else if m = ''>'' then ''&gt;''
      else if m = [DQ] then ''&quot;''
      else if m = [SQ] then ''&#39;''
      else m)"

definition escapeHtml :: "string \<Rightarrow> string" where
  "escapeHtml html = gsub ESCAPE_HTML_RE (\<lambda>m c. entity m) html"

subsection \<open>Escaped characters\<close>

text \<open>\<^verbatim>\<open>/\\([\\`*_{}\[\]()#+\-.!~>])/g\<close>\<close>

definition escapeSet :: string where
  "escapeSet = BSL # BT # ''*_{}[]()#+-.!~>''"

definition ESCAPED_RE :: regex where
  "ESCAPED_RE = Seq (Lit [BSL]) (Grp 1 (Cls (chars escapeSet)))"

definition escapedPlaceholder :: "nat \<Rightarrow> string" where
  "escapedPlaceholder k = ''<!--escaped_'' @ show_nat k @ ''-->''"

text \<open>
  The replacer numbers the matches from \<open>escapeIndex\<close> on and records each placeholder
  with its character.
\<close>

fun escapeMatches :: "(char + string \<times> caps) list \<Rightarrow> nat \<Rightarrow> string \<times> (string \<times> string) list" where
  "escapeMatches [] k = ([], [])"
| "escapeMatches (Inl x # segs) k =
     (case escapeMatches segs k of (md, tab) \<Rightarrow> (x # md, tab))"
| "escapeMatches (Inr (m, c) # segs) k =
     (case escapeMatches segs (Suc k) of
        (md, tab) \<Rightarrow> (escapedPlaceholder k @ md, (escapedPlaceholder k, capS 1 c) # tab))"

definition escapePass :: "string \<Rightarrow> string \<times> (string \<times> string) list" where
  "escapePass md = escapeMatches (gsegs ESCAPED_RE [] md 0) 0"

subsection \<open>parseBackticks\<close>

record tokens =
  out :: string
  codeBlocks :: "(string \<times> string) list"
  inlineCodeBlocks :: "(string \<times> string) list"
  codeIndex :: nat
  inlineIndex :: nat

definition blank :: "string \<Rightarrow> bool" where
  "blank l = (trim l = [])"

text \<open>
  The text of a fence: carriage returns dropped, blank lines removed at both ends, the
  common indentation removed (\<open>minIndent\<close> starts at 9999, and the \<open>isFinite\<close> test of
  the source never fires on it), the escaped characters put back, then HTML-escaped.
\<close>

definition minIndent :: "string list \<Rightarrow> nat" where
  "minIndent ls =
     fold (\<lambda>l m. if trim l \<noteq> []
                  then (let spaces = length (takeWhile (\<lambda>c. c = CHR '' '') l)
                        in if spaces < m then spaces else m)
                  else m) ls 9999"

definition cleanCode :: "(string \<times> string) list \<Rightarrow> string \<Rightarrow> string" where
  "cleanCode escapePlaceholders codeText =
     (let lines0 = split NL (filter (\<lambda>c. c \<noteq> CR) codeText);
          lines1 = dropWhile blank lines0;
          lines2 = rev (dropWhile blank (rev lines1));
          cleaned = join [NL] (map (drop (minIndent lines2)) lines2)
      in fold (\<lambda>(placeholder, ch) t. replaceAll_str placeholder ch t) escapePlaceholders cleaned)"

definition codeBlockHtml :: "(string \<times> string) list \<Rightarrow> string \<Rightarrow> string \<Rightarrow> string" where
  \<open>codeBlockHtml escapePlaceholders lang codeText =
     ''<pre class="language-'' @ (if trim lang = [] then ''plaintext'' else trim lang)
     @ ''"><code>'' @ escapeHtml (cleanCode escapePlaceholders codeText) @ ''</code></pre>''\<close>

definition codeblockPlaceholder :: "nat \<Rightarrow> string" where
  "codeblockPlaceholder k = ''<!--codeblock_'' @ show_nat k @ ''-->''"

definition inlinecodePlaceholder :: "nat \<Rightarrow> string" where
  "inlinecodePlaceholder k = ''<!--inlinecode_'' @ show_nat k @ ''-->''"

text \<open>The text up to the next occurrence of \<open>w\<close> and the text after it, or all of it.\<close>

definition upTo :: "string \<Rightarrow> string \<Rightarrow> string \<times> string" where
  "upTo w s = (case find_sub w [] s of None \<Rightarrow> (s, []) | Some (bef, aft) \<Rightarrow> (bef, aft))"

definition skipChar :: "char \<Rightarrow> string \<Rightarrow> string" where
  "skipChar d s = (case s of [] \<Rightarrow> [] | x # xs \<Rightarrow> if x = d then xs else s)"

lemma find_sub_length: "find_sub w p s = Some (b, a) \<Longrightarrow> length a \<le> length s"
  by (induction w p s rule: find_sub.induct) (auto split: if_splits)

lemma upTo_length: "length (snd (upTo w s)) \<le> length s"
  by (auto simp: upTo_def split: option.splits dest: find_sub_length)

lemma skipChar_length: "length (skipChar d s) \<le> length s"
  by (auto simp: skipChar_def split: list.splits)

text \<open>The scan of \<open>parseBackticks\<close> from position \<open>i\<close>: \<open>src\<close> is the text from \<open>i\<close> on.\<close>

function parseBackticks_from :: "(string \<times> string) list \<Rightarrow> string \<Rightarrow> tokens \<Rightarrow> tokens" where
  "parseBackticks_from esc src t =
     (if src = [] then t
      else if prefix ''```'' src then
        (let afterFence = drop 3 src;
             lang = takeWhile (\<lambda>c. \<not> isSpace c) afterFence;
             codeStart = skipChar NL (skipChar CR (dropWhile (\<lambda>c. \<not> isSpace c) afterFence));
             codeText = fst (upTo ''```'' codeStart);
             placeholder = codeblockPlaceholder (codeIndex t)
         in parseBackticks_from esc (snd (upTo ''```'' codeStart))
              (t\<lparr>out := out t @ placeholder,
                 codeBlocks := codeBlocks t @ [(placeholder, codeBlockHtml esc lang codeText)],
                 codeIndex := Suc (codeIndex t)\<rparr>))
      else if prefix ''``'' src then
        (let codeText = fst (upTo ''``'' (drop 2 src));
             placeholder = inlinecodePlaceholder (inlineIndex t)
         in parseBackticks_from esc (snd (upTo ''``'' (drop 2 src)))
              (t\<lparr>out := out t @ placeholder,
                 inlineCodeBlocks := inlineCodeBlocks t @ [(placeholder, codeText)],
                 inlineIndex := Suc (inlineIndex t)\<rparr>))
      else if hd src = BT then
        (let codeText = takeWhile (\<lambda>c. c \<noteq> BT) (tl src);
             placeholder = inlinecodePlaceholder (inlineIndex t)
         in parseBackticks_from esc (drop 1 (dropWhile (\<lambda>c. c \<noteq> BT) (tl src)))
              (t\<lparr>out := out t @ placeholder,
                 inlineCodeBlocks := inlineCodeBlocks t @ [(placeholder, codeText)],
                 inlineIndex := Suc (inlineIndex t)\<rparr>))
      else parseBackticks_from esc (tl src) (t\<lparr>out := out t @ [hd src]\<rparr>))"
  by pat_completeness auto
termination
proof (relation "measure (\<lambda>(esc, src, t). length src)", goal_cases)
  case 1
  show ?case by simp
next
  case (2 esc src t)
  have "length (snd (upTo ''```'' (skipChar NL (skipChar CR (dropWhile (\<lambda>c. \<not> isSpace c) (drop 3 src))))))
          \<le> length (drop 3 src)"
    by (rule order_trans [OF upTo_length], rule order_trans [OF skipChar_length],
        rule order_trans [OF skipChar_length], rule length_dropWhile_le)
  with 2 show ?case by (cases src) auto
next
  case (3 esc src t)
  have "length (snd (upTo ''``'' (drop 2 src))) \<le> length (drop 2 src)"
    by (rule upTo_length)
  with 3 show ?case by (cases src) auto
next
  case (4 esc src t)
  have "length (dropWhile (\<lambda>c. c \<noteq> BT) (tl src)) \<le> length (tl src)"
    by (rule length_dropWhile_le)
  with 4 show ?case by (cases src) auto
next
  case (5 esc src t)
  then show ?case by (cases src) auto
qed

declare parseBackticks_from.simps [simp del]

definition parseBackticks :: "(string \<times> string) list \<Rightarrow> string \<Rightarrow> tokens" where
  "parseBackticks esc src =
     parseBackticks_from esc src
       \<lparr>out = [], codeBlocks = [], inlineCodeBlocks = [], codeIndex = 0, inlineIndex = 0\<rparr>"

subsection \<open>Indentation\<close>

text \<open>\<^verbatim>\<open>/^( *)(\d+\. |[-+*] )/\<close> and \<^verbatim>\<open>/^\s+/\<close>\<close>

definition LIST_PREFIX_RE :: regex where
  "LIST_PREFIX_RE =
     Cat [Bos, Grp 1 (Star (Lit '' '')),
          Grp 2 (Alt (Seq (Plus (Cls [CDigit])) (Lit ''. ''))
                     (Seq (Cls (chars ''-+*'')) (Lit '' '')))]"

definition LEADING_SPACE_RE :: regex where
  "LEADING_SPACE_RE = Seq Bos (Plus (Cls [CSpace]))"

definition trimIndentLine :: "string \<Rightarrow> string" where
  "trimIndentLine line =
     (if test LIST_PREFIX_RE line \<or> startsWith ''```'' line \<or> startsWith ''<!--codeblock_'' line
      then line
      else replace_first LEADING_SPACE_RE [] line)"

definition trimIndentation :: "string \<Rightarrow> string" where
  "trimIndentation md = join [NL] (map trimIndentLine (split NL md))"

subsection \<open>Checkbox lists\<close>

text \<open>\<^verbatim>\<open>/((?:^ *[-+*] \[[ xX]\] .+(?:\n|$))+)/gm\<close>, \<^verbatim>\<open>/\[x\]/i\<close> and
  \<^verbatim>\<open>/^ *[-+*] \[[ xX]\] /\<close>\<close>

definition CHECKBOX_BLOCK_RE :: regex where
  "CHECKBOX_BLOCK_RE =
     Grp 1 (Plus (Cat [Bol, Star (Lit '' ''), Cls (chars ''-+*''), Lit '' ['',
                       Cls (chars '' xX''), Lit ''] '', Plus Dot, Alt (Lit [NL]) Eol]))"

definition CHECKED_RE :: regex where
  "CHECKED_RE = Cat [Lit ''['', Cls (chars ''xX''), Lit '']'']"

definition CHECKBOX_PREFIX_RE :: regex where
  "CHECKBOX_PREFIX_RE =
     Cat [Bos, Star (Lit '' ''), Cls (chars ''-+*''), Lit '' ['', Cls (chars '' xX''), Lit ''] '']"

definition checkboxItem :: "string \<Rightarrow> string" where
  \<open>checkboxItem line =
     (let checked = test CHECKED_RE line;
          content = replace_first CHECKBOX_PREFIX_RE [] line
      in ''<li style="list-style: none;"><label><input type="checkbox"''
         @ (if checked then '' checked'' else []) @ '' disabled /> '' @ content
         @ ''</label></li>'')\<close>

definition checkboxBlock :: "string \<Rightarrow> string" where
  "checkboxBlock block =
     ''<ul>'' @ concat (map checkboxItem (split NL (trim block))) @ ''</ul>''"

definition checkboxLists :: "string \<Rightarrow> string" where
  "checkboxLists md = gsub CHECKBOX_BLOCK_RE (\<lambda>block c. checkboxBlock block) md"

subsection \<open>Nested lists\<close>

text \<open>\<^verbatim>\<open>/((?:^ *(?:[-+*]|\d+\.) .+(?:\n|$))+)/gm\<close>, \<^verbatim>\<open>/^( *)([-+*]|\d+)\. (.+)$/\<close>,
  \<^verbatim>\<open>/^( *)([-+*]) (.+)$/\<close>, \<^verbatim>\<open>/^\d+$/\<close> and
  \<^verbatim>\<open>/<li><span style="display:none" data-md-index="(\d+)"><\/span>/g\<close>\<close>

definition LIST_BLOCK_RE :: regex where
  "LIST_BLOCK_RE =
     Grp 1 (Plus (Cat [Bol, Star (Lit '' ''),
                       Alt (Cls (chars ''-+*'')) (Seq (Plus (Cls [CDigit])) (Lit ''.'')),
                       Lit '' '', Plus Dot, Alt (Lit [NL]) Eol]))"

definition ITEM_DOT_RE :: regex where
  "ITEM_DOT_RE =
     Cat [Bos, Grp 1 (Star (Lit '' '')), Grp 2 (Alt (Cls (chars ''-+*'')) (Plus (Cls [CDigit]))),
          Lit ''. '', Grp 3 (Plus Dot), Eos]"

definition ITEM_BULLET_RE :: regex where
  "ITEM_BULLET_RE =
     Cat [Bos, Grp 1 (Star (Lit '' '')), Grp 2 (Cls (chars ''-+*'')), Lit '' '',
          Grp 3 (Plus Dot), Eos]"

definition ALL_DIGITS_RE :: regex where
  "ALL_DIGITS_RE = Cat [Bos, Plus (Cls [CDigit]), Eos]"

definition INDEX_SPAN_RE :: regex where
  \<open>INDEX_SPAN_RE =
     Cat [Lit ''<li><span style="display:none" data-md-index="'', Grp 1 (Plus (Cls [CDigit])),
          Lit ''"></span>'']\<close>

datatype ltype = Ol | Ul

fun tagOf :: "ltype \<Rightarrow> string" where
  "tagOf Ol = ''ol''"
| "tagOf Ul = ''ul''"

record frame =
  indent :: nat
  type :: ltype

text \<open>
  The list stack is a JavaScript array: \<open>push\<close> appends, \<open>pop\<close> removes the last element,
  so the top of the stack is \<^term>\<open>last stack\<close>. The state of the pass is the HTML so far
  and the stack.
\<close>

type_synonym lstate = "string \<times> frame list"

text \<open>\<^verbatim>\<open>while (stack.length && stack[stack.length - 1].indent > indent)\<close>\<close>

function closeDeeper :: "nat \<Rightarrow> lstate \<Rightarrow> lstate" where
  "closeDeeper ind (html, stack) =
     (if stack \<noteq> [] \<and> indent (last stack) > ind
      then closeDeeper ind (html @ ''</li></'' @ tagOf (type (last stack)) @ ''>'', butlast stack)
      else (html, stack))"
  by pat_completeness auto
termination
  by (relation "measure (\<lambda>(ind, html, stack). length stack)") auto

declare closeDeeper.simps [simp del]

text \<open>\<^verbatim>\<open>while (stack.length)\<close>\<close>

function closeAll :: "lstate \<Rightarrow> lstate" where
  "closeAll (html, stack) =
     (if stack \<noteq> []
      then closeAll (html @ ''</li></'' @ tagOf (type (last stack)) @ ''>'', butlast stack)
      else (html, stack))"
  by pat_completeness auto
termination
  by (relation "measure (\<lambda>(html, stack). length stack)") auto

declare closeAll.simps [simp del]

definition matchItem :: "string \<Rightarrow> (string \<times> caps) option" where
  "matchItem line =
     (case match ITEM_DOT_RE line of Some mc \<Rightarrow> Some mc | None \<Rightarrow> match ITEM_BULLET_RE line)"

definition indexSpan :: "string \<Rightarrow> string" where
  \<open>indexSpan marker = ''<span style="display:none" data-md-index="'' @ marker @ ''"></span>''\<close>

text \<open>The body of \<open>lines.forEach\<close>.\<close>

definition listLine :: "lstate \<Rightarrow> string \<Rightarrow> lstate" where
  "listLine st line =
     (case matchItem line of
        None \<Rightarrow> st
      | Some (m, c) \<Rightarrow>
          (let ind = length (capS 1 c);
               marker = capS 2 c;
               content = capS 3 c;
               ty = (if test ALL_DIGITS_RE marker then Ol else Ul);
               isOrdered = (ty = Ol);
               (html1, stack1) = closeDeeper ind st;
               (html2, stack2) =
                 (if stack1 = [] \<or> indent (last stack1) < ind
                  then (html1 @ ''<'' @ tagOf ty @ ''><li>'', stack1 @ [\<lparr>indent = ind, type = ty\<rparr>])
                  else (html1 @ ''</li><li>'', stack1))
           in (html2 @ (if isOrdered then indexSpan marker @ content else content), stack2)))"

definition listBlock :: "string \<Rightarrow> string" where
  \<open>listBlock block =
     (let lines = split NL (trimEnd block);
          html = fst (closeAll (foldl listLine ([], []) lines))
      in gsub INDEX_SPAN_RE (\<lambda>m c. ''<li value="'' @ capS 1 c @ ''">'') html)\<close>

definition nestedLists :: "string \<Rightarrow> string" where
  "nestedLists md = gsub LIST_BLOCK_RE (\<lambda>block c. listBlock block) md"

subsection \<open>Inline patterns\<close>

definition heading :: "nat \<Rightarrow> regex" where
  "heading n = Cat [Bol, Lit (replicate n (CHR ''#'') @ '' ''), Grp 1 (Star Dot), Eol]"

text \<open>\<^verbatim>\<open>/^(-{3,}|\*{3,}|_{3,})$/gm\<close>\<close>

definition HR_RE :: regex where
  "HR_RE =
     Cat [Bol, Grp 1 (Alt (AtLeast3 (Lit ''-'')) (Alt (AtLeast3 (Lit ''*'')) (AtLeast3 (Lit ''_'')))),
          Eol]"

text \<open>\<^verbatim>\<open>/~~(.*?)~~/g\<close>\<close>

definition DEL_RE :: regex where
  "DEL_RE = Cat [Lit ''~~'', Grp 1 (StarL Dot), Lit ''~~'']"

text \<open>
  The six emphasis patterns have one shape,
  \<^verbatim>\<open>/(^|\W)M(?!x)(.+?)(?<!B)M(?=\W|$)/g\<close>, for a marker \<open>M\<close> of characters \<open>x\<close> and a
  lookbehind \<open>B\<close>. They have no m flag.
\<close>

definition emphasis :: "string \<Rightarrow> char \<Rightarrow> string \<Rightarrow> regex" where
  "emphasis marker x behind =
     Cat [Grp 1 (Alt Bos (NCls [CWord])), Lit marker, NAhead (Lit [x]), Grp 2 (PlusL Dot),
          NBehind behind, Lit marker, Ahead (Alt (NCls [CWord]) Eos)]"

text \<open>\<^verbatim>\<open>/<((https?|ftp):\/\/[^>\s]+)>/g\<close>\<close>

definition AUTOLINK_RE :: regex where
  "AUTOLINK_RE =
     Cat [Lit ''<'',
          Grp 1 (Cat [Grp 2 (Alt (Seq (Lit ''http'') (Opt (Lit ''s''))) (Lit ''ftp'')), Lit ''://'',
                      Plus (NCls [CChar (CHR ''>''), CSpace])]),
          Lit ''>'']"

definition wrap1 :: "string \<Rightarrow> string \<Rightarrow> string \<Rightarrow> caps \<Rightarrow> string" where
  "wrap1 opening closing m c = opening @ capS 1 c @ closing"

definition wrap2 :: "string \<Rightarrow> string \<Rightarrow> string \<Rightarrow> caps \<Rightarrow> string" where
  "wrap2 opening closing m c = capS 1 c @ opening @ capS 2 c @ closing"

definition autolink :: "string \<Rightarrow> caps \<Rightarrow> string" where
  \<open>autolink m c = ''<a href="'' @ capS 1 c @ ''" target="_blank">'' @ capS 1 c @ ''</a>''\<close>

text \<open>The table \<open>patterns\<close>, in the order of the source.\<close>

definition patterns :: "(regex \<times> (string \<Rightarrow> caps \<Rightarrow> string)) list" where
  "patterns =
     [(heading 6, wrap1 ''<h6>'' ''</h6>''),
      (heading 5, wrap1 ''<h5>'' ''</h5>''),
      (heading 4, wrap1 ''<h4>'' ''</h4>''),
      (heading 3, wrap1 ''<h3>'' ''</h3>''),
      (heading 2, wrap1 ''<h2>'' ''</h2>''),
      (heading 1, wrap1 ''<h1>'' ''</h1>''),
      (HR_RE, (\<lambda>m c. ''<hr>'')),
      (DEL_RE, wrap1 ''<del>'' ''</del>''),
      (emphasis ''***'' (CHR ''*'') ''**'', wrap2 ''<strong><em>'' ''</em></strong>''),
      (emphasis ''___'' (CHR ''_'') ''___'', wrap2 ''<strong><em>'' ''</em></strong>''),
      (emphasis ''**'' (CHR ''*'') ''**'', wrap2 ''<strong>'' ''</strong>''),
      (emphasis ''__'' (CHR ''_'') ''__'', wrap2 ''<strong>'' ''</strong>''),
      (emphasis ''*'' (CHR ''*'') ''*'', wrap2 ''<em>'' ''</em>''),
      (emphasis ''_'' (CHR ''_'') ''_'', wrap2 ''<em>'' ''</em>''),
      (AUTOLINK_RE, autolink)]"

definition inlinePatterns :: "string \<Rightarrow> string" where
  "inlinePatterns md = fold (\<lambda>(regex, replacement) t. gsub regex replacement t) patterns md"

subsection \<open>Images and links\<close>

text \<open>\<^verbatim>\<open>/!\[([^\]]*)\]\((\S+?)(?: +"([^"]+)")?\)/g\<close> and
  \<^verbatim>\<open>/\[([^\]]+)\]\((\S+?)(?: +"([^"]+)")?\)/g\<close>\<close>

definition TITLE_RE :: regex where
  "TITLE_RE = Opt (Cat [Plus (Lit '' ''), Lit [DQ], Grp 3 (Plus (NCls [CChar DQ])), Lit [DQ]])"

definition IMAGE_RE :: regex where
  "IMAGE_RE =
     Cat [Lit ''!['', Grp 1 (Star (NCls [CChar (CHR '']'')])), Lit ''](''  ,
          Grp 2 (PlusL (NCls [CSpace])), TITLE_RE, Lit '')'']"

definition LINK_RE :: regex where
  "LINK_RE =
     Cat [Lit ''['', Grp 1 (Plus (NCls [CChar (CHR '']'')])), Lit ''](''  ,
          Grp 2 (PlusL (NCls [CSpace])), TITLE_RE, Lit '')'']"

definition titleAttr :: "caps \<Rightarrow> string" where
  \<open>titleAttr c = (if capS 3 c \<noteq> [] then '' title="'' @ capS 3 c @ [DQ] else [])\<close>

definition image :: "string \<Rightarrow> caps \<Rightarrow> string" where
  \<open>image m c =
     ''<img alt="'' @ capS 1 c @ ''" src="'' @ capS 2 c @ [DQ] @ titleAttr c
     @ '' style="max-width: 100%;">''\<close>

definition link :: "string \<Rightarrow> caps \<Rightarrow> string" where
  \<open>link m c =
     ''<a href="'' @ capS 2 c @ [DQ] @ titleAttr c @ '' target="_blank">'' @ capS 1 c @ ''</a>''\<close>

definition images :: "string \<Rightarrow> string" where
  "images md = gsub IMAGE_RE image md"

definition links :: "string \<Rightarrow> string" where
  "links md = gsub LINK_RE link md"

subsection \<open>Blockquotes\<close>

text \<open>\<^verbatim>\<open>/^((&gt; ?.*(?:\n|$))+((?!(&gt;|<|\n|$)).*(?:\n|$))*)+/gm\<close>,
  \<^verbatim>\<open>/^((?:&gt;\s?)+)(.*)$/\<close>, \<^verbatim>\<open>/\s+/g\<close>, \<^verbatim>\<open>/&gt;/g\<close> and \<^verbatim>\<open>/\s/g\<close>\<close>

definition LINE_END :: regex where
  "LINE_END = Alt (Lit [NL]) Eol"

definition BLOCKQUOTE_RE :: regex where
  "BLOCKQUOTE_RE =
     Cat [Bol,
          Plus (Grp 1 (Seq
            (Plus (Grp 2 (Cat [Lit ''&gt;'', Opt (Lit '' ''), Star Dot, LINE_END])))
            (Star (Grp 3 (Cat [NAhead (Grp 4 (Alt (Lit ''&gt;'') (Alt (Lit ''<'') (Alt (Lit [NL]) Eol)))),
                               Star Dot, LINE_END])))))]"

definition QUOTE_LINE_RE :: regex where
  "QUOTE_LINE_RE =
     Cat [Bos, Grp 1 (Plus (Seq (Lit ''&gt;'') (Opt (Cls [CSpace])))), Grp 2 (Star Dot), Eos]"

definition SPACES_RE :: regex where
  "SPACES_RE = Plus (Cls [CSpace])"

definition SPACE_RE :: regex where
  "SPACE_RE = Cls [CSpace]"

definition GT_RE :: regex where
  "GT_RE = Lit ''&gt;''"

text \<open>\<open>(s.match(r) || []).length\<close> for \<open>r\<close> with the g flag.\<close>

definition countMatches :: "regex \<Rightarrow> string \<Rightarrow> nat" where
  "countMatches r s = length (filter (\<lambda>seg. case seg of Inl x \<Rightarrow> False | Inr mc \<Rightarrow> True) (gsegs r [] s 0))"

record qline =
  level :: nat
  content :: string
  isQuote :: bool

definition quoteLine :: "string \<Rightarrow> qline" where
  "quoteLine line =
     (case match QUOTE_LINE_RE line of
        Some (m, c) \<Rightarrow>
          (let arrowStr = gsub SPACES_RE (\<lambda>m c. []) (capS 1 c);
               count = countMatches GT_RE arrowStr
           in \<lparr>level = count, content = trimStart (capS 2 c), isQuote = True\<rparr>)
      | None \<Rightarrow> \<lparr>level = 0, content = line, isQuote = False\<rparr>)"

text \<open>
  The items collected into \<open>nested\<close> after a deeper item of level \<open>l\<close>: the following items
  up to the first one that is no quote or has a smaller level.
\<close>

definition inNested :: "nat \<Rightarrow> qline \<Rightarrow> bool" where
  "inNested l item = (\<not> (\<not> isQuote item \<or> level item < l))"

definition collapse :: "string \<Rightarrow> string" where
  "collapse nestedHtml =
     (let stripped = gsub SPACE_RE (\<lambda>m c. []) nestedHtml
      in if stripped = ''<blockquote></blockquote>'' \<or> stripped = ''<blockquote><br></blockquote>''
         then ''<br>'' else nestedHtml)"

definition quoteWeight :: "nat \<Rightarrow> qline list \<Rightarrow> nat" where
  "quoteWeight lv items = sum_list (map (\<lambda>x. Suc (level x) - lv) items)"

lemma quoteWeight_takeWhile: "quoteWeight lv (takeWhile P xs) \<le> quoteWeight lv xs"
  by (induction xs) (auto simp: quoteWeight_def)

lemma quoteWeight_dropWhile: "quoteWeight lv (dropWhile P xs) \<le> quoteWeight lv xs"
  by (induction xs) (auto simp: quoteWeight_def)

lemma quoteWeight_mono: "lv \<le> lv' \<Longrightarrow> quoteWeight lv' xs \<le> quoteWeight lv xs"
  by (induction xs) (auto simp: quoteWeight_def)

text \<open>
  \<open>renderQuote\<close>, with the converter it calls on the content of a line as the parameter
  \<open>md2html\<close>; a call of the converter that does not return makes the whole rendering not
  return. \<open>quoteItems\<close> is the \<open>for\<close> loop from index \<open>i\<close> on, giving \<open>result\<close>.
\<close>

function renderQuote :: "(string \<Rightarrow> string option) \<Rightarrow> qline list \<Rightarrow> nat \<Rightarrow> string option"
  and quoteItems :: "(string \<Rightarrow> string option) \<Rightarrow> qline list \<Rightarrow> nat \<Rightarrow> string list option"
where
  "renderQuote md2html items lv =
     (case quoteItems md2html items lv of
        None \<Rightarrow> None
      | Some result \<Rightarrow> Some (''<blockquote>'' @ join [NL] result @ ''</blockquote>''))"
| "quoteItems md2html [] lv = Some []"
| "quoteItems md2html (item # rest) lv =
     (if \<not> isQuote item then
        (case md2html (content item) of
           None \<Rightarrow> None
         | Some h \<Rightarrow> map_option ((#) h) (quoteItems md2html rest lv))
      else if level item = lv then
        (case (if content item = [] then Some ''<br>'' else md2html (content item)) of
           None \<Rightarrow> None
         | Some h \<Rightarrow> map_option ((#) h) (quoteItems md2html rest lv))
      else if level item > lv then
        (case renderQuote md2html (item # takeWhile (inNested (level item)) rest) (level item) of
           None \<Rightarrow> None
         | Some nestedHtml \<Rightarrow>
             map_option ((#) (collapse nestedHtml))
               (quoteItems md2html (dropWhile (inNested (level item)) rest) lv))
      else quoteItems md2html rest lv)"
  by pat_completeness auto
termination
proof (relation "inv_image (less_than <*lex*> less_than <*lex*> less_than)
                   (\<lambda>x. case x of
                          Inl (f, items, lv) \<Rightarrow> (quoteWeight lv items, length items, Suc 0)
                        | Inr (f, items, lv) \<Rightarrow> (quoteWeight lv items, length items, 0))",
       goal_cases)
  case 1
  show ?case by (intro wf_inv_image wf_lex_prod wf_less_than)
next
  case (2 md2html items lv)
  show ?case by simp
next
  case (3 md2html item rest lv)
  show ?case by (auto simp: quoteWeight_def)
next
  case (4 md2html item rest lv)
  show ?case by (auto simp: quoteWeight_def)
next
  case (5 md2html item rest lv)
  have "quoteWeight (level item) (takeWhile (inNested (level item)) rest)
          \<le> quoteWeight lv rest"
    using 5 quoteWeight_takeWhile [of "level item" "inNested (level item)" rest]
          quoteWeight_mono [of lv "level item" rest]
    by simp
  with 5 show ?case by (auto simp: quoteWeight_def)
next
  case (6 md2html item rest lv)
  have "length (dropWhile (inNested (level item)) rest) \<le> length rest"
    by (rule length_dropWhile_le)
  moreover have "quoteWeight lv (dropWhile (inNested (level item)) rest) \<le> quoteWeight lv rest"
    by (rule quoteWeight_dropWhile)
  ultimately show ?case by (auto simp: quoteWeight_def)
next
  case (7 md2html item rest lv)
  show ?case by (auto simp: quoteWeight_def)
qed

declare renderQuote.simps [simp del]

definition quoteBlock :: "(string \<Rightarrow> string option) \<Rightarrow> string \<Rightarrow> string option" where
  "quoteBlock md2html raw = renderQuote md2html (map quoteLine (split NL (trimEnd raw))) 1"

text \<open>
  \<open>those\<close> of a list of results: all of them, when every one is there.
\<close>

definition blockquotes :: "(string \<Rightarrow> string option) \<Rightarrow> string \<Rightarrow> string option" where
  "blockquotes md2html md =
     map_option concat
       (those (map (\<lambda>seg. case seg of Inl x \<Rightarrow> Some [x] | Inr (raw, c) \<Rightarrow> quoteBlock md2html raw)
                   (gsegs BLOCKQUOTE_RE [] md 0)))"

subsection \<open>Tables\<close>

text \<open>\<^verbatim>\<open>/((?:^\|.*\|\n?)+)/gm\<close> and \<^verbatim>\<open>/^\|(?:[\s\-:]+\|)+$/\<close>\<close>

definition TABLE_BLOCK_RE :: regex where
  "TABLE_BLOCK_RE = Grp 1 (Plus (Cat [Bol, Lit ''|'', Star Dot, Lit ''|'', Opt (Lit [NL])]))"

definition ALIGN_ROW_RE :: regex where
  "ALIGN_ROW_RE =
     Cat [Bos, Lit ''|'',
          Plus (Seq (Plus (Cls [CSpace, CChar (CHR ''-''), CChar (CHR '':'')])) (Lit ''|'')),
          Eos]"

text \<open>\<open>s.slice(1, -1)\<close>\<close>

definition slice1 :: "string \<Rightarrow> string" where
  "slice1 s = butlast (tl s)"

definition alignment :: "string \<Rightarrow> string" where
  "alignment cell =
     (let t = trim cell
      in if t \<noteq> [] \<and> hd t = CHR '':'' \<and> last t = CHR '':'' then ''center''
         else if t \<noteq> [] \<and> hd t = CHR '':'' then ''left''
         else if t \<noteq> [] \<and> last t = CHR '':'' then ''right''
         else ''left'')"

definition cellsOf :: "string \<Rightarrow> string list" where
  "cellsOf row = split (CHR ''|'') (slice1 (trim row))"

text \<open>\<open>alignments[i] || "left"\<close>\<close>

definition alignAt :: "string list \<Rightarrow> nat \<Rightarrow> string" where
  "alignAt alignments i = (if i < length alignments then alignments ! i else ''left'')"

definition renderRow :: "string list \<Rightarrow> string \<Rightarrow> string \<Rightarrow> string" where
  \<open>renderRow alignments row tag =
     (let cells = map trim (cellsOf row)
      in ''<tr>''
         @ concat (map (\<lambda>(c, i). ''<'' @ tag @ '' style="text-align:'' @ alignAt alignments i
                                  @ '';">'' @ c @ ''</'' @ tag @ ''>'')
                       (zip cells [0 ..< length cells]))
         @ ''</tr>'')\<close>

definition tableBlock :: "string \<Rightarrow> string" where
  "tableBlock block =
     (let lines = split NL (trim block)
      in if length lines < 2 \<or> \<not> test ALIGN_ROW_RE (lines ! 1) then block
         else
           (let alignments = map alignment (cellsOf (lines ! 1));
                thead = renderRow alignments (lines ! 0) ''th'';
                tbody = concat (map (\<lambda>row. renderRow alignments row ''td'') (drop 2 lines))
            in ''<table><thead>'' @ thead @ ''</thead><tbody>'' @ tbody @ ''</tbody></table>''))"

definition tables :: "string \<Rightarrow> string" where
  "tables md = gsub TABLE_BLOCK_RE (\<lambda>block c. tableBlock block) md"

subsection \<open>Paragraphs\<close>

text \<open>\<^verbatim>\<open>/^<\/?[a-zA-Z][\w\-]*(\s[^>]*)?>/\<close>\<close>

definition HTML_TAG_RE :: regex where
  "HTML_TAG_RE =
     Cat [Bos, Lit ''<'', Opt (Lit ''/''),
          Cls [CRange (CHR ''a'') (CHR ''z''), CRange (CHR ''A'') (CHR ''Z'')],
          Star (Cls [CWord, CChar (CHR ''-'')]),
          Opt (Grp 1 (Seq (Cls [CSpace]) (Star (NCls [CChar (CHR ''>'')])))),
          Lit ''>'']"

definition isHtmlTagLike :: "string \<Rightarrow> bool" where
  "isHtmlTagLike line = test HTML_TAG_RE (trim line)"

text \<open>The state of the loop: \<open>result\<close> and \<open>paragraph\<close>.\<close>

type_synonym pstate = "string list \<times> string list"

definition flush :: "pstate \<Rightarrow> pstate" where
  "flush st =
     (case st of (result, paragraph) \<Rightarrow>
        (if paragraph \<noteq> [] then result @ [''<p>'' @ join ''<br>'' paragraph @ ''</p>''] else result,
         []))"

definition paragraphLine :: "pstate \<Rightarrow> string \<Rightarrow> pstate" where
  "paragraphLine st line =
     (let trimmed = trim line
      in if trimmed = [] then flush st
         else if startsWith ''<!--codeblock_'' trimmed \<or> isHtmlTagLike trimmed
         then (case flush st of (result, paragraph) \<Rightarrow> (result @ [trimmed], paragraph))
         else (case st of (result, paragraph) \<Rightarrow> (result, paragraph @ [trimmed])))"

definition paragraphs :: "string \<Rightarrow> string" where
  "paragraphs md = join [NL] (fst (flush (foldl paragraphLine ([], []) (split NL md))))"

subsection \<open>Putting the placeholders back\<close>

definition restoreCodeBlocks :: "(string \<times> string) list \<Rightarrow> string \<Rightarrow> string" where
  "restoreCodeBlocks blocks html =
     foldl (\<lambda>h (placeholder, blockHtml). replace_str placeholder blockHtml h) html blocks"

definition restoreInlineCode :: "(string \<times> string) list \<Rightarrow> string \<Rightarrow> string" where
  "restoreInlineCode blocks html =
     foldl (\<lambda>h (placeholder, code).
              replace_str placeholder (''<code>'' @ escapeHtml code @ ''</code>'') h) html blocks"

definition restoreEscaped :: "(string \<times> string) list \<Rightarrow> string \<Rightarrow> string" where
  "restoreEscaped escapes html =
     foldl (\<lambda>h (placeholder, ch). replace_str placeholder ch h) html escapes"

subsection \<open>markdownToHtml\<close>

text \<open>
  The converter calls itself on the content of quoted lines. The first argument bounds
  the depth of these calls: \<open>None\<close> stands for a conversion that needs deeper calls
  than that.
\<close>

fun markdownToHtml :: "nat \<Rightarrow> string \<Rightarrow> string option" where
  "markdownToHtml 0 md = None"
| "markdownToHtml (Suc depth) md =
     (let (md1, escapePlaceholders) = escapePass md;
          t = parseBackticks escapePlaceholders md1;
          md2 = links (images (inlinePatterns (nestedLists (checkboxLists (trimIndentation (out t))))))
      in case blockquotes (markdownToHtml depth) md2 of
           None \<Rightarrow> None
         | Some md3 \<Rightarrow>
             Some (trim (restoreEscaped escapePlaceholders
                          (restoreInlineCode (inlineCodeBlocks t)
                            (restoreCodeBlocks (codeBlocks t) (paragraphs (tables md3)))))))"

declare markdownToHtml.simps [simp del]

section \<open>Notions used in the statements\<close>

text \<open>One converter returns whatever another one returns.\<close>

definition below :: "(string \<Rightarrow> string option) \<Rightarrow> (string \<Rightarrow> string option) \<Rightarrow> bool" where
  "below f g = (\<forall>a r. f a = Some r \<longrightarrow> g a = Some r)"

text \<open>The list stack is strictly increasing in indent width from bottom to top.\<close>

definition increasing :: "frame list \<Rightarrow> bool" where
  "increasing stack = sorted_wrt (<) (map indent stack)"

text \<open>What \<open>listLine\<close> appends for an item after its opening tag.\<close>

definition itemHtml :: "caps \<Rightarrow> string" where
  "itemHtml c =
     (if test ALL_DIGITS_RE (capS 2 c) then indexSpan (capS 2 c) @ capS 3 c else capS 3 c)"

text \<open>The characters a regular expression can consume.\<close>

fun may :: "regex \<Rightarrow> char \<Rightarrow> bool" where
  "may (Lit w) ch = (ch \<in> set w)"
| "may (Cls items) ch = inClass items ch"
| "may (NCls items) ch = (\<not> inClass items ch)"
| "may Dot ch = (\<not> isLineTerminator ch)"
| "may (Seq a b) ch = (may a ch \<or> may b ch)"
| "may (Alt a b) ch = (may a ch \<or> may b ch)"
| "may (Star a) ch = may a ch"
| "may (StarL a) ch = may a ch"
| "may (Opt a) ch = may a ch"
| "may (Grp n a) ch = may a ch"
| "may _ ch = False"

text \<open>
  From the position \<open>(p, s)\<close> to the position \<open>(p', s')\<close> the matcher has read characters
  that satisfy \<open>P\<close>.
\<close>

definition eats :: "(char \<Rightarrow> bool) \<Rightarrow> string \<Rightarrow> string \<Rightarrow> string \<Rightarrow> string \<Rightarrow> bool" where
  "eats P p s p' s' = (\<exists>m. s = m @ s' \<and> p' = rev m @ p \<and> (\<forall>ch\<in>set m. P ch))"

text \<open>Captures come from the captures before or from the text still to read.\<close>

definition capsFrom :: "string \<Rightarrow> caps \<Rightarrow> caps \<Rightarrow> bool" where
  "capsFrom s c c' = (\<forall>kv\<in>set c'. kv \<in> set c \<or> set (snd kv) \<subseteq> set s)"

text \<open>A regular expression that reads exactly one character, one that satisfies \<open>P\<close>.\<close>

definition single :: "regex \<Rightarrow> (char \<Rightarrow> bool) \<Rightarrow> bool" where
  "single r P =
     (groups r = [] \<and>
      (\<forall>p s c. rm r (p, s, c) = (case s of [] \<Rightarrow> [] | x # xs \<Rightarrow> if P x then [(x # p, xs, c)] else [])))"

text \<open>
  \<open>escapeHtml\<close> written out: an ampersand is kept when one or more letters and a
  semicolon follow it, the other four characters always become entities.
\<close>

definition entityAhead :: "string \<Rightarrow> bool" where
  "entityAhead s = (takeWhile isLetter s \<noteq> [] \<and> prefix '';'' (dropWhile isLetter s))"

fun escapeSpec :: "string \<Rightarrow> string" where
  "escapeSpec [] = []"
| "escapeSpec (x # xs) =
     (if x = CHR ''&'' \<and> \<not> entityAhead xs \<or> x = CHR ''<'' \<or> x = CHR ''>'' \<or> x = DQ \<or> x = SQ
      then entity [x] else [x]) @ escapeSpec xs"

text \<open>
  A pure alignment-separator row, in the words of the specification: a line between two
  pipes whose cells, the pieces between the pipes, are composed only of \<open>-\<close>, \<open>:\<close> and
  whitespace.
\<close>

definition alignChar :: "char \<Rightarrow> bool" where
  "alignChar ch = (ch = CHR ''-'' \<or> ch = CHR '':'' \<or> isSpace ch)"

definition pureAlignRow :: "string \<Rightarrow> bool" where
  "pureAlignRow line =
     (2 \<le> length line \<and> hd line = CHR ''|'' \<and> last line = CHR ''|''
      \<and> list_all (list_all alignChar) (split (CHR ''|'') (slice1 line)))"

text \<open>The preferred result of the matcher.\<close>

definition first :: "regex \<Rightarrow> mstate \<Rightarrow> mstate option" where
  "first r st = (case rm r st of [] \<Rightarrow> None | x # xs \<Rightarrow> Some x)"

text \<open>A text without a line terminator.\<close>

definition singleLine :: "string \<Rightarrow> bool" where
  "singleLine s = (\<forall>ch\<in>set s. \<not> isLineTerminator ch)"

text \<open>
  The leading \<open>&gt;\<close> markers of a line. \<open>markers\<close> counts them ignoring the whitespace
  between them, as the specification words it; \<open>markers1\<close> counts them when each marker
  is followed by at most one whitespace character, \<open>markersPrefix\<close> is the text of these
  markers and \<open>afterMarkers1\<close> the rest of the line.
\<close>

definition skipSpace :: "string \<Rightarrow> string" where
  "skipSpace s = (case s of [] \<Rightarrow> [] | x # xs \<Rightarrow> if isSpace x then xs else s)"

lemma skipSpace_length: "length (skipSpace s) \<le> length s"
  by (auto simp: skipSpace_def split: list.splits)

function markers :: "string \<Rightarrow> nat" where
  "markers s = (if prefix ''&gt;'' s then Suc (markers (dropWhile isSpace (drop 4 s))) else 0)"
  by pat_completeness auto
termination
proof (relation "measure length", goal_cases)
  case 1
  show ?case by simp
next
  case (2 s)
  have "length (dropWhile isSpace (drop 4 s)) \<le> length (drop 4 s)" by (rule length_dropWhile_le)
  with 2 show ?case by (auto simp: prefix_def)
qed

function markers1 :: "string \<Rightarrow> nat" where
  "markers1 s = (if prefix ''&gt;'' s then Suc (markers1 (skipSpace (drop 4 s))) else 0)"
  by pat_completeness auto
termination
proof (relation "measure length", goal_cases)
  case 1
  show ?case by simp
next
  case (2 s)
  have "length (skipSpace (drop 4 s)) \<le> length (drop 4 s)" by (rule skipSpace_length)
  with 2 show ?case by (auto simp: prefix_def)
qed

function afterMarkers1 :: "string \<Rightarrow> string" where
  "afterMarkers1 s = (if prefix ''&gt;'' s then afterMarkers1 (skipSpace (drop 4 s)) else s)"
  by pat_completeness auto
termination
proof (relation "measure length", goal_cases)
  case 1
  show ?case by simp
next
  case (2 s)
  have "length (skipSpace (drop 4 s)) \<le> length (drop 4 s)" by (rule skipSpace_length)
  with 2 show ?case by (auto simp: prefix_def)
qed

declare markers.simps [simp del] markers1.simps [simp del] afterMarkers1.simps [simp del]

definition optSpace :: "string \<Rightarrow> string" where
  "optSpace s = (case s of [] \<Rightarrow> [] | x # xs \<Rightarrow> if isSpace x then [x] else [])"

function markersPrefix :: "string \<Rightarrow> string" where
  "markersPrefix s =
     (if prefix ''&gt;'' s
      then ''&gt;'' @ optSpace (drop 4 s) @ markersPrefix (skipSpace (drop 4 s)) else [])"
  by pat_completeness auto
termination
proof (relation "measure length", goal_cases)
  case 1
  show ?case by simp
next
  case (2 s)
  have "length (skipSpace (drop 4 s)) \<le> length (drop 4 s)" by (rule skipSpace_length)
  with 2 show ?case by (auto simp: prefix_def)
qed

declare markersPrefix.simps [simp del]

text \<open>One quote marker: \<^verbatim>\<open>&gt;\s?\<close>\<close>

definition QMARK :: regex where
  "QMARK = Seq (Lit ''&gt;'') (Opt (Cls [CSpace]))"

text \<open>
  The replacer of the last step of the list pass, the two constant parts of the text it
  looks for, and the opening tag it writes for the marker \<open>d\<close>.
\<close>

definition valueAttr :: "string \<Rightarrow> caps \<Rightarrow> string" where
  \<open>valueAttr m c = ''<li value="'' @ capS 1 c @ ''">''\<close>

definition valueTag :: "string \<Rightarrow> string" where
  \<open>valueTag d = ''<li value="'' @ d @ ''">''\<close>

definition SPAN_OPEN :: string where
  \<open>SPAN_OPEN = ''<li><span style="display:none" data-md-index="''\<close>

definition SPAN_CLOSE :: string where
  \<open>SPAN_CLOSE = ''"></span>''\<close>

text \<open>No character \<open><\<close> of the text is its last one or stands before an \<open>l\<close>.\<close>

fun clean :: "string \<Rightarrow> bool" where
  "clean [] = True"
| "clean (x # xs) = (\<not> (x = CHR ''<'' \<and> (xs = [] \<or> hd xs = CHR ''l'')) \<and> clean xs)"

text \<open>A regular expression that does not look at the text before the position.\<close>

fun ctxfree :: "regex \<Rightarrow> bool" where
  "ctxfree Bol = False"
| "ctxfree Bos = False"
| "ctxfree (NBehind w) = False"
| "ctxfree (Seq a b) = (ctxfree a \<and> ctxfree b)"
| "ctxfree (Alt a b) = (ctxfree a \<and> ctxfree b)"
| "ctxfree (Star a) = ctxfree a"
| "ctxfree (StarL a) = ctxfree a"
| "ctxfree (Opt a) = ctxfree a"
| "ctxfree (Grp n a) = ctxfree a"
| "ctxfree (Ahead a) = ctxfree a"
| "ctxfree (NAhead a) = ctxfree a"
| "ctxfree _ = True"

text \<open>The results of the matcher without the text before the position.\<close>

definition outcomes :: "mstate list \<Rightarrow> (string \<times> caps) list" where
  "outcomes l = map snd l"

text \<open>The text a global replace makes of the characters copied and the matches found.\<close>

definition render :: "(string \<Rightarrow> caps \<Rightarrow> string) \<Rightarrow> (char + string \<times> caps) list \<Rightarrow> string" where
  "render f segs = concat (map (\<lambda>seg. case seg of Inl x \<Rightarrow> [x] | Inr (m, c) \<Rightarrow> f m c) segs)"

text \<open>
  The depth of a line as a quote: the number of \<open>&gt;\<close> markers at its start, whatever
  whitespace stands before and between them.
\<close>

definition quoteDepth :: "string \<Rightarrow> nat" where
  "quoteDepth s = markers (trimStart s)"

text \<open>
  \<open>res\<close> starts like \<open>s\<close> and then stops or goes on with an opening angle bracket.
\<close>

definition cutAt :: "string \<Rightarrow> string \<Rightarrow> bool" where
  "cutAt s res = (\<exists>u rest. prefix u s \<and> res = u @ rest \<and> (rest = [] \<or> hd rest = CHR ''<''))"

text \<open>
  A replacement \<open>t\<close> of a match \<open>m\<close> that starts with an opening angle bracket, or with the
  first character of the match and then an opening angle bracket.
\<close>

definition tame :: "string \<Rightarrow> string \<Rightarrow> bool" where
  "tame m t = (prefix ''<'' t \<or> (\<exists>x. prefix [x] m \<and> prefix [x, CHR ''<''] t))"

text \<open>A pattern that matches nowhere inside a line: it starts with \<open>^\<close>.\<close>

definition anchored :: "regex \<Rightarrow> bool" where
  "anchored r = (\<forall>p s c. p \<noteq> [] \<longrightarrow> \<not> isLineTerminator (hd p) \<longrightarrow> rm r (p, s, c) = [])"

text \<open>A pass that keeps a text of one line on one line and makes it no deeper a quote.\<close>

definition calm :: "(string \<Rightarrow> string) \<Rightarrow> bool" where
  "calm pass = (\<forall>s. singleLine s \<longrightarrow> singleLine (pass s) \<and> quoteDepth (pass s) \<le> quoteDepth s)"

text \<open>On a text of one line, every match of the pattern goes to the end of the text.\<close>

definition toEnd :: "regex \<Rightarrow> bool" where
  "toEnd r = (\<forall>p s c p' s' c'. (p', s', c') \<in> set (rm r (p, s, c)) \<longrightarrow> singleLine s \<longrightarrow> s' = [])"

text \<open>Every match of the pattern starts with the text \<open>w\<close>.\<close>

definition leads :: "regex \<Rightarrow> string \<Rightarrow> bool" where
  "leads r w = (\<forall>p s c p' s' c'. (p', s', c') \<in> set (rm r (p, s, c))
                  \<longrightarrow> (\<exists>t. s = w @ t \<and> length s' \<le> length t))"

text \<open>The text that the blockquote pass of \<open>markdownToHtml\<close> receives.\<close>

definition beforeQuotes :: "string \<Rightarrow> string" where
  "beforeQuotes md =
     (let (md1, escapePlaceholders) = escapePass md;
          t = parseBackticks escapePlaceholders md1
      in links (images (inlinePatterns (nestedLists (checkboxLists (trimIndentation (out t)))))))"

text \<open>A text without leading or trailing whitespace.\<close>

definition trimmed :: "string \<Rightarrow> bool" where
  "trimmed s = (s = [] \<or> (\<not> isSpace (hd s) \<and> \<not> isSpace (last s)))"

text \<open>
  The quote-nesting depth that the converter meets in a text: the largest depth of the
  contents of the lines of the quote blocks that the blockquote pass finds, the contents
  being what \<open>renderQuote\<close> hands to \<open>markdownToHtml\<close>.
\<close>

definition maxList :: "nat list \<Rightarrow> nat" where
  "maxList xs = fold max xs 0"

definition contentDepth :: "string \<Rightarrow> nat" where
  "contentDepth md =
     maxList (map (\<lambda>seg. case seg of Inl x \<Rightarrow> 0
                       | Inr (raw, c) \<Rightarrow>
                           maxList (map (\<lambda>l. quoteDepth (content (quoteLine l)))
                                        (split NL (trimEnd raw))))
                  (gsegs BLOCKQUOTE_RE [] md 0))"

text \<open>
  The notions below follow the depth of every line of a text of several lines through
  the passes.
\<close>

text \<open>The line that a text starts with, and its depth as a quote.\<close>

definition lineOf :: "string \<Rightarrow> string" where
  "lineOf s = takeWhile (\<lambda>ch. \<not> isLineTerminator ch) s"

definition depthAt :: "string \<Rightarrow> nat" where
  "depthAt s = quoteDepth (lineOf s)"

text \<open>The text before a position (reversed) ends a line: \<open>^\<close> matches there under the m flag.\<close>

definition atStart :: "string \<Rightarrow> bool" where
  "atStart p = (p = [] \<or> isLineTerminator (hd p))"

text \<open>
  Every line of \<open>s\<close> is at most \<open>n\<close> deep; the line that \<open>s\<close> starts with counts when
  \<open>st\<close> is set.
\<close>

definition fronts :: "nat \<Rightarrow> bool \<Rightarrow> string \<Rightarrow> bool" where
  "fronts n st s =
     (\<forall>a b. s = a @ b \<longrightarrow> (if a = [] then st else isLineTerminator (last a)) \<longrightarrow> depthAt b \<le> n)"

text \<open>A character that ends a run of quote markers.\<close>

definition stop :: "char \<Rightarrow> bool" where
  "stop ch = (\<not> isSpace ch \<and> ch \<notin> set ''&gt;'')"

text \<open>
  A replacement text whose lines, from the second one on, are at most \<open>n\<close> deep whatever
  follows the text.
\<close>

definition safe :: "nat \<Rightarrow> string \<Rightarrow> bool" where
  "safe n t = (\<forall>a b z. t = a @ b \<longrightarrow> a \<noteq> [] \<longrightarrow> isLineTerminator (last a) \<longrightarrow> depthAt (b @ z) \<le> n)"

text \<open>
  The text of a global replace whose replacer numbers the matches: the \<open>j\<close>-th match is
  replaced by \<open>f j\<close>.
\<close>

fun renderK :: "(nat \<Rightarrow> string \<Rightarrow> caps \<Rightarrow> string) \<Rightarrow> (char + string \<times> caps) list \<Rightarrow> nat \<Rightarrow> string" where
  "renderK f [] j = []"
| "renderK f (Inl x # segs) j = x # renderK f segs j"
| "renderK f (Inr (m, c) # segs) j = f j m c @ renderK f segs (Suc j)"

text \<open>The first line of \<open>res\<close> starts like the first line of \<open>s\<close> and is cut by a tag.\<close>

definition cutL :: "string \<Rightarrow> string \<Rightarrow> bool" where
  "cutL s res = cutAt (lineOf s) (lineOf res)"

text \<open>
  What the replacement \<open>t\<close> of a match \<open>m\<close> found after \<open>p\<close> and followed by \<open>s'\<close> has to be:
  safe, and either tame, or empty when the match is made of whole lines.
\<close>

definition good :: "nat \<Rightarrow> string \<Rightarrow> string \<Rightarrow> string \<Rightarrow> string \<Rightarrow> bool" where
  "good n p m s' t =
     (safe n t \<and>
      (tame m t \<or>
       (t = [] \<and> atStart p \<and> (atStart (rev m @ p) \<or> s' = [] \<or> isLineTerminator (hd s')))))"

text \<open>Captures are pieces of the captures before or of the text still to read.\<close>

definition capsSub :: "string \<Rightarrow> caps \<Rightarrow> caps \<Rightarrow> bool" where
  "capsSub s c c' = (\<forall>kv\<in>set c'. kv \<in> set c \<or> sublist (snd kv) s)"

text \<open>A pass that makes no line of a text deeper than the deepest line of the text.\<close>

definition lined :: "(string \<Rightarrow> string) \<Rightarrow> bool" where
  "lined pass = (\<forall>n s. fronts n True s \<longrightarrow> fronts n True (pass s))"

text \<open>Every match of the pattern ends where a line ends.\<close>

definition lineEnd :: "regex \<Rightarrow> bool" where
  "lineEnd r = (\<forall>p s c p' s' c'. (p', s', c') \<in> set (rm r (p, s, c))
                  \<longrightarrow> atStart p' \<or> s' = [] \<or> isLineTerminator (hd s'))"

text \<open>The HTML of a list so far: on one line, and empty or starting with a tag.\<close>

definition listHtml :: "lstate \<Rightarrow> bool" where
  "listHtml st = (singleLine (fst st) \<and> (st = ([], []) \<or> (fst st \<noteq> [] \<and> hd (fst st) = CHR ''<'')))"

text \<open>
  The lines of a text, cut at every line terminator, and the quote-nesting depth of the
  text: the largest number of \<open>&gt;\<close> markers that one of its lines starts with.
\<close>

fun textLines :: "string \<Rightarrow> string list" where
  "textLines [] = [Nil]"
| "textLines (x # xs) =
     (if isLineTerminator x then [] # textLines xs
      else (case textLines xs of [] \<Rightarrow> [x] # [] | l # ls \<Rightarrow> (x # l) # ls))"

definition nesting :: "string \<Rightarrow> nat" where
  "nesting md = maxList (map quoteDepth (textLines md))"


text \<open>
  The characters of a quote marker, the space and \<open>x\<close>; a text of these characters that
  does not start with the space.
\<close>

definition quoteChars :: string where
  "quoteChars = ''&gt; x''"

definition plain :: "string \<Rightarrow> bool" where
  "plain s = (set s \<subseteq> set quoteChars \<and> s \<noteq> [] \<and> hd s \<noteq> CHR '' '')"

text \<open>
  A line of \<open>n\<close> quote markers, each followed by two spaces, before an \<open>x\<close>.
\<close>

fun deepQuote :: "nat \<Rightarrow> string" where
  "deepQuote 0 = ''x''"
| "deepQuote (Suc n) = ''&gt;  '' @ deepQuote n"

section \<open>The matcher\<close>

lemma eats_refl: "eats P p s p s"
  by (simp add: eats_def)

lemma eats_trans: "eats P p s p1 s1 \<Longrightarrow> eats P p1 s1 p2 s2 \<Longrightarrow> eats P p s p2 s2"
  by (auto simp: eats_def)

lemma eats_weaken: "eats P p s p' s' \<Longrightarrow> (\<And>ch. P ch \<Longrightarrow> Q ch) \<Longrightarrow> eats Q p s p' s'"
  by (auto simp: eats_def)

lemma rm_eats: "(p', s', c') \<in> set (rm r (p, s, c)) \<Longrightarrow> eats (may r) p s p' s'"
proof (induction r "(p, s, c)" arbitrary: p s c p' s' c' rule: rm.induct)
  case (1 w p s c)
  then show ?case by (auto simp: eats_def prefix_def split: if_splits)
next
  case (2 items p s c)
  then show ?case by (auto simp: eats_def split: list.splits if_splits)
next
  case (3 items p s c)
  then show ?case by (auto simp: eats_def split: list.splits if_splits)
next
  case (4 p s c)
  then show ?case by (auto simp: eats_def split: list.splits if_splits)
next
  case (5 a b p s c)
  from 5(3) obtain p1 s1 c1 where a: "(p1, s1, c1) \<in> set (rm a (p, s, c))"
    and b: "(p', s', c') \<in> set (rm b (p1, s1, c1))"
    by auto
  have "eats (may (Seq a b)) p s p1 s1"
    by (rule eats_weaken [OF 5(1) [OF a]]) simp
  moreover have "eats (may (Seq a b)) p1 s1 p' s'"
    by (rule eats_weaken [OF 5(2) [OF a b]]) simp
  ultimately show ?case by (rule eats_trans)
next
  case (6 a b p s c)
  from 6(3) have "(p', s', c') \<in> set (rm a (p, s, c)) \<or> (p', s', c') \<in> set (rm b (p, s, c))" by simp
  then show ?case
  proof
    assume "(p', s', c') \<in> set (rm a (p, s, c))"
    from eats_weaken [OF 6(1) [OF this]] show ?thesis by simp
  next
    assume "(p', s', c') \<in> set (rm b (p, s, c))"
    from eats_weaken [OF 6(2) [OF this]] show ?thesis by simp
  qed
next
  case (7 a p s c)
  show ?case
  proof (cases "(p', s', c') = (p, s, c)")
    case True
    then show ?thesis by (simp add: eats_refl)
  next
    case False
    with 7(3) obtain p1 s1 c1 where
      a: "(p1, s1, c1) \<in> set (rm a (p, s, clear (groups a) c))" and l: "length s1 < length s"
      and b: "(p', s', c') \<in> set (rm (Star a) (p1, s1, c1))"
      by (subst (asm) rm_Star) (auto split: if_splits)
    have "eats (may (Star a)) p s p1 s1"
      by (rule eats_weaken [OF 7(1) [OF a]]) simp
    moreover have "eats (may (Star a)) p1 s1 p' s'"
      by (rule 7(2) [OF a _ _ l b]) simp_all
    ultimately show ?thesis by (rule eats_trans)
  qed
next
  case (8 a p s c)
  show ?case
  proof (cases "(p', s', c') = (p, s, c)")
    case True
    then show ?thesis by (simp add: eats_refl)
  next
    case False
    with 8(3) obtain p1 s1 c1 where
      a: "(p1, s1, c1) \<in> set (rm a (p, s, clear (groups a) c))" and l: "length s1 < length s"
      and b: "(p', s', c') \<in> set (rm (StarL a) (p1, s1, c1))"
      by (subst (asm) rm_StarL) (auto split: if_splits)
    have "eats (may (StarL a)) p s p1 s1"
      by (rule eats_weaken [OF 8(1) [OF a]]) simp
    moreover have "eats (may (StarL a)) p1 s1 p' s'"
      by (rule 8(2) [OF a _ _ l b]) simp_all
    ultimately show ?thesis by (rule eats_trans)
  qed
next
  case (9 a p s c)
  from 9(2) have "(p', s', c') = (p, s, c) \<or> (p', s', c') \<in> set (rm a (p, s, clear (groups a) c))"
    by auto
  then show ?case
  proof
    assume "(p', s', c') = (p, s, c)"
    then show ?thesis by (simp add: eats_refl)
  next
    assume "(p', s', c') \<in> set (rm a (p, s, clear (groups a) c))"
    from eats_weaken [OF 9(1) [OF this]] show ?thesis by simp
  qed
next
  case (10 n a p s c)
  from 10(2) obtain c1 where "(p', s', c1) \<in> set (rm a (p, s, c))" by auto
  from eats_weaken [OF 10(1) [OF this]] show ?case by simp
next
  case (11 p s c)
  then show ?case by (auto simp: eats_refl split: if_splits)
next
  case (12 p s c)
  then show ?case by (auto simp: eats_refl split: if_splits)
next
  case (13 p s c)
  then show ?case by (auto simp: eats_refl split: if_splits)
next
  case (14 p s c)
  then show ?case by (auto simp: eats_refl split: if_splits)
next
  case (15 a p s c)
  from 15(2) have "p' = p \<and> s' = s" by (auto split: list.splits)
  then show ?case by (simp add: eats_refl)
next
  case (16 a p s c)
  from 16(2) have "p' = p \<and> s' = s" by (auto split: if_splits)
  then show ?case by (simp add: eats_refl)
next
  case (17 w p s c)
  then show ?case by (auto simp: eats_refl split: if_splits)
qed


lemma eats_length: "eats P p s p' s' \<Longrightarrow> length s' \<le> length s"
  by (auto simp: eats_def)

lemma eats_take: "eats P p s p' s' \<Longrightarrow> take (length s - length s') s @ s' = s \<and> (\<forall>ch\<in>set (take (length s - length s') s). P ch) \<and> p' = rev (take (length s - length s') s) @ p"
  by (auto simp: eats_def)

lemma capsFrom_refl: "capsFrom s c c"
  by (simp add: capsFrom_def)

lemma capsFrom_clear: "capsFrom s (clear gs c) c' \<Longrightarrow> capsFrom s c c'"
  by (auto simp: capsFrom_def clear_def)

lemma capsFrom_trans:
  "capsFrom s c c1 \<Longrightarrow> capsFrom s1 c1 c2 \<Longrightarrow> set s1 \<subseteq> set s \<Longrightarrow> capsFrom s c c2"
  unfolding capsFrom_def by blast

lemma eats_set: "eats P p s p' s' \<Longrightarrow> set s' \<subseteq> set s"
  by (auto simp: eats_def)

lemma rm_capsFrom: "(p', s', c') \<in> set (rm r (p, s, c)) \<Longrightarrow> capsFrom s c c'"
proof (induction r "(p, s, c)" arbitrary: p s c p' s' c' rule: rm.induct)
  case (5 a b p s c)
  from 5(3) obtain p1 s1 c1 where a: "(p1, s1, c1) \<in> set (rm a (p, s, c))"
    and b: "(p', s', c') \<in> set (rm b (p1, s1, c1))"
    by auto
  from capsFrom_trans [OF 5(1) [OF a] 5(2) [OF a b] eats_set [OF rm_eats [OF a]]]
  show ?case .
next
  case (6 a b p s c)
  then show ?case by auto
next
  case (7 a p s c)
  show ?case
  proof (cases "(p', s', c') = (p, s, c)")
    case True
    then show ?thesis by (simp add: capsFrom_refl)
  next
    case False
    with 7(3) obtain p1 s1 c1 where
      a: "(p1, s1, c1) \<in> set (rm a (p, s, clear (groups a) c))" and l: "length s1 < length s"
      and b: "(p', s', c') \<in> set (rm (Star a) (p1, s1, c1))"
      by (subst (asm) rm_Star) (auto split: if_splits)
    have "capsFrom s c c1" using 7(1) [OF a] by (rule capsFrom_clear)
    moreover have "capsFrom s1 c1 c'" by (rule 7(2) [OF a _ _ l b]) simp_all
    ultimately show ?thesis using eats_set [OF rm_eats [OF a]] by (rule capsFrom_trans)
  qed
next
  case (8 a p s c)
  show ?case
  proof (cases "(p', s', c') = (p, s, c)")
    case True
    then show ?thesis by (simp add: capsFrom_refl)
  next
    case False
    with 8(3) obtain p1 s1 c1 where
      a: "(p1, s1, c1) \<in> set (rm a (p, s, clear (groups a) c))" and l: "length s1 < length s"
      and b: "(p', s', c') \<in> set (rm (StarL a) (p1, s1, c1))"
      by (subst (asm) rm_StarL) (auto split: if_splits)
    have "capsFrom s c c1" using 8(1) [OF a] by (rule capsFrom_clear)
    moreover have "capsFrom s1 c1 c'" by (rule 8(2) [OF a _ _ l b]) simp_all
    ultimately show ?thesis using eats_set [OF rm_eats [OF a]] by (rule capsFrom_trans)
  qed
next
  case (9 a p s c)
  from 9(2) have "(p', s', c') = (p, s, c) \<or> (p', s', c') \<in> set (rm a (p, s, clear (groups a) c))"
    by auto
  then show ?case
  proof
    assume "(p', s', c') = (p, s, c)"
    then show ?thesis by (simp add: capsFrom_refl)
  next
    assume "(p', s', c') \<in> set (rm a (p, s, clear (groups a) c))"
    from capsFrom_clear [OF 9(1) [OF this]] show ?thesis .
  qed
next
  case (10 n a p s c)
  from 10(2) obtain c1 where a: "(p', s', c1) \<in> set (rm a (p, s, c))"
    and c': "c' = (n, take (length s - length s') s) # c1" by auto
  from 10(1) [OF a] c' show ?case
    by (auto simp: capsFrom_def dest: in_set_takeD)
next
  case (15 a p s c)
  from 15(2) obtain p1 s1 where "(p1, s1, c') \<in> set (rm a (p, s, c))"
    by (auto split: list.splits) (metis list.set_intros(1))
  from 15(1) [OF this] show ?case .
qed (auto simp: capsFrom_refl split: if_splits list.splits)

text \<open>A capture of a group that a regular expression does not contain stays as it is.\<close>

lemma map_of_clear: "n \<notin> set gs \<Longrightarrow> map_of (clear gs c) n = map_of c n"
  by (induction c) (auto simp: clear_def)

lemma rm_keeps: "(p', s', c') \<in> set (rm r (p, s, c)) \<Longrightarrow> n \<notin> set (groups r) \<Longrightarrow> map_of c' n = map_of c n"
proof (induction r "(p, s, c)" arbitrary: p s c p' s' c' rule: rm.induct)
  case (5 a b p s c)
  from 5(3) obtain p1 s1 c1 where a: "(p1, s1, c1) \<in> set (rm a (p, s, c))"
    and b: "(p', s', c') \<in> set (rm b (p1, s1, c1))"
    by auto
  from 5(1) [OF a] 5(2) [OF a b] 5(4) show ?case by simp
next
  case (6 a b p s c)
  then show ?case by auto
next
  case (7 a p s c)
  show ?case
  proof (cases "(p', s', c') = (p, s, c)")
    case True
    then show ?thesis by simp
  next
    case False
    with 7(3) obtain p1 s1 c1 where
      a: "(p1, s1, c1) \<in> set (rm a (p, s, clear (groups a) c))" and l: "length s1 < length s"
      and b: "(p', s', c') \<in> set (rm (Star a) (p1, s1, c1))"
      by (subst (asm) rm_Star) (auto split: if_splits)
    have "map_of c1 n = map_of c n" using 7(1) [OF a] 7(4) by (simp add: map_of_clear)
    moreover have "map_of c' n = map_of c1 n" by (rule 7(2) [OF a _ _ l b]) (use 7(4) in simp_all)
    ultimately show ?thesis by simp
  qed
next
  case (8 a p s c)
  show ?case
  proof (cases "(p', s', c') = (p, s, c)")
    case True
    then show ?thesis by simp
  next
    case False
    with 8(3) obtain p1 s1 c1 where
      a: "(p1, s1, c1) \<in> set (rm a (p, s, clear (groups a) c))" and l: "length s1 < length s"
      and b: "(p', s', c') \<in> set (rm (StarL a) (p1, s1, c1))"
      by (subst (asm) rm_StarL) (auto split: if_splits)
    have "map_of c1 n = map_of c n" using 8(1) [OF a] 8(4) by (simp add: map_of_clear)
    moreover have "map_of c' n = map_of c1 n" by (rule 8(2) [OF a _ _ l b]) (use 8(4) in simp_all)
    ultimately show ?thesis by simp
  qed
next
  case (9 a p s c)
  from 9(2) have "(p', s', c') = (p, s, c) \<or> (p', s', c') \<in> set (rm a (p, s, clear (groups a) c))"
    by auto
  then show ?case
  proof
    assume "(p', s', c') = (p, s, c)"
    then show ?thesis by simp
  next
    assume "(p', s', c') \<in> set (rm a (p, s, clear (groups a) c))"
    from 9(1) [OF this] 9(3) show ?thesis by (simp add: map_of_clear)
  qed
next
  case (10 m a p s c)
  from 10(2) obtain c1 where a: "(p', s', c1) \<in> set (rm a (p, s, c))"
    and c': "c' = (m, take (length s - length s') s) # c1" by auto
  from 10(1) [OF a] c' 10(3) show ?case by auto
next
  case (15 a p s c)
  from 15(2) obtain p1 s1 where "(p1, s1, c') \<in> set (rm a (p, s, c))"
    by (auto split: list.splits) (metis list.set_intros(1))
  from 15(1) [OF this] 15(3) show ?case by simp
qed (auto split: if_splits list.splits)


lemma clear_Nil [simp]: "clear [] c = c"
  by (simp add: clear_def)

lemma single_Cls: "single (Cls cs) (inClass cs)"
  by (simp add: single_def)

lemma single_NCls: "single (NCls cs) (\<lambda>x. \<not> inClass cs x)"
  by (auto simp: single_def split: list.splits)

lemma single_Dot: "single Dot (\<lambda>x. \<not> isLineTerminator x)"
  by (auto simp: single_def split: list.splits)

lemma single_Lit: "single (Lit [d]) (\<lambda>x. x = d)"
  by (auto simp: single_def split: list.splits)

lemma rm_Star_single:
  assumes "single r P"
  shows "rm (Star r) (p, s, c) =
           (case s of [] \<Rightarrow> [(p, s, c)]
            | x # xs \<Rightarrow> if P x then rm (Star r) (x # p, xs, c) @ [(p, s, c)] else [(p, s, c)])"
  using assms by (subst rm_Star) (simp add: single_def split: list.splits)

lemma rm_StarL_single:
  assumes "single r P"
  shows "rm (StarL r) (p, s, c) =
           (case s of [] \<Rightarrow> [(p, s, c)]
            | x # xs \<Rightarrow> if P x then (p, s, c) # rm (StarL r) (x # p, xs, c) else [(p, s, c)])"
  using assms by (subst rm_StarL) (simp add: single_def split: list.splits)

lemma concat_map_concat_map:
  "concat (map f (concat (map g xs))) = concat (map (\<lambda>x. concat (map f (g x))) xs)"
  by (induction xs) auto

lemma rm_Seq_assoc: "rm (Seq (Seq a b) y) st = rm (Seq a (Seq b y)) st"
proof (cases st)
  case (fields p s c)
  have "rm (Seq b y) = (\<lambda>x. concat (map (rm y) (rm b x)))"
    by (rule ext, case_tac x) simp
  then show ?thesis using fields by (simp add: concat_map_concat_map)
qed

text \<open>A greedy run followed by something that refuses the characters of the run.\<close>

lemma seq_star_delim:
  assumes "single r P" and "\<And>p x xs c. P x \<Longrightarrow> rm y (p, x # xs, c) = []"
  shows "rm (Seq (Star r) y) (p, s, c) = rm y (rev (takeWhile P s) @ p, dropWhile P s, c)"
proof (induction s arbitrary: p)
  case Nil
  show ?case by (simp add: rm_Star_single [OF assms(1)])
next
  case (Cons x xs)
  show ?case
  proof (cases "P x")
    case True
    have "rm (Seq (Star r) y) (p, x # xs, c)
            = rm (Seq (Star r) y) (x # p, xs, c) @ rm y (p, x # xs, c)"
      using True by (simp add: rm_Star_single [OF assms(1), of p "x # xs"])
    with True Cons.IH [of "x # p"] assms(2) [OF True] show ?thesis by simp
  next
    case False
    then show ?thesis by (simp add: rm_Star_single [OF assms(1), of p "x # xs"])
  qed
qed

lemma seq_plus_delim:
  assumes "single r P" and "\<And>p x xs c. P x \<Longrightarrow> rm y (p, x # xs, c) = []"
  shows "rm (Seq (Plus r) y) (p, s, c) =
           (case s of [] \<Rightarrow> []
            | x # xs \<Rightarrow> if P x then rm y (rev (takeWhile P s) @ p, dropWhile P s, c) else [])"
proof -
  have "rm (Seq (Plus r) y) (p, s, c) = rm (Seq r (Seq (Star r) y)) (p, s, c)"
    unfolding Plus_def by (rule rm_Seq_assoc)
  also have "\<dots> = (case s of [] \<Rightarrow> []
            | x # xs \<Rightarrow> if P x then rm y (rev (takeWhile P s) @ p, dropWhile P s, c) else [])"
    using assms(1) seq_star_delim [OF assms]
    by (simp add: single_def split: list.splits)
  finally show ?thesis .
qed


lemma rm_Star_invariant:
  assumes step: "\<And>p s c st2. Q (p, s, c) \<Longrightarrow> st2 \<in> set (rm a (p, s, clear (groups a) c)) \<Longrightarrow> Q st2"
  shows "Q st \<Longrightarrow> st' \<in> set (rm (Star a) st) \<Longrightarrow> Q st'"
proof (induction "length (fst (snd st))" arbitrary: st rule: less_induct)
  case less
  obtain p s c where st: "st = (p, s, c)" by (cases st)
  show ?case
  proof (cases "st' = st")
    case True
    with less.prems show ?thesis by simp
  next
    case False
    from less.prems(2) [unfolded st rm_Star [of a p s c]] False st obtain p1 s1 c1 where
      a: "(p1, s1, c1) \<in> set (rm a (p, s, clear (groups a) c))" and l: "length s1 < length s"
      and b: "st' \<in> set (rm (Star a) (p1, s1, c1))"
      by (auto split: if_splits)
    have "Q (p1, s1, c1)" using step [OF _ a] less.prems(1) st by simp
    from less.hyps [of "(p1, s1, c1)", OF _ this b] l st show ?thesis by simp
  qed
qed

lemma search_anchored:
  assumes "\<And>p s c. p \<noteq> [] \<Longrightarrow> rm r (p, s, c) = []"
  shows "p \<noteq> [] \<Longrightarrow> search r p s = None"
  by (induction s arbitrary: p) (simp_all add: exec_def assms)

lemma test_anchored:
  assumes "\<And>p s c. p \<noteq> [] \<Longrightarrow> rm r (p, s, c) = []"
  shows "test r s = (rm r ([], s, []) \<noteq> [])"
  using search_anchored [OF assms]
  by (cases s) (auto simp: test_def exec_def split: list.splits option.splits)

lemma list_all_split:
  "\<forall>ch\<in>set s. ch = d \<or> P ch \<Longrightarrow> list_all (list_all P) (split d s)"
  by (induction s) (auto split: list.splits)

lemma in_rm_Seq:
  "st' \<in> set (rm (Seq a b) st) = (\<exists>st1\<in>set (rm a st). st' \<in> set (rm b st1))"
  by (cases st) auto

section \<open>Quote lines\<close>

lemma first_Seq:
  "first a st = Some x \<Longrightarrow> first b x = Some y \<Longrightarrow> first (Seq a b) st = Some y"
  by (cases st) (auto simp: first_def split: list.splits)

lemma first_Seq_None: "first a st = None \<Longrightarrow> first (Seq a b) st = None"
  by (cases st) (auto simp: first_def split: list.splits)

lemma first_Grp:
  "first a (p, s, c) = Some (p', s', c')
   \<Longrightarrow> first (Grp n a) (p, s, c) = Some (p', s', (n, take (length s - length s') s) # c')"
  by (auto simp: first_def split: list.splits)

lemma rm_Star_nonempty: "rm (Star a) st \<noteq> []"
  by (cases st) (simp add: rm_Star)

lemma first_Star_step:
  "first a (p, s, clear (groups a) c) = Some (p1, s1, c1) \<Longrightarrow> length s1 < length s
   \<Longrightarrow> first (Star a) (p, s, c) = first (Star a) (p1, s1, c1)"
  using rm_Star_nonempty [of a "(p1, s1, c1)"]
  by (subst (1) first_def, subst rm_Star) (auto simp: first_def split: list.splits)

lemma first_Star_stop:
  "first a (p, s, clear (groups a) c) = None \<Longrightarrow> first (Star a) (p, s, c) = Some (p, s, c)"
  by (subst first_def, subst rm_Star) (auto simp: first_def split: list.splits)

lemma exec_first:
  "exec r p s = (case first r (p, s, []) of None \<Rightarrow> None
                 | Some (p', s', c) \<Rightarrow> Some (take (length s - length s') s, c))"
  by (auto simp: exec_def first_def split: list.splits)

lemma first_Star_single:
  assumes "single r P"
  shows "first (Star r) (p, s, c) = Some (rev (takeWhile P s) @ p, dropWhile P s, c)"
proof (induction s arbitrary: p)
  case Nil
  show ?case using assms by (simp add: first_def rm_Star_single [OF assms])
next
  case (Cons x xs)
  show ?case
  proof (cases "P x")
    case True
    have "first r (p, x # xs, clear (groups r) c) = Some (x # p, xs, c)"
      using assms True by (simp add: single_def first_def)
    from first_Star_step [OF this] Cons.IH [of "x # p"] True show ?thesis by simp
  next
    case False
    have "first r (p, x # xs, clear (groups r) c) = None"
      using assms False by (simp add: single_def first_def)
    from first_Star_stop [OF this] False show ?thesis by simp
  qed
qed


lemma first_eats:
  "first r (p, s, c) = Some (p', s', c') \<Longrightarrow> eats (may r) p s p' s'"
  by (rule rm_eats [of p' s' c' r p s c]) (auto simp: first_def split: list.splits)

lemma inClass_space [simp]: "inClass [CSpace] x = isSpace x"
  by (simp add: inClass_def)

lemma inClass_space_fun: "inClass [CSpace] = isSpace"
  by (rule ext) simp

lemma opt_skip: "optSpace s @ skipSpace s = s"
  by (auto simp: optSpace_def skipSpace_def split: list.splits)

lemma prefix_gt: "prefix ''&gt;'' s \<Longrightarrow> s = ''&gt;'' @ drop 4 s"
  by (auto simp: prefix_def)

lemma markers_split: "markersPrefix s @ afterMarkers1 s = s"
proof (induction s rule: markersPrefix.induct)
  case (1 s)
  show ?case
  proof (cases "prefix ''&gt;'' s")
    case True
    have "markersPrefix s @ afterMarkers1 s
            = ''&gt;'' @ optSpace (drop 4 s) @ (markersPrefix (skipSpace (drop 4 s))
                @ afterMarkers1 (skipSpace (drop 4 s)))"
      using True by (subst markersPrefix.simps, subst afterMarkers1.simps) simp
    also have "\<dots> = ''&gt;'' @ drop 4 s"
      using 1 [OF True] opt_skip [of "drop 4 s"] by simp
    finally show ?thesis using prefix_gt [OF True] by simp
  next
    case False
    then show ?thesis by (subst markersPrefix.simps, subst afterMarkers1.simps) simp
  qed
qed

lemma first_QMARK:
  "first QMARK (p, s, c) =
     (if prefix ''&gt;'' s
      then Some (rev (optSpace (drop 4 s)) @ rev ''&gt;'' @ p, skipSpace (drop 4 s), c)
      else None)"
proof (cases "prefix ''&gt;'' s")
  case True
  then obtain r where s: "s = ''&gt;'' @ r" by (auto simp: prefix_def)
  show ?thesis unfolding s
    by (cases r) (auto simp: QMARK_def first_def optSpace_def skipSpace_def)
next
  case False
  then show ?thesis by (simp add: QMARK_def first_def)
qed

lemma groups_QMARK [simp]: "groups QMARK = []"
  by (simp add: QMARK_def)

lemma first_Star_QMARK:
  "first (Star QMARK) (p, s, c) = Some (rev (markersPrefix s) @ p, afterMarkers1 s, c)"
proof (induction s arbitrary: p rule: markersPrefix.induct)
  case (1 s)
  show ?case
  proof (cases "prefix ''&gt;'' s")
    case True
    have l: "length (skipSpace (drop 4 s)) < length s"
      using skipSpace_length [of "drop 4 s"] True by (auto simp: prefix_def)
    have "first (Star QMARK) (p, s, c)
            = first (Star QMARK) (rev (optSpace (drop 4 s)) @ rev ''&gt;'' @ p, skipSpace (drop 4 s), c)"
      by (rule first_Star_step [OF _ l]) (simp add: first_QMARK True)
    also have "\<dots> = Some (rev (markersPrefix (skipSpace (drop 4 s))) @ rev (optSpace (drop 4 s)) @ rev ''&gt;'' @ p,
                         afterMarkers1 (skipSpace (drop 4 s)), c)"
      by (rule 1 [OF True])
    finally show ?thesis using True
      by (subst markersPrefix.simps, subst afterMarkers1.simps) simp
  next
    case False
    have "first (Star QMARK) (p, s, c) = Some (p, s, c)"
      by (rule first_Star_stop) (simp add: first_QMARK False)
    with False show ?thesis by (subst markersPrefix.simps, subst afterMarkers1.simps) simp
  qed
qed

lemma first_Plus_QMARK:
  "first (Plus QMARK) (p, s, c) =
     (if prefix ''&gt;'' s then Some (rev (markersPrefix s) @ p, afterMarkers1 s, c) else None)"
proof (cases "prefix ''&gt;'' s")
  case True
  have "first (Seq QMARK (Star QMARK)) (p, s, c)
          = Some (rev (markersPrefix (skipSpace (drop 4 s))) @ rev (optSpace (drop 4 s)) @ rev ''&gt;'' @ p,
                  afterMarkers1 (skipSpace (drop 4 s)), c)"
    by (rule first_Seq [OF _ first_Star_QMARK]) (simp add: first_QMARK True)
  with True show ?thesis
    by (subst markersPrefix.simps, subst afterMarkers1.simps) (simp add: Plus_def)
next
  case False
  then show ?thesis by (simp add: Plus_def first_Seq_None first_QMARK)
qed

lemma singleLine_takeWhile: "singleLine s \<Longrightarrow> takeWhile (\<lambda>x. \<not> isLineTerminator x) s = s"
  by (simp add: singleLine_def)

lemma singleLine_dropWhile: "singleLine s \<Longrightarrow> dropWhile (\<lambda>x. \<not> isLineTerminator x) s = []"
  by (simp add: singleLine_def)

lemma singleLine_after: "singleLine s \<Longrightarrow> singleLine (afterMarkers1 s)"
  using markers_split [of s] unfolding singleLine_def
  by (metis Un_iff set_append)

lemma length_markersPrefix: "length s - length (afterMarkers1 s) = length (markersPrefix s)"
  using arg_cong [OF markers_split [of s], of length] by simp

lemma take_markersPrefix: "take (length (markersPrefix s)) s = markersPrefix s"
  using markers_split [of s] by (metis append_eq_conv_conj)

lemma exec_quote_line:
  assumes "singleLine line"
  shows "exec QUOTE_LINE_RE [] line =
           (if prefix ''&gt;'' line
            then Some (line, [(2, afterMarkers1 line), (1, markersPrefix line)]) else None)"
proof (cases "prefix ''&gt;'' line")
  case True
  have re: "QUOTE_LINE_RE = Seq Bos (Seq (Grp 1 (Plus QMARK)) (Seq (Grp 2 (Star Dot)) Eos))"
    by (simp add: QUOTE_LINE_RE_def QMARK_def)
  have 1: "first Bos ([], line, []) = Some ([], line, [])" by (simp add: first_def)
  have 2: "first (Grp 1 (Plus QMARK)) ([], line, [])
             = Some (rev (markersPrefix line), afterMarkers1 line, [(1, markersPrefix line)])"
    using first_Grp [of "Plus QMARK" "[]" line "[]" "rev (markersPrefix line)" "afterMarkers1 line" "[]" 1]
    by (simp add: first_Plus_QMARK True length_markersPrefix take_markersPrefix)
  have sl: "singleLine (afterMarkers1 line)" by (rule singleLine_after [OF assms])
  have 3: "first (Grp 2 (Star Dot)) (rev (markersPrefix line), afterMarkers1 line, [(1, markersPrefix line)])
             = Some (rev (afterMarkers1 line) @ rev (markersPrefix line), [],
                     [(2, afterMarkers1 line), (1, markersPrefix line)])"
    using first_Grp [OF first_Star_single [OF single_Dot],
            where p = "rev (markersPrefix line)" and s = "afterMarkers1 line"
              and c = "[(1, markersPrefix line)]" and n = 2]
    by (simp add: singleLine_takeWhile [OF sl] singleLine_dropWhile [OF sl])
  have 4: "first Eos (rev (afterMarkers1 line) @ rev (markersPrefix line), [],
                     [(2, afterMarkers1 line), (1, markersPrefix line)])
             = Some (rev (afterMarkers1 line) @ rev (markersPrefix line), [],
                     [(2, afterMarkers1 line), (1, markersPrefix line)])"
    by (simp add: first_def)
  from first_Seq [OF 1 first_Seq [OF 2 first_Seq [OF 3 4]]] True show ?thesis
    by (simp add: exec_first re)
next
  case False
  then show ?thesis
    by (simp add: exec_first QUOTE_LINE_RE_def first_Seq_None first_def Plus_def)
qed


lemma match_anchored:
  assumes "\<And>p s c. p \<noteq> [] \<Longrightarrow> rm r (p, s, c) = []"
  shows "match r s = exec r [] s"
  using search_anchored [OF assms]
  by (cases s) (auto simp: match_def split: option.splits)

lemma match_quote_line:
  assumes "singleLine line"
  shows "match QUOTE_LINE_RE line =
           (if prefix ''&gt;'' line
            then Some (line, [(2, afterMarkers1 line), (1, markersPrefix line)]) else None)"
proof -
  have "\<And>p s c. p \<noteq> [] \<Longrightarrow> rm QUOTE_LINE_RE (p, s, c) = []"
    by (simp add: QUOTE_LINE_RE_def)
  from match_anchored [OF this] exec_quote_line [OF assms] show ?thesis by simp
qed

text \<open>Skipping the rest of a match.\<close>

lemma gsegs_skip: "gsegs r p (a @ s) (length a) = gsegs r (rev a @ p) s 0"
  by (induction a arbitrary: p) auto

lemma take_minus_dropWhile: "take (length s - length (dropWhile P s)) s = takeWhile P s"
proof -
  have "length s = length (takeWhile P s) + length (dropWhile P s)"
    by (metis length_append takeWhile_dropWhile_id)
  then have "length s - length (dropWhile P s) = length (takeWhile P s)" by simp
  then show ?thesis by (metis append_eq_conv_conj takeWhile_dropWhile_id)
qed

lemma exec_spaces:
  "exec SPACES_RE p s =
     (case s of [] \<Rightarrow> None
      | x # xs \<Rightarrow> if isSpace x then Some (takeWhile isSpace s, []) else None)"
proof (cases s)
  case Nil
  then show ?thesis by (simp add: exec_first SPACES_RE_def Plus_def first_def)
next
  case (Cons x xs)
  show ?thesis
  proof (cases "isSpace x")
    case True
    have "first (Cls [CSpace]) (p, x # xs, []) = Some (x # p, xs, [])"
      using True by (simp add: first_def)
    from first_Seq [OF this first_Star_single [OF single_Cls [of "[CSpace]"]]]
    have "first SPACES_RE (p, s, []) = Some (rev (takeWhile isSpace xs) @ x # p, dropWhile isSpace xs, [])"
      using Cons by (simp add: SPACES_RE_def Plus_def inClass_space_fun)
    then have "exec SPACES_RE p s = Some (take (length s - length (dropWhile isSpace s)) s, [])"
      using True Cons by (simp add: exec_first)
    then show ?thesis using True Cons by (simp only: take_minus_dropWhile) simp
  next
    case False
    with Cons show ?thesis by (simp add: exec_first SPACES_RE_def Plus_def first_Seq_None first_def)
  qed
qed

lemma gsegs_spaces:
  "k \<le> length s \<Longrightarrow> \<forall>ch\<in>set (take k s). isSpace ch \<Longrightarrow>
   concat (map (\<lambda>seg. case seg of Inl x \<Rightarrow> [x] | Inr (m, c) \<Rightarrow> []) (gsegs SPACES_RE p s k))
     = filter (\<lambda>ch. \<not> isSpace ch) s"
proof (induction s arbitrary: p k)
  case Nil
  then show ?case by (simp add: exec_spaces)
next
  case (Cons x xs)
  show ?case
  proof (cases k)
    case 0
    show ?thesis
    proof (cases "isSpace x")
      case True
      have "length (takeWhile isSpace xs) \<le> length xs" by (rule length_takeWhile_le)
      moreover have "\<forall>ch\<in>set (take (length (takeWhile isSpace xs)) xs). isSpace ch"
        by (metis set_takeWhileD takeWhile_eq_take)
      ultimately show ?thesis using 0 True Cons.IH [of "length (takeWhile isSpace xs)" "x # p"]
        by (simp add: exec_spaces)
    next
      case False
      with 0 Cons.IH [of 0 "x # p"] show ?thesis by (simp add: exec_spaces)
    qed
  next
    case (Suc k')
    with Cons.prems Cons.IH [of k' "x # p"] show ?thesis by simp
  qed
qed

lemma gsub_spaces: "gsub SPACES_RE (\<lambda>m c. []) s = filter (\<lambda>ch. \<not> isSpace ch) s"
  using gsegs_spaces [of 0 s "[]"] by (simp add: gsub_def)

lemma exec_gt: "exec GT_RE p s = (if prefix ''&gt;'' s then Some (''&gt;'', []) else None)"
  by (auto simp: exec_def GT_RE_def prefix_def)

lemma gsegs_context:
  assumes "\<And>p s. exec r p s = exec r [] s"
  shows "gsegs r p s k = gsegs r [] s k"
proof -
  have "gsegs r p s k = gsegs r q s k" for p q
  proof (induction s arbitrary: p q k)
    case Nil
    show ?case using assms [of p "[]"] assms [of q "[]"] by simp
  next
    case (Cons x xs)
    show ?case
      using assms [of p "x # xs"] assms [of q "x # xs"] Cons [where p = "x # p" and q = "x # q"]
      by (auto split: option.splits)
  qed
  then show ?thesis .
qed

lemma countMatches_gt_Cons:
  "countMatches GT_RE (''&gt;'' @ s) = Suc (countMatches GT_RE s)"
proof -
  have "gsegs GT_RE p s 0 = gsegs GT_RE [] s 0" for p
    by (rule gsegs_context) (simp add: exec_gt)
  from this [of "'';tg&''"] show ?thesis
    using gsegs_skip [of GT_RE "''&''" "''gt;''" s]
    by (simp add: countMatches_def exec_gt)
qed

lemma not_space_gt: "\<not> isSpace (CHR ''&'')" "\<not> isSpace (CHR ''g'')" "\<not> isSpace (CHR ''t'')" "\<not> isSpace (CHR '';'')"
  by (simp_all add: isSpace_def)

lemma filter_optSpace: "filter (\<lambda>ch. \<not> isSpace ch) (optSpace s) = []"
  by (auto simp: optSpace_def split: list.splits)

lemma level_markers1:
  "countMatches GT_RE (filter (\<lambda>ch. \<not> isSpace ch) (markersPrefix s)) = markers1 s"
proof (induction s rule: markersPrefix.induct)
  case (1 s)
  show ?case
  proof (cases "prefix ''&gt;'' s")
    case True
    have "filter (\<lambda>ch. \<not> isSpace ch) (markersPrefix s)
            = ''&gt;'' @ filter (\<lambda>ch. \<not> isSpace ch) (markersPrefix (skipSpace (drop 4 s)))"
      using True by (subst markersPrefix.simps) (simp add: not_space_gt filter_optSpace)
    with 1 [OF True] True show ?thesis
      by (subst markers1.simps) (simp only: countMatches_gt_Cons if_True)
  next
    case False
    then show ?thesis
      by (subst markersPrefix.simps, subst markers1.simps) (simp add: countMatches_def exec_gt)
  qed
qed

lemma quoteLine_spec:
  assumes "singleLine line"
  shows "quoteLine line =
           (if prefix ''&gt;'' line
            then \<lparr>level = markers1 line, content = trimStart (afterMarkers1 line), isQuote = True\<rparr>
            else \<lparr>level = 0, content = line, isQuote = False\<rparr>)"
  by (simp add: quoteLine_def match_quote_line [OF assms] capS_def gsub_spaces level_markers1)

section \<open>The depth of the self-calls\<close>

text \<open>
  A conversion that returns within some depth returns the same text within any larger
  depth, so the result of a conversion does not depend on the bound.
\<close>

lemma renderQuote_mono:
  assumes "below f g"
  shows "renderQuote f items lv = Some r \<longrightarrow> renderQuote g items lv = Some r"
    and "quoteItems f items lv = Some rs \<longrightarrow> quoteItems g items lv = Some rs"
  using assms
proof (induction f items lv and f items lv arbitrary: r and rs
       rule: renderQuote_quoteItems.induct)
  case (1 md2html items lv)
  then show ?case by (auto simp: renderQuote.simps split: option.splits)
next
  case (2 md2html lv)
  then show ?case by simp
next
  case (3 md2html item rest lv)
  show ?case
  proof
    assume a: "quoteItems md2html (item # rest) lv = Some rs"
    show "quoteItems g (item # rest) lv = Some rs"
    proof (cases "isQuote item")
      case False
      with a 3(1)[OF False] 3(6) show ?thesis
        by (auto simp: below_def split: option.splits)
    next
      case q: True
      show ?thesis
      proof (cases "level item = lv")
        case True
        with a q 3(2) 3(6) show ?thesis
          by (auto simp: below_def split: option.splits if_splits)
      next
        case nl: False
        show ?thesis
        proof (cases "level item > lv")
          case True
          with a q nl 3(3) 3(4) 3(6) show ?thesis
            by (auto split: option.splits)
        next
          case False
          with a q nl 3(5) 3(6) show ?thesis by auto
        qed
      qed
    qed
  qed
qed

lemma those_mono:
  "those (map f xs) = Some ys \<Longrightarrow> (\<And>x y. x \<in> set xs \<Longrightarrow> f x = Some y \<Longrightarrow> g x = Some y)
   \<Longrightarrow> those (map g xs) = Some ys"
  by (induction xs arbitrary: ys) (auto split: option.splits)

lemma blockquotes_mono:
  assumes "below f g" "blockquotes f md = Some r"
  shows "blockquotes g md = Some r"
proof -
  have q: "\<And>raw r. quoteBlock f raw = Some r \<Longrightarrow> quoteBlock g raw = Some r"
    using renderQuote_mono(1)[OF assms(1)] by (simp add: quoteBlock_def)
  from assms(2) obtain ys where
    ys: "those (map (\<lambda>seg. case seg of Inl x \<Rightarrow> Some [x] | Inr (raw, c) \<Rightarrow> quoteBlock f raw)
                   (gsegs BLOCKQUOTE_RE [] md 0)) = Some ys" and r: "r = concat ys"
    by (auto simp: blockquotes_def)
  have "those (map (\<lambda>seg. case seg of Inl x \<Rightarrow> Some [x] | Inr (raw, c) \<Rightarrow> quoteBlock g raw)
                   (gsegs BLOCKQUOTE_RE [] md 0)) = Some ys"
    by (rule those_mono [OF ys]) (auto split: sum.splits dest: q)
  with r show ?thesis by (simp add: blockquotes_def)
qed

lemma markdownToHtml_Suc:
  "markdownToHtml n md = Some r \<Longrightarrow> markdownToHtml (Suc n) md = Some r"
proof (induction n arbitrary: md r)
  case 0
  then show ?case by (simp add: markdownToHtml.simps)
next
  case (Suc n)
  have b: "below (markdownToHtml n) (markdownToHtml (Suc n))"
    unfolding below_def using Suc.IH by blast
  from Suc.prems show ?case
    by (auto simp: Let_def markdownToHtml.simps split: prod.splits option.splits
             dest: blockquotes_mono [OF b])
qed

lemma markdownToHtml_mono:
  "markdownToHtml n md = Some r \<Longrightarrow> n \<le> m \<Longrightarrow> markdownToHtml m md = Some r"
  by (induction m) (auto simp: le_Suc_eq dest: markdownToHtml_Suc)

lemma markdownToHtml_unique:
  "markdownToHtml n md = Some a \<Longrightarrow> markdownToHtml m md = Some b \<Longrightarrow> a = b"
  using markdownToHtml_mono [of n md a "max n m"] markdownToHtml_mono [of m md b "max n m"]
  by simp

section \<open>Scenarios\<close>

lemma bold_em_output:
  "markdownToHtml (Suc depth) ''**bold** _em_'' = Some ''<strong>bold</strong> <em>em</em>''"
  by code_simp

lemma bold_em_tag_like: "isHtmlTagLike ''<strong>bold</strong> <em>em</em>''"
  by code_simp

text \<open>
  C2, as amended: for the input \<open>**bold** _em_\<close> the converter returns exactly
  \<open><strong>bold</strong> <em>em</em>\<close>. The formatted line starts with an HTML tag, so
  the paragraph pass takes it for block-level markup and emits it as it is, without a
  paragraph element around it.
\<close>

theorem C2_bold_em_unwrapped:
  "markdownToHtml (Suc depth) ''**bold** _em_'' = Some ''<strong>bold</strong> <em>em</em>''
   \<and> isHtmlTagLike ''<strong>bold</strong> <em>em</em>''"
  using bold_em_output bold_em_tag_like by simp

text \<open>
  C2 as the specification states it (the result is
  \<open><p><strong>bold</strong> <em>em</em></p>\<close>) fails: no depth gives that text.
\<close>

theorem C2_counterexample:
  "\<not> (\<exists>depth. markdownToHtml depth ''**bold** _em_'' = Some ''<p><strong>bold</strong> <em>em</em></p>'')"
proof
  assume "\<exists>depth. markdownToHtml depth ''**bold** _em_'' = Some ''<p><strong>bold</strong> <em>em</em></p>''"
  then obtain depth where
    "markdownToHtml depth ''**bold** _em_'' = Some ''<p><strong>bold</strong> <em>em</em></p>''" ..
  from markdownToHtml_unique [OF this bold_em_output [of 0]] show False by simp
qed

text \<open>
  C3: a backslash escape inside a backtick span. The escape pass runs before the
  tokenizer, so the span holds the placeholder of the escape; the fenced path puts the
  escaped characters back before it escapes the code, the inline path does not, and the
  span renders the HTML-escaped placeholder instead of its content \<open>\*\<close>.
\<close>

theorem C3_escape_in_code_span:
  "markdownToHtml (Suc depth) [BT, BSL, CHR ''*'', BT]
     = Some ''<p><code>&lt;!--escaped_0--&gt;</code></p>''"
  by code_simp

section \<open>The list stack\<close>

lemma increasing_butlast: "increasing stack \<Longrightarrow> increasing (butlast stack)"
  by (cases stack rule: rev_cases) (auto simp: increasing_def sorted_wrt_append)

lemma closeDeeper_split:
  "\<exists>popped. stack = snd (closeDeeper ind (html, stack)) @ popped \<and> (\<forall>f\<in>set popped. ind < indent f)"
proof (induction ind "(html, stack)" arbitrary: html stack rule: closeDeeper.induct)
  case (1 ind html stack)
  show ?case
  proof (cases "stack \<noteq> [] \<and> indent (last stack) > ind")
    case True
    from 1 [OF True] obtain popped where
      p: "butlast stack = snd (closeDeeper ind (html @ ''</li></'' @ tagOf (type (last stack)) @ ''>'', butlast stack)) @ popped"
         "\<forall>f\<in>set popped. ind < indent f" by blast
    have "snd (closeDeeper ind (html, stack))
            = snd (closeDeeper ind (html @ ''</li></'' @ tagOf (type (last stack)) @ ''>'', butlast stack))"
      using True by (subst closeDeeper.simps) simp
    with p(1) have "butlast stack @ [last stack] = snd (closeDeeper ind (html, stack)) @ (popped @ [last stack])"
      by simp
    with True have "stack = snd (closeDeeper ind (html, stack)) @ (popped @ [last stack])"
      by simp
    moreover have "\<forall>f\<in>set (popped @ [last stack]). ind < indent f" using p True by simp
    ultimately show ?thesis by blast
  next
    case False
    then show ?thesis by (subst closeDeeper.simps) auto
  qed
qed

lemma closeDeeper_top:
  "snd (closeDeeper ind (html, stack)) = [] \<or> indent (last (snd (closeDeeper ind (html, stack)))) \<le> ind"
proof (induction ind "(html, stack)" arbitrary: html stack rule: closeDeeper.induct)
  case (1 ind html stack)
  show ?case
  proof (cases "stack \<noteq> [] \<and> indent (last stack) > ind")
    case True
    from 1 [OF True] show ?thesis using True by (subst (1 2) closeDeeper.simps) simp
  next
    case False
    then show ?thesis by (subst (1 2) closeDeeper.simps) auto
  qed
qed

lemma closeDeeper_increasing:
  "increasing stack \<Longrightarrow> increasing (snd (closeDeeper ind (html, stack)))"
proof (induction ind "(html, stack)" arbitrary: html stack rule: closeDeeper.induct)
  case (1 ind html stack)
  show ?case
  proof (cases "stack \<noteq> [] \<and> indent (last stack) > ind")
    case True
    from 1(1) [OF True increasing_butlast [OF 1(2)]] show ?thesis using True
      by (subst closeDeeper.simps) simp
  next
    case False
    with 1(2) show ?thesis by (subst closeDeeper.simps) auto
  qed
qed

lemma closeDeeper_keep:
  "stack = [] \<or> indent (last stack) \<le> ind \<Longrightarrow> closeDeeper ind (html, stack) = (html, stack)"
  by (subst closeDeeper.simps) auto

lemma increasing_snoc:
  "increasing stack \<Longrightarrow> stack = [] \<or> indent (last stack) < ind
   \<Longrightarrow> increasing (stack @ [\<lparr>indent = ind, type = ty\<rparr>])"
  by (cases stack rule: rev_cases) (auto simp: increasing_def sorted_wrt_append)

lemma listLine_increasing:
  assumes "increasing stack"
  shows "increasing (snd (listLine (html, stack) line))"
proof (cases "matchItem line")
  case None
  with assms show ?thesis by (simp add: listLine_def)
next
  case (Some mc)
  obtain m c where mc: "mc = (m, c)" by (cases mc)
  obtain html1 stack1 where cd: "closeDeeper (length (capS 1 c)) (html, stack) = (html1, stack1)"
    by (cases "closeDeeper (length (capS 1 c)) (html, stack)")
  have inc1: "increasing stack1"
    using closeDeeper_increasing [OF assms, of "length (capS 1 c)" html] cd by simp
  have top1: "stack1 = [] \<or> indent (last stack1) \<le> length (capS 1 c)"
    using closeDeeper_top [of "length (capS 1 c)" html stack] cd by simp
  show ?thesis
    using Some mc cd inc1 increasing_snoc [OF inc1]
    by (auto simp: listLine_def Let_def)
qed

lemma foldl_listLine_increasing:
  "increasing (snd st) \<Longrightarrow> increasing (snd (foldl listLine st ls))"
proof (induction ls arbitrary: st)
  case Nil
  then show ?case by simp
next
  case (Cons l ls)
  obtain html stack where st: "st = (html, stack)" by (cases st)
  from Cons.prems st have "increasing (snd (listLine st l))"
    using listLine_increasing by simp
  from Cons.IH [OF this] show ?case by simp
qed

lemma listLine_sibling:
  assumes "matchItem line = Some (m, c)" "stack \<noteq> []" "indent (last stack) = length (capS 1 c)"
  shows "listLine (html, stack) line = (html @ ''</li><li>'' @ itemHtml c, stack)"
  using assms closeDeeper_keep [of stack "length (capS 1 c)" html]
  by (simp add: listLine_def Let_def itemHtml_def)

lemma listLine_stack:
  assumes "matchItem line = Some (m, c)"
  shows "snd (listLine (html, stack) line) = snd (closeDeeper (length (capS 1 c)) (html, stack))
       \<or> (\<exists>ty. snd (listLine (html, stack) line)
             = snd (closeDeeper (length (capS 1 c)) (html, stack)) @ [\<lparr>indent = length (capS 1 c), type = ty\<rparr>])"
  using assms
  by (cases "closeDeeper (length (capS 1 c)) (html, stack)") (auto simp: listLine_def Let_def)

text \<open>
  C6: every state the nested-list pass reaches has a strictly increasing stack, and the
  pops of \<open>closeDeeper\<close> and the step of a line keep it so; the frames a line pops are
  frames of an indent strictly greater than the line's, and what the line leaves is the
  rest of the stack, with at most one new frame on it; a line whose indent equals the
  indent of the top frame leaves the stack as it is and adds a sibling item.
\<close>

theorem C6_list_stack:
  "increasing (snd (foldl listLine ([], []) ls))
   \<and> (increasing stack \<longrightarrow>
        increasing (snd (closeDeeper ind (html, stack)))
        \<and> increasing (snd (listLine (html, stack) line)))
   \<and> (matchItem line = Some (m, c) \<longrightarrow>
        (\<exists>popped. stack = snd (closeDeeper (length (capS 1 c)) (html, stack)) @ popped
                   \<and> (\<forall>f\<in>set popped. length (capS 1 c) < indent f))
        \<and> (snd (listLine (html, stack) line) = snd (closeDeeper (length (capS 1 c)) (html, stack))
           \<or> (\<exists>ty. snd (listLine (html, stack) line)
                  = snd (closeDeeper (length (capS 1 c)) (html, stack))
                    @ [\<lparr>indent = length (capS 1 c), type = ty\<rparr>])))
   \<and> (matchItem line = Some (m, c) \<and> stack \<noteq> [] \<and> indent (last stack) = length (capS 1 c) \<longrightarrow>
        listLine (html, stack) line = (html @ ''</li><li>'' @ itemHtml c, stack))"
proof -
  have "increasing (snd (([], []) :: lstate))" by (simp add: increasing_def)
  from foldl_listLine_increasing [OF this]
  have a: "increasing (snd (foldl listLine ([], []) ls))" .
  show ?thesis
    using a closeDeeper_increasing [of stack ind html] listLine_increasing [of stack html line]
          closeDeeper_split [of stack "length (capS 1 c)" html]
          listLine_stack [of line m c html stack] listLine_sibling [of line m c stack html]
    by blast
qed

text \<open>
  An instance: under a bullet at indent 0 and a numbered item at indent 2, the line
  \<open>  - c\<close> of indent 2 becomes a sibling of the numbered item and pops nothing.
\<close>

theorem C6_list_stack_witness:
  "increasing [\<lparr>indent = 0, type = Ul\<rparr>, \<lparr>indent = 2, type = Ol\<rparr>]
   \<and> matchItem ''  - c'' = Some (''  - c'', [(3, ''c''), (2, ''-''), (1, ''  '')])
   \<and> indent (last [\<lparr>indent = 0, type = Ul\<rparr>, \<lparr>indent = 2, type = Ol\<rparr>]) = length (capS 1 [(3, ''c''), (2, ''-''), (1, ''  '')])
   \<and> listLine (''<ul><li>a<ol><li>b'', [\<lparr>indent = 0, type = Ul\<rparr>, \<lparr>indent = 2, type = Ol\<rparr>]) ''  - c''
       = (''<ul><li>a<ol><li>b</li><li>c'', [\<lparr>indent = 0, type = Ul\<rparr>, \<lparr>indent = 2, type = Ol\<rparr>])
   \<and> increasing (snd (listLine (''<ul><li>a<ol><li>b'', [\<lparr>indent = 0, type = Ul\<rparr>, \<lparr>indent = 2, type = Ol\<rparr>]) ''  - c''))"
proof -
  have i: "increasing [\<lparr>indent = 0, type = Ul\<rparr>, \<lparr>indent = 2, type = Ol\<rparr>]"
    by (simp add: increasing_def)
  have m: "matchItem ''  - c'' = Some (''  - c'', [(3, ''c''), (2, ''-''), (1, ''  '')])"
    by code_simp
  have t: "indent (last [\<lparr>indent = 0, type = Ul\<rparr>, \<lparr>indent = 2, type = Ol\<rparr>]) = length (capS 1 [(3, ''c''), (2, ''-''), (1, ''  '')])"
    by (simp add: capS_def)
  have h: "itemHtml [(3, ''c''), (2, ''-''), (1, ''  '')] = ''c''"
    by code_simp
  show ?thesis
    using C6_list_stack [of "[]" "[\<lparr>indent = 0, type = Ul\<rparr>, \<lparr>indent = 2, type = Ol\<rparr>]" 0
            "''<ul><li>a<ol><li>b''" "''  - c''" "''  - c''" "[(3, ''c''), (2, ''-''), (1, ''  '')]"]
          i m t h
    by simp
qed


section \<open>escapeHtml and entities\<close>

lemma inClass_letters [simp]:
  "inClass [CRange (CHR ''a'') (CHR ''z''), CRange (CHR ''A'') (CHR ''Z'')] x = isLetter x"
  by (simp add: inClass_def isLetter_def)

lemma isLetter_not_special:
  "isLetter x \<Longrightarrow> x \<noteq> CHR ''&'' \<and> x \<noteq> CHR ''<'' \<and> x \<noteq> CHR ''>'' \<and> x \<noteq> DQ \<and> x \<noteq> SQ \<and> x \<noteq> CHR '';''"
  by (auto simp: isLetter_def inRange_def DQ_def SQ_def)

lemma not_letter [simp]: "\<not> isLetter (CHR ''&'')" "\<not> isLetter (CHR '';'')"
  by (simp_all add: isLetter_def inRange_def)

lemma entity_ahead_rm:
  "(rm (Seq (Plus (Cls [CRange (CHR ''a'') (CHR ''z''), CRange (CHR ''A'') (CHR ''Z'')])) (Lit '';''))
       (p, s, c) = []) = (\<not> entityAhead s)"
proof -
  have d: "\<And>p x xs c. isLetter x \<Longrightarrow> rm (Lit '';'') (p, x # xs, c) = []"
    using isLetter_not_special by auto
  show ?thesis
    by (subst seq_plus_delim [where P = isLetter])
       (use single_Cls [of "[CRange (CHR ''a'') (CHR ''z''), CRange (CHR ''A'') (CHR ''Z'')]"] d
        in \<open>auto simp: entityAhead_def single_def split: list.splits\<close>)
qed

lemma rm_not_entity:
  "rm (NAhead (Seq (Plus (Cls [CRange (CHR ''a'') (CHR ''z''), CRange (CHR ''A'') (CHR ''Z'')])) (Lit '';'')))
      (p, s, c) = (if entityAhead s then [] else [(p, s, c)])"
  by (simp only: rm.simps(16) entity_ahead_rm) simp

lemma exec_escape_html:
  "exec ESCAPE_HTML_RE p s =
     (case s of [] \<Rightarrow> None
      | x # xs \<Rightarrow>
          if x = CHR ''&'' \<and> \<not> entityAhead xs \<or> x = CHR ''<'' \<or> x = CHR ''>'' \<or> x = DQ \<or> x = SQ
          then Some ([x], []) else None)"
proof (cases s)
  case Nil
  then show ?thesis by (simp add: exec_def ESCAPE_HTML_RE_def)
next
  case (Cons x xs)
  have q: "inClass [CChar (CHR ''<''), CChar (CHR ''>''), CChar DQ, CChar SQ] x
             = (x = CHR ''<'' \<or> x = CHR ''>'' \<or> x = DQ \<or> x = SQ)"
    by (simp add: inClass_def)
  have amp: "\<not> (CHR ''&'' = CHR ''<'' \<or> CHR ''&'' = CHR ''>'' \<or> CHR ''&'' = DQ \<or> CHR ''&'' = SQ)"
    by (simp add: DQ_def SQ_def)
  show ?thesis
    using Cons amp
    by (auto simp: exec_def ESCAPE_HTML_RE_def q rm_not_entity simp del: rm.simps(16))
qed

lemma gsegs_escape_html:
  "concat (map (\<lambda>seg. case seg of Inl x \<Rightarrow> [x] | Inr (m, c) \<Rightarrow> entity m) (gsegs ESCAPE_HTML_RE p s 0))
     = escapeSpec s"
  by (induction s arbitrary: p) (auto simp: exec_escape_html)

lemma escapeHtml_spec: "escapeHtml s = escapeSpec s"
  by (simp add: escapeHtml_def gsub_def gsegs_escape_html)

lemma entityAhead_amp: "entityAhead (u @ CHR ''&'' # r) = entityAhead u"
proof (cases "\<forall>x\<in>set u. isLetter x")
  case True
  then have d: "dropWhile isLetter u = []" by (simp add: dropWhile_eq_Nil_conv)
  have e: "dropWhile isLetter (u @ CHR ''&'' # r) = CHR ''&'' # r"
    using True by (simp add: dropWhile_append2)
  show ?thesis unfolding entityAhead_def d e by simp
next
  case False
  then obtain x where x: "x \<in> set u" "\<not> isLetter x" by blast
  then have "dropWhile isLetter u \<noteq> []" by (auto simp: dropWhile_eq_Nil_conv)
  then obtain y ys where "dropWhile isLetter u = y # ys" by (cases "dropWhile isLetter u") auto
  with x show ?thesis by (simp add: entityAhead_def takeWhile_append1 dropWhile_append1)
qed

lemma escapeSpec_amp: "escapeSpec (u @ CHR ''&'' # r) = escapeSpec u @ escapeSpec (CHR ''&'' # r)"
  by (induction u) (simp_all add: entityAhead_amp)

lemma escapeSpec_letters:
  "\<forall>x\<in>set w. isLetter x \<Longrightarrow> escapeSpec (w @ r) = w @ escapeSpec r"
  using isLetter_not_special by (induction w) auto

lemma entityAhead_letters:
  "w \<noteq> [] \<Longrightarrow> \<forall>x\<in>set w. isLetter x \<Longrightarrow> entityAhead (w @ CHR '';'' # v)"
  by (cases w) (auto simp: entityAhead_def takeWhile_append2 dropWhile_append2)

lemma escapeSpec_entity:
  assumes "w \<noteq> []" "\<forall>x\<in>set w. isLetter x"
  shows "escapeSpec (u @ ''&'' @ w @ '';'' @ v) = escapeSpec u @ ''&'' @ w @ '';'' @ escapeSpec v"
proof -
  have "escapeSpec (CHR ''&'' # w @ CHR '';'' # v) = CHR ''&'' # escapeSpec (w @ CHR '';'' # v)"
    using entityAhead_letters [OF assms] by (simp add: DQ_def SQ_def)
  also have "escapeSpec (w @ CHR '';'' # v) = w @ escapeSpec (CHR '';'' # v)"
    by (rule escapeSpec_letters [OF assms(2)])
  also have "escapeSpec (CHR '';'' # v) = CHR '';'' # escapeSpec v"
    by (simp add: DQ_def SQ_def)
  finally show ?thesis using escapeSpec_amp [of u "w @ CHR '';'' # v"] by simp
qed


lemma inline_entity_output:
  "markdownToHtml (Suc depth) ([BT] @ ''&amp;'' @ [BT]) = Some ''<p><code>&amp;</code></p>''"
  by code_simp

lemma fenced_entity_output:
  \<open>markdownToHtml (Suc depth) (''```'' @ [NL] @ ''&amp;'' @ [NL] @ ''```'')
     = Some (''<pre class="language-plaintext"><code>&amp;</code></pre>'')\<close>
  by code_simp

text \<open>
  C10: \<open>escapeHtml\<close> leaves an ampersand as it is when one or more ASCII letters and a
  semicolon follow it, whatever stands before and after, and escapes the rest of the
  text as it would on its own; so the code content \<open>&amp;\<close> of a backtick span or of a
  fence appears in the output as \<open>&amp;\<close>, not as \<open>&amp;amp;\<close>.
\<close>

theorem C10_entity_not_escaped:
  \<open>(w \<noteq> [] \<and> (\<forall>x\<in>set w. isLetter x) \<longrightarrow>
      escapeHtml (u @ ''&'' @ w @ '';'' @ v) = escapeHtml u @ ''&'' @ w @ '';'' @ escapeHtml v)
   \<and> markdownToHtml (Suc depth) ([BT] @ ''&amp;'' @ [BT]) = Some ''<p><code>&amp;</code></p>''
   \<and> markdownToHtml (Suc depth) (''```'' @ [NL] @ ''&amp;'' @ [NL] @ ''```'')
       = Some (''<pre class="language-plaintext"><code>&amp;</code></pre>'')\<close>
  using escapeSpec_entity [of w u v] inline_entity_output fenced_entity_output
  by (simp add: escapeHtml_spec)

text \<open>The instance \<open>&amp;\<close>: letters \<open>amp\<close>, nothing before and nothing after.\<close>

theorem C10_entity_not_escaped_witness:
  "''amp'' \<noteq> [] \<and> list_all isLetter ''amp'' \<and> escapeHtml ''&amp;'' = ''&amp;''"
proof -
  have l: "\<forall>x\<in>set ''amp''. isLetter x" by (simp add: isLetter_def inRange_def)
  have e: "escapeHtml [] = []" by (simp add: escapeHtml_spec)
  from C10_entity_not_escaped [of "''amp''" "[]" "[]" 0] l e show ?thesis by simp
qed

section \<open>Tables\<close>

lemma align_row_sound:
  assumes "test ALIGN_ROW_RE line"
  shows "pureAlignRow line"
proof -
  define X where "X = [CSpace, CChar (CHR ''-''), CChar (CHR '':'')]"
  define CELL where "CELL = Seq (Plus (Cls X)) (Lit ''|'')"
  have re: "ALIGN_ROW_RE = Seq Bos (Seq (Lit ''|'') (Seq (Seq CELL (Star CELL)) Eos))"
    by (simp add: ALIGN_ROW_RE_def CELL_def X_def Plus_def)
  have anchored: "\<And>p s c. p \<noteq> [] \<Longrightarrow> rm ALIGN_ROW_RE (p, s, c) = []"
    by (simp add: re)
  from assms have "rm ALIGN_ROW_RE ([], line, []) \<noteq> []"
    by (simp add: test_anchored [OF anchored])
  then obtain st' where "st' \<in> set (rm ALIGN_ROW_RE ([], line, []))"
    by (cases "rm ALIGN_ROW_RE ([], line, [])") auto
  then obtain s1 p2 c2 st1 where line: "line = CHR ''|'' # s1"
    and c1: "st1 \<in> set (rm CELL (''|'', s1, []))"
    and c2: "(p2, [], c2) \<in> set (rm (Star CELL) st1)"
    unfolding re in_rm_Seq by (auto split: if_splits simp: prefix_def)
  have bar: "\<And>p s c st2. st2 \<in> set (rm CELL (p, s, c)) \<Longrightarrow> \<exists>q. fst st2 = CHR ''|'' # q"
    unfolding CELL_def in_rm_Seq by (auto split: if_splits)
  from bar [OF c1] have q1: "\<exists>q. fst st1 = CHR ''|'' # q" .
  have "\<exists>q. fst (p2, [] :: string, c2) = CHR ''|'' # q"
    by (rule rm_Star_invariant [where Q = "\<lambda>st. \<exists>q. fst st = CHR ''|'' # q", OF _ q1 c2])
       (rule bar)
  then obtain q where p2: "p2 = CHR ''|'' # q" by auto
  obtain p1 s1' c1' where st1: "st1 = (p1, s1', c1')" by (cases st1)
  have e1: "eats (may CELL) ''|'' s1 p1 s1'" using rm_eats c1 st1 by simp
  have e2: "eats (may (Star CELL)) p1 s1' p2 []" using rm_eats c2 st1 by simp
  have mayc: "\<And>ch. may CELL ch \<Longrightarrow> ch = CHR ''|'' \<or> alignChar ch"
    by (auto simp: CELL_def X_def Plus_def inClass_def alignChar_def)
  have "eats (\<lambda>ch. ch = CHR ''|'' \<or> alignChar ch) ''|'' s1 p2 []"
    by (rule eats_trans [OF eats_weaken [OF e1] eats_weaken [OF e2]]) (use mayc in auto)
  then have m: "p2 = rev s1 @ ''|''" "\<forall>ch\<in>set s1. ch = CHR ''|'' \<or> alignChar ch"
    by (auto simp: eats_def)
  have ne: "s1 \<noteq> []" using c1 by (auto simp: CELL_def Plus_def)
  from m(1) p2 ne have lastm: "last s1 = CHR ''|''"
    by (cases s1 rule: rev_cases) auto
  have "set (slice1 line) \<subseteq> set s1"
    using line ne by (auto simp: slice1_def dest: in_set_butlastD)
  with m(2) have "\<forall>ch\<in>set (slice1 line). ch = CHR ''|'' \<or> alignChar ch" by blast
  from list_all_split [OF this] line ne lastm show ?thesis
    by (cases s1) (simp_all add: pureAlignRow_def)
qed

lemma tableBlock_cases:
  "tableBlock block = block
   \<or> (2 \<le> length (split NL (trim block)) \<and> test ALIGN_ROW_RE (split NL (trim block) ! 1)
      \<and> (\<exists>thead tbody. tableBlock block
            = ''<table><thead>'' @ thead @ ''</thead><tbody>'' @ tbody @ ''</tbody></table>''))"
  by (auto simp: tableBlock_def Let_def)


text \<open>
  C8: the table pass returns a block as it is, or the block has at least two lines, its
  second line is a pure alignment-separator row and the block becomes a table; so every
  block that has fewer than two lines or whose second line is no such row is returned
  unmodified.
\<close>

theorem C8_table_needs_alignment_row:
  "(tableBlock block = block
    \<or> (2 \<le> length (split NL (trim block)) \<and> pureAlignRow (split NL (trim block) ! 1)
       \<and> (\<exists>thead tbody. tableBlock block
             = ''<table><thead>'' @ thead @ ''</thead><tbody>'' @ tbody @ ''</tbody></table>'')))
   \<and> (\<not> (2 \<le> length (split NL (trim block)) \<and> pureAlignRow (split NL (trim block) ! 1))
        \<longrightarrow> tableBlock block = block)"
  using tableBlock_cases [of block] align_row_sound [of "split NL (trim block) ! 1"]
  by blast

text \<open>An instance: two pipe-delimited lines, the second one a row of data.\<close>

theorem C8_table_needs_alignment_row_witness:
  "\<not> (2 \<le> length (split NL (trim (''|a|b|'' @ [NL] @ ''|1|2|'')))
       \<and> pureAlignRow (split NL (trim (''|a|b|'' @ [NL] @ ''|1|2|'')) ! 1))
   \<and> tableBlock (''|a|b|'' @ [NL] @ ''|1|2|'') = ''|a|b|'' @ [NL] @ ''|1|2|''"
proof -
  have n: "\<not> (2 \<le> length (split NL (trim (''|a|b|'' @ [NL] @ ''|1|2|'')))
               \<and> pureAlignRow (split NL (trim (''|a|b|'' @ [NL] @ ''|1|2|'')) ! 1))"
    by code_simp
  from C8_table_needs_alignment_row [of "''|a|b|'' @ [NL] @ ''|1|2|''"] n show ?thesis by blast
qed


section \<open>Quote levels\<close>

lemma nested_quote_output:
  "markdownToHtml (Suc (Suc depth)) (''&gt; x'' @ [NL] @ ''&gt;&gt;&gt; a'')
     = Some (''<blockquote><p>x</p>'' @ [NL] @ ''<blockquote><p>a</p></blockquote></blockquote>'')"
  by code_simp

text \<open>
  C5, as amended: \<open>&gt;&gt;&gt; a\<close> under \<open>&gt; x\<close> gives a blockquote that holds one
  nested blockquote; and a line without line terminator that starts with \<open>&gt;\<close> is a
  quote line whose level is the number of its leading markers, each followed by at most
  one whitespace character, and whose content is the rest of the line without its
  leading whitespace. Any other such line is no quote line.
\<close>

theorem C5_quote_level:
  "markdownToHtml (Suc (Suc depth)) (''&gt; x'' @ [NL] @ ''&gt;&gt;&gt; a'')
     = Some (''<blockquote><p>x</p>'' @ [NL] @ ''<blockquote><p>a</p></blockquote></blockquote>'')
   \<and> (singleLine line \<longrightarrow>
        quoteLine line =
          (if prefix ''&gt;'' line
           then \<lparr>level = markers1 line, content = trimStart (afterMarkers1 line), isQuote = True\<rparr>
           else \<lparr>level = 0, content = line, isQuote = False\<rparr>))"
  using nested_quote_output quoteLine_spec [of line] by simp

text \<open>An instance: three markers, the first one followed by a space.\<close>

theorem C5_quote_level_witness:
  "singleLine ''&gt; &gt;&gt; a''
   \<and> quoteLine ''&gt; &gt;&gt; a'' = \<lparr>level = 3, content = ''a'', isQuote = True\<rparr>"
proof -
  have s: "singleLine ''&gt; &gt;&gt; a''" by code_simp
  have m: "markers1 ''&gt; &gt;&gt; a'' = 3" by code_simp
  have a: "trimStart (afterMarkers1 ''&gt; &gt;&gt; a'') = ''a''" by code_simp
  from C5_quote_level [of 0 "''&gt; &gt;&gt; a''"] s m a show ?thesis by simp
qed

text \<open>
  C5 as the specification states it (the level is the count of the leading markers
  ignoring the whitespace between them) fails on a marker followed by two spaces: the
  line \<open>&gt;  &gt; a\<close> has two leading markers and level 1.
\<close>

theorem C5_counterexample:
  "isQuote (quoteLine ''&gt;  &gt; a'')
   \<and> level (quoteLine ''&gt;  &gt; a'') = 1
   \<and> markers ''&gt;  &gt; a'' = 2
   \<and> content (quoteLine ''&gt;  &gt; a'') = ''&gt; a''"
  by code_simp

section \<open>Ordered list items\<close>

lemma closeDeeper_appends: "\<exists>h. fst (closeDeeper ind (html, stack)) = html @ h"
proof (induction ind "(html, stack)" arbitrary: html stack rule: closeDeeper.induct)
  case (1 ind html stack)
  show ?case
  proof (cases "stack \<noteq> [] \<and> indent (last stack) > ind")
    case True
    from 1 [OF True] obtain h where
      "fst (closeDeeper ind (html @ ''</li></'' @ tagOf (type (last stack)) @ ''>'', butlast stack))
         = (html @ ''</li></'' @ tagOf (type (last stack)) @ ''>'') @ h" by blast
    then show ?thesis using True by (subst closeDeeper.simps) simp
  next
    case False
    then show ?thesis by (subst closeDeeper.simps) auto
  qed
qed

lemma closeAll_appends: "\<exists>h. fst (closeAll (html, stack)) = html @ h"
proof (induction "(html, stack)" arbitrary: html stack rule: closeAll.induct)
  case (1 html stack)
  show ?case
  proof (cases "stack \<noteq> []")
    case True
    from 1 [OF True] obtain h where
      "fst (closeAll (html @ ''</li></'' @ tagOf (type (last stack)) @ ''>'', butlast stack))
         = (html @ ''</li></'' @ tagOf (type (last stack)) @ ''>'') @ h" by blast
    then show ?thesis using True by (subst closeAll.simps) simp
  next
    case False
    then show ?thesis by (subst closeAll.simps) auto
  qed
qed

lemma listLine_appends: "\<exists>h. fst (listLine (html, stack) line) = html @ h"
proof (cases "matchItem line")
  case None
  then show ?thesis by (simp add: listLine_def)
next
  case (Some mc)
  obtain m c where mc: "mc = (m, c)" by (cases mc)
  obtain html1 stack1 where cd: "closeDeeper (length (capS 1 c)) (html, stack) = (html1, stack1)"
    by (cases "closeDeeper (length (capS 1 c)) (html, stack)")
  from closeDeeper_appends [of "length (capS 1 c)" html stack] cd obtain h where "html1 = html @ h"
    by auto
  then show ?thesis using Some mc cd by (auto simp: listLine_def Let_def)
qed

lemma foldl_listLine_appends: "\<exists>h. fst (foldl listLine (html, stack) ls) = html @ h"
proof (induction ls arbitrary: html stack)
  case Nil
  then show ?case by simp
next
  case (Cons l ls)
  obtain html1 stack1 where s: "listLine (html, stack) l = (html1, stack1)"
    by (cases "listLine (html, stack) l")
  from listLine_appends [of html stack l] s obtain h where h: "html1 = html @ h" by auto
  from Cons [of html1 stack1] obtain h' where "fst (foldl listLine (html1, stack1) ls) = html1 @ h'"
    by blast
  with s h show ?case by simp
qed

lemma listLine_ordered:
  assumes "matchItem line = Some (m, c)" "test ALL_DIGITS_RE (capS 2 c)"
  shows "\<exists>h. fst (listLine (html, stack) line)
              = html @ h @ ''<li>'' @ indexSpan (capS 2 c) @ capS 3 c"
proof -
  obtain html1 stack1 where cd: "closeDeeper (length (capS 1 c)) (html, stack) = (html1, stack1)"
    by (cases "closeDeeper (length (capS 1 c)) (html, stack)")
  from closeDeeper_appends [of "length (capS 1 c)" html stack] cd obtain h where h: "html1 = html @ h"
    by auto
  show ?thesis
  proof (cases "stack1 = [] \<or> indent (last stack1) < length (capS 1 c)")
    case True
    have "fst (listLine (html, stack) line)
            = html @ (h @ ''<ol>'') @ ''<li>'' @ indexSpan (capS 2 c) @ capS 3 c"
      using assms cd h True by (auto simp: listLine_def Let_def)
    then show ?thesis by blast
  next
    case False
    have "fst (listLine (html, stack) line)
            = html @ (h @ ''</li>'') @ ''<li>'' @ indexSpan (capS 2 c) @ capS 3 c"
      using assms cd h False by (auto simp: listLine_def Let_def)
    then show ?thesis by blast
  qed
qed

lemma list_html_item:
  assumes "line \<in> set ls" "matchItem line = Some (m, c)" "test ALL_DIGITS_RE (capS 2 c)"
  shows "\<exists>a b. fst (closeAll (foldl listLine (html, stack) ls))
                = a @ ''<li>'' @ indexSpan (capS 2 c) @ capS 3 c @ b"
proof -
  from assms(1) obtain l1 l2 where ls: "ls = l1 @ line # l2" by (auto simp: in_set_conv_decomp)
  obtain html1 stack1 where s1: "foldl listLine (html, stack) l1 = (html1, stack1)"
    by (cases "foldl listLine (html, stack) l1")
  obtain html2 stack2 where s2: "listLine (html1, stack1) line = (html2, stack2)"
    by (cases "listLine (html1, stack1) line")
  obtain html3 stack3 where s3: "foldl listLine (html2, stack2) l2 = (html3, stack3)"
    by (cases "foldl listLine (html2, stack2) l2")
  from listLine_ordered [OF assms(2,3), of html1 stack1] s2 obtain h where
    h2: "html2 = html1 @ h @ ''<li>'' @ indexSpan (capS 2 c) @ capS 3 c" by auto
  from foldl_listLine_appends [of html2 stack2 l2] s3 obtain h3 where h3: "html3 = html2 @ h3" by auto
  from closeAll_appends [of html3 stack3] obtain h4 where h4: "fst (closeAll (html3, stack3)) = html3 @ h4"
    by blast
  have "fst (closeAll (foldl listLine (html, stack) ls))
          = (html1 @ h) @ ''<li>'' @ indexSpan (capS 2 c) @ capS 3 c @ (h3 @ h4)"
    using ls s1 s2 s3 h2 h3 h4 by simp
  then show ?thesis by blast
qed

lemma outcomes_simps [simp]:
  "outcomes [] = []" "outcomes ((p, sc) # l) = sc # outcomes l" "outcomes (l @ l') = outcomes l @ outcomes l'"
  by (simp_all add: outcomes_def)

lemma outcomes_concat_cong:
  assumes "outcomes l = outcomes l'"
    and "\<And>p q s c. (p, s, c) \<in> set l \<Longrightarrow> outcomes (f (p, s, c)) = outcomes (g (q, s, c))"
  shows "outcomes (concat (map f l)) = outcomes (concat (map g l'))"
  using assms
proof (induction l arbitrary: l')
  case Nil
  then show ?case by (simp add: outcomes_def)
next
  case (Cons x l)
  from Cons.prems(1) obtain y m where l': "l' = y # m" and xy: "snd x = snd y" and r: "outcomes l = outcomes m"
    by (cases l') (auto simp: outcomes_def)
  obtain p s c where x: "x = (p, s, c)" by (cases x)
  obtain q where y: "y = (q, s, c)" using xy x by (cases y) auto
  have "outcomes (f x) = outcomes (g y)" unfolding x y by (rule Cons.prems(2)) (simp add: x)
  moreover have "outcomes (concat (map f l)) = outcomes (concat (map g m))"
    by (rule Cons.IH [OF r]) (rule Cons.prems(2), simp)
  ultimately show ?case by (simp add: l')
qed

lemma rm_ctxfree: "ctxfree r \<Longrightarrow> outcomes (rm r (p, s, c)) = outcomes (rm r (q, s, c))"
proof (induction r "(p, s, c)" arbitrary: p s c q rule: rm.induct)
  case (5 a b p s c)
  from 5(3) have a: "ctxfree a" and b: "ctxfree b" by simp_all
  have "outcomes (concat (map (rm b) (rm a (p, s, c)))) = outcomes (concat (map (rm b) (rm a (q, s, c))))"
  proof (rule outcomes_concat_cong)
    show "outcomes (rm a (p, s, c)) = outcomes (rm a (q, s, c))" by (rule 5(1) [OF a])
    show "outcomes (rm b (p1, s1, c1)) = outcomes (rm b (q1, s1, c1))"
      if "(p1, s1, c1) \<in> set (rm a (p, s, c))" for p1 q1 s1 c1
      by (rule 5(2) [OF that b])
  qed
  then show ?case by simp
next
  case (6 a b p s c)
  from 6(3) have a: "ctxfree a" and b: "ctxfree b" by simp_all
  from 6(1) [OF a, of q] 6(2) [OF b, of q] show ?case by simp
next
  case (7 a p s c)
  from 7(3) have a: "ctxfree a" by simp
  let ?f = "\<lambda>(p', s', c'). if length s' < length s then rm (Star a) (p', s', c') else []"
  have "outcomes (concat (map ?f (rm a (p, s, clear (groups a) c))))
          = outcomes (concat (map ?f (rm a (q, s, clear (groups a) c))))"
  proof (rule outcomes_concat_cong)
    show "outcomes (rm a (p, s, clear (groups a) c)) = outcomes (rm a (q, s, clear (groups a) c))"
      by (rule 7(1) [OF a])
    show "outcomes (?f (p1, s1, c1)) = outcomes (?f (q1, s1, c1))"
      if "(p1, s1, c1) \<in> set (rm a (p, s, clear (groups a) c))" for p1 q1 s1 c1
      using 7(2) [OF that refl refl _ 7(3), of q1] by simp
  qed
  then show ?case by (subst (1 2) rm_Star) simp
next
  case (8 a p s c)
  from 8(3) have a: "ctxfree a" by simp
  let ?f = "\<lambda>(p', s', c'). if length s' < length s then rm (StarL a) (p', s', c') else []"
  have "outcomes (concat (map ?f (rm a (p, s, clear (groups a) c))))
          = outcomes (concat (map ?f (rm a (q, s, clear (groups a) c))))"
  proof (rule outcomes_concat_cong)
    show "outcomes (rm a (p, s, clear (groups a) c)) = outcomes (rm a (q, s, clear (groups a) c))"
      by (rule 8(1) [OF a])
    show "outcomes (?f (p1, s1, c1)) = outcomes (?f (q1, s1, c1))"
      if "(p1, s1, c1) \<in> set (rm a (p, s, clear (groups a) c))" for p1 q1 s1 c1
      using 8(2) [OF that refl refl _ 8(3), of q1] by simp
  qed
  then show ?case by (subst (1 2) rm_StarL) simp
next
  case (9 a p s c)
  from 9(2) have a: "ctxfree a" by simp
  let ?f = "\<lambda>(p', s', c'). if length s' < length s then [(p', s', c')] else []"
  have f: "filter (\<lambda>(p', s', c'). length s' < length s) l = concat (map ?f l)" for l :: "mstate list"
    by (induction l) auto
  have "outcomes (concat (map ?f (rm a (p, s, clear (groups a) c))))
          = outcomes (concat (map ?f (rm a (q, s, clear (groups a) c))))"
  proof (rule outcomes_concat_cong)
    show "outcomes (rm a (p, s, clear (groups a) c)) = outcomes (rm a (q, s, clear (groups a) c))"
      by (rule 9(1) [OF a])
    show "outcomes (?f (p1, s1, c1)) = outcomes (?f (q1, s1, c1))" for p1 q1 s1 c1
      by simp
  qed
  then show ?case by (simp add: f)
next
  case (10 n a p s c)
  from 10(2) have a: "ctxfree a" by simp
  let ?f = "\<lambda>(p', s', c'). [(p', s', (n, take (length s - length s') s) # c')]"
  have f: "map (\<lambda>(p', s', c'). (p', s', (n, take (length s - length s') s) # c')) l
             = concat (map ?f l)" for l :: "mstate list"
    by (induction l) auto
  have "outcomes (concat (map ?f (rm a (p, s, c)))) = outcomes (concat (map ?f (rm a (q, s, c))))"
  proof (rule outcomes_concat_cong)
    show "outcomes (rm a (p, s, c)) = outcomes (rm a (q, s, c))" by (rule 10(1) [OF a])
    show "outcomes (?f (p1, s1, c1)) = outcomes (?f (q1, s1, c1))" for p1 q1 s1 c1
      by simp
  qed
  then show ?case by (simp add: f)
next
  case (15 a p s c)
  from 15(2) have a: "ctxfree a" by simp
  from 15(1) [OF a, of q] show ?case by (auto simp: outcomes_def split: list.splits)
next
  case (16 a p s c)
  from 16(2) have a: "ctxfree a" by simp
  from 16(1) [OF a, of q] show ?case by (auto simp: outcomes_def split: list.splits)
qed (auto split: list.splits)

lemma exec_ctxfree: "ctxfree r \<Longrightarrow> exec r p s = exec r [] s"
  using rm_ctxfree [of r p s "[]" "[]"]
  by (auto simp: exec_def outcomes_def split: list.splits)

lemma isDigit_not_special [simp]: "\<not> isDigit DQ" "\<not> isDigit (CHR ''<'')"
  by (simp_all add: isDigit_def inRange_def DQ_def)

lemma inClass_digit [simp]: "inClass [CDigit] x = isDigit x"
  by (simp add: inClass_def)

lemma inClass_digit_fun: "inClass [CDigit] = isDigit"
  by (rule ext) simp

lemma index_span_re:
  "INDEX_SPAN_RE = Seq (Lit SPAN_OPEN) (Seq (Grp 1 (Plus (Cls [CDigit]))) (Lit SPAN_CLOSE))"
  by (simp add: INDEX_SPAN_RE_def SPAN_OPEN_def SPAN_CLOSE_def)

lemma span_close: "SPAN_CLOSE = DQ # ''></span>''"
  by (simp add: SPAN_CLOSE_def DQ_def)

lemma exec_index_span:
  assumes "d \<noteq> []" "\<forall>ch\<in>set d. isDigit ch"
  shows "exec INDEX_SPAN_RE p (SPAN_OPEN @ d @ SPAN_CLOSE @ b)
           = Some (SPAN_OPEN @ d @ SPAN_CLOSE, [(1, d)])"
proof -
  from assms(1) obtain x d' where d: "d = x # d'" by (cases d) auto
  have tw: "takeWhile isDigit (d' @ SPAN_CLOSE @ b) = d'"
    using assms(2) d by (simp add: takeWhile_append2 span_close)
  have dw: "dropWhile isDigit (d' @ SPAN_CLOSE @ b) = SPAN_CLOSE @ b"
    using assms(2) d by (simp add: dropWhile_append2 span_close)
  have 1: "first (Lit SPAN_OPEN) (p, SPAN_OPEN @ d @ SPAN_CLOSE @ b, [])
             = Some (rev SPAN_OPEN @ p, d @ SPAN_CLOSE @ b, [])"
    by (simp add: first_def)
  have "first (Cls [CDigit]) (rev SPAN_OPEN @ p, d @ SPAN_CLOSE @ b, [])
          = Some (x # rev SPAN_OPEN @ p, d' @ SPAN_CLOSE @ b, [])"
    using assms(2) d by (simp add: first_def)
  from first_Seq [OF this first_Star_single [OF single_Cls]]
  have "first (Plus (Cls [CDigit])) (rev SPAN_OPEN @ p, d @ SPAN_CLOSE @ b, [])
          = Some (rev d @ rev SPAN_OPEN @ p, SPAN_CLOSE @ b, [])"
    by (simp add: Plus_def inClass_digit_fun tw dw d)
  from first_Grp [OF this, of 1]
  have 2: "first (Grp 1 (Plus (Cls [CDigit]))) (rev SPAN_OPEN @ p, d @ SPAN_CLOSE @ b, [])
          = Some (rev d @ rev SPAN_OPEN @ p, SPAN_CLOSE @ b, [(1, d)])"
    by simp
  have 3: "first (Lit SPAN_CLOSE) (rev d @ rev SPAN_OPEN @ p, SPAN_CLOSE @ b, [(1, d)])
          = Some (rev SPAN_CLOSE @ rev d @ rev SPAN_OPEN @ p, b, [(1, d)])"
    by (simp add: first_def)
  from first_Seq [OF 1 first_Seq [OF 2 3]] show ?thesis
    by (simp add: exec_first index_span_re)
qed

lemma exec_index_span_shape:
  assumes "exec INDEX_SPAN_RE p s = Some (m, c)"
  shows "\<exists>d. m = SPAN_OPEN @ d @ SPAN_CLOSE \<and> (\<forall>ch\<in>set d. isDigit ch) \<and> prefix m s"
proof -
  from assms obtain p' s' l where rm: "rm INDEX_SPAN_RE (p, s, []) = (p', s', c) # l"
    and m: "m = take (length s - length s') s"
    by (auto simp: exec_def split: list.splits)
  then have "(p', s', c) \<in> set (rm INDEX_SPAN_RE (p, s, []))" by simp
  then obtain st1 st2 where 1: "st1 \<in> set (rm (Lit SPAN_OPEN) (p, s, []))"
    and 2: "st2 \<in> set (rm (Grp 1 (Plus (Cls [CDigit]))) st1)"
    and 3: "(p', s', c) \<in> set (rm (Lit SPAN_CLOSE) st2)"
    unfolding index_span_re in_rm_Seq by blast
  obtain p1 s1 c1 where st1: "st1 = (p1, s1, c1)" by (cases st1)
  obtain p2 s2 c2 where st2: "st2 = (p2, s2, c2)" by (cases st2)
  from 1 st1 have s: "s = SPAN_OPEN @ s1" by (auto simp: prefix_def split: if_splits)
  from rm_eats [OF 2 [unfolded st1 st2]] obtain d where d: "s1 = d @ s2" "\<forall>ch\<in>set d. isDigit ch"
    by (auto simp: eats_def Plus_def)
  from 3 st2 have s2: "s2 = SPAN_CLOSE @ s'" by (auto simp: prefix_def split: if_splits)
  have "m = SPAN_OPEN @ d @ SPAN_CLOSE" unfolding m s d s2 by simp
  moreover have "prefix (SPAN_OPEN @ d @ SPAN_CLOSE) s" unfolding s d s2 by simp
  ultimately show ?thesis using d(2) by blast
qed

lemma clean_suffix:
  "clean u \<Longrightarrow> suffix b u \<Longrightarrow> b \<noteq> [] \<Longrightarrow> \<not> prefix b (CHR ''<'' # CHR ''l'' # w)"
proof (induction u)
  case Nil
  then show ?case by simp
next
  case (Cons x xs)
  from Cons.prems(2) consider "b = x # xs" | "suffix b xs" by (auto simp: suffix_Cons)
  then show ?case
  proof cases
    case 1
    with Cons.prems(1) show ?thesis by (cases xs) auto
  next
    case 2
    with Cons show ?thesis by simp
  qed
qed

lemma clean_digits: "\<forall>ch\<in>set d. isDigit ch \<Longrightarrow> clean (d @ v) = clean v"
  by (induction d) auto

lemma clean_match: "\<forall>ch\<in>set d. isDigit ch \<Longrightarrow> clean (tl (SPAN_OPEN @ d @ SPAN_CLOSE))"
  by (simp add: SPAN_OPEN_def clean_digits) (simp add: SPAN_CLOSE_def)

lemma no_straddle:
  assumes "exec INDEX_SPAN_RE p (a @ SPAN_OPEN @ b) = Some (m, c)" "a \<noteq> []"
  shows "length m \<le> length a"
proof (rule ccontr)
  assume "\<not> length m \<le> length a"
  then have l: "length a < length m" by simp
  from exec_index_span_shape [OF assms(1)] obtain d where
    m: "m = SPAN_OPEN @ d @ SPAN_CLOSE" and d: "\<forall>ch\<in>set d. isDigit ch"
    and pr: "prefix m (a @ SPAN_OPEN @ b)" by blast
  from pr l obtain us where us: "m = a @ us" "prefix us (SPAN_OPEN @ b)"
    by (auto simp: prefix_append dest: prefix_length_le)
  from l us have ne: "us \<noteq> []" by auto
  from assms(2) us(1) have "suffix us (tl m)" by (cases a) (auto simp: suffix_def)
  from clean_suffix [OF clean_match [OF d] this [unfolded m] ne] us(2)
  show False by (simp add: SPAN_OPEN_def)
qed

lemma gsegs_index_span:
  assumes "d \<noteq> []" "\<forall>ch\<in>set d. isDigit ch"
  shows "k \<le> length a
         \<Longrightarrow> \<exists>u. render valueAttr (gsegs INDEX_SPAN_RE p (a @ SPAN_OPEN @ d @ SPAN_CLOSE @ b) k)
                 = u @ valueTag d @ gsub INDEX_SPAN_RE valueAttr b"
proof (induction a arbitrary: p k)
  case Nil
  let ?m = "SPAN_OPEN @ d @ SPAN_CLOSE"
  obtain x xs where x: "?m = x # xs" by (cases ?m) (auto simp: SPAN_OPEN_def)
  have cf: "ctxfree INDEX_SPAN_RE" by (simp add: INDEX_SPAN_RE_def Plus_def)
  have "gsegs INDEX_SPAN_RE p (?m @ b) 0 = Inr (?m, [(1, d)]) # gsegs INDEX_SPAN_RE (x # p) (xs @ b) (length xs)"
    using exec_index_span [OF assms, of p b] x
    by (simp del: append_assoc add: append_assoc [symmetric])
  also have "gsegs INDEX_SPAN_RE (x # p) (xs @ b) (length xs) = gsegs INDEX_SPAN_RE [] b 0"
    unfolding gsegs_skip by (rule gsegs_context) (rule exec_ctxfree [OF cf])
  finally show ?case using Nil
    by (simp add: render_def gsub_def valueAttr_def valueTag_def capS_def)
next
  case (Cons x a)
  let ?s = "a @ SPAN_OPEN @ d @ SPAN_CLOSE @ b"
  show ?case
  proof (cases "0 < k")
    case True
    with Cons.prems have "k - 1 \<le> length a" by simp
    from Cons.IH [OF this, of "x # p"] True show ?thesis by simp
  next
    case False
    then have k: "k = 0" by simp
    show ?thesis
    proof (cases "exec INDEX_SPAN_RE p (x # ?s)")
      case None
      from Cons.IH [of 0 "x # p"] obtain u where
        "render valueAttr (gsegs INDEX_SPAN_RE (x # p) ?s 0)
           = u @ valueTag d @ gsub INDEX_SPAN_RE valueAttr b" by auto
      then have "render valueAttr (gsegs INDEX_SPAN_RE p (x # ?s) 0)
           = (x # u) @ valueTag d @ gsub INDEX_SPAN_RE valueAttr b"
        using None by (simp add: render_def)
      then show ?thesis unfolding k by (intro exI) simp
    next
      case (Some mc)
      obtain m c where mc: "mc = (m, c)" by (cases mc)
      have "exec INDEX_SPAN_RE p ((x # a) @ SPAN_OPEN @ (d @ SPAN_CLOSE @ b)) = Some (m, c)"
        using Some mc by simp
      from no_straddle [OF this] have le: "length m \<le> Suc (length a)" by simp
      from exec_index_span_shape [OF Some [unfolded mc]] have ne: "m \<noteq> []"
        by (auto simp: SPAN_OPEN_def)
      from le ne have "length m - 1 \<le> length a" by simp
      from Cons.IH [OF this, of "x # p"] obtain u where
        "render valueAttr (gsegs INDEX_SPAN_RE (x # p) ?s (length m - 1))
           = u @ valueTag d @ gsub INDEX_SPAN_RE valueAttr b" by auto
      then have "render valueAttr (gsegs INDEX_SPAN_RE p (x # ?s) 0)
           = (valueAttr m c @ u) @ valueTag d @ gsub INDEX_SPAN_RE valueAttr b"
        using Some mc ne by (simp add: render_def)
      then show ?thesis unfolding k by (intro exI) simp
    qed
  qed
qed

lemma all_digits_sound:
  assumes "test ALL_DIGITS_RE d"
  shows "d \<noteq> [] \<and> (\<forall>ch\<in>set d. isDigit ch)"
proof -
  have "\<And>p s c. p \<noteq> [] \<Longrightarrow> rm ALL_DIGITS_RE (p, s, c) = []"
    by (simp add: ALL_DIGITS_RE_def)
  from test_anchored [OF this] assms have "rm ALL_DIGITS_RE ([], d, []) \<noteq> []" by simp
  moreover have "rm ALL_DIGITS_RE ([], d, []) = rm (Seq (Plus (Cls [CDigit])) Eos) ([], d, [])"
    by (simp add: ALL_DIGITS_RE_def)
  ultimately have "rm (Seq (Plus (Cls [CDigit])) Eos) ([], d, []) \<noteq> []" by metis
  then obtain st l where eq: "rm (Seq (Plus (Cls [CDigit])) Eos) ([], d, []) = st # l"
    unfolding neq_Nil_conv by blast
  have "st \<in> set (rm (Seq (Plus (Cls [CDigit])) Eos) ([], d, []))" unfolding eq by simp
  then obtain st1 where 1: "st1 \<in> set (rm (Plus (Cls [CDigit])) ([], d, []))"
    and 2: "st \<in> set (rm Eos st1)" unfolding in_rm_Seq by blast
  obtain p1 s1 c1 where st1: "st1 = (p1, s1, c1)" by (cases st1)
  from 2 st1 have s1: "s1 = []" by (auto split: if_splits)
  from rm_eats [OF 1 [unfolded st1]] s1 have "\<forall>ch\<in>set d. isDigit ch"
    by (auto simp: eats_def Plus_def)
  moreover from 1 have "d \<noteq> []" by (auto simp: Plus_def)
  ultimately show ?thesis by simp
qed

lemma listBlock_ordered:
  assumes "line \<in> set (split NL (trimEnd block))" "matchItem line = Some (m, c)"
    "test ALL_DIGITS_RE (capS 2 c)"
  shows "\<exists>u w. listBlock block
            = u @ valueTag (capS 2 c) @ gsub INDEX_SPAN_RE valueAttr (capS 3 c @ w)"
proof -
  from list_html_item [OF assms, of "[]" "[]"] obtain a b where
    h: "fst (closeAll (foldl listLine ([], []) (split NL (trimEnd block))))
          = a @ SPAN_OPEN @ capS 2 c @ SPAN_CLOSE @ (capS 3 c @ b)"
    by (auto simp: indexSpan_def SPAN_OPEN_def SPAN_CLOSE_def)
  from all_digits_sound [OF assms(3)] have d: "capS 2 c \<noteq> []" "\<forall>ch\<in>set (capS 2 c). isDigit ch"
    by simp_all
  have lb: "listBlock block
              = render valueAttr (gsegs INDEX_SPAN_RE []
                  (fst (closeAll (foldl listLine ([], []) (split NL (trimEnd block))))) 0)"
    by (simp add: listBlock_def gsub_def render_def valueAttr_def [abs_def])
  from gsegs_index_span [OF d, of 0 a "[]" "capS 3 c @ b"] obtain u where
    "render valueAttr (gsegs INDEX_SPAN_RE [] (a @ SPAN_OPEN @ capS 2 c @ SPAN_CLOSE @ (capS 3 c @ b)) 0)
       = u @ valueTag (capS 2 c) @ gsub INDEX_SPAN_RE valueAttr (capS 3 c @ b)" by auto
  then show ?thesis unfolding lb h by blast
qed

lemma first_Alt_None: "first a st = None \<Longrightarrow> first (Alt a b) st = first b st"
  by (cases st) (auto simp: first_def split: list.splits)

lemma first_Plus_single:
  assumes "single r P" "m \<noteq> []" "\<forall>ch\<in>set m. P ch" "t = [] \<or> \<not> P (hd t)"
  shows "first (Plus r) (p, m @ t, c) = Some (rev m @ p, t, c)"
proof -
  from assms(2) obtain x m' where m: "m = x # m'" by (cases m) auto
  have tw: "takeWhile P (m' @ t) = m'" "dropWhile P (m' @ t) = t"
    using assms(3,4) m by (cases t; simp add: takeWhile_append2 dropWhile_append2)+
  have "first r (p, m @ t, c) = Some (x # p, m' @ t, c)"
    using assms(1,3) m by (simp add: first_def single_def)
  from first_Seq [OF this first_Star_single [OF assms(1)]] show ?thesis
    by (simp add: Plus_def tw m)
qed

lemma first_Some_rm: "first r st = Some y \<Longrightarrow> rm r st \<noteq> []"
  by (auto simp: first_def split: list.splits)

lemma takeWhile_replicate_eq:
  "x \<noteq> a \<Longrightarrow> takeWhile (\<lambda>y. y = a) (replicate n a @ x # r) = replicate n a"
  by (induction n) auto

lemma dropWhile_replicate_eq:
  "x \<noteq> a \<Longrightarrow> dropWhile (\<lambda>y. y = a) (replicate n a @ x # r) = x # r"
  by (induction n) auto

lemma digit_not_bullet: "isDigit x \<Longrightarrow> \<not> inClass (chars ''-+*'') x"
  by (auto simp: inClass_def chars_def isDigit_def inRange_def)

lemma digit_not_blank: "isDigit x \<Longrightarrow> x \<noteq> CHR '' '' \<and> x \<noteq> CHR ''.''"
  by (auto simp: isDigit_def inRange_def)

lemma matchItem_ordered:
  assumes "d \<noteq> []" "\<forall>ch\<in>set d. isDigit ch" "txt \<noteq> []" "singleLine txt"
  shows "matchItem (replicate n (CHR '' '') @ d @ ''. '' @ txt)
           = Some (replicate n (CHR '' '') @ d @ ''. '' @ txt,
                   [(3, txt), (2, d), (1, replicate n (CHR '' ''))])"
proof -
  let ?sp = "replicate n (CHR '' '')"
  let ?line = "?sp @ d @ ''. '' @ txt"
  from assms(1) obtain x d' where d: "d = x # d'" by (cases d) auto
  with assms(2) have x: "isDigit x" by simp
  have anch: "\<And>p s c. p \<noteq> [] \<Longrightarrow> rm ITEM_DOT_RE (p, s, c) = []"
    by (simp add: ITEM_DOT_RE_def)
  have tw: "takeWhile (\<lambda>y. y = CHR '' '') ?line = ?sp" "dropWhile (\<lambda>y. y = CHR '' '') ?line = d @ ''. '' @ txt"
    using digit_not_blank [OF x] by (simp_all add: takeWhile_replicate_eq dropWhile_replicate_eq d)
  have 0: "first Bos ([], ?line, []) = Some ([], ?line, [])" by (simp add: first_def)
  have "first (Star (Lit '' '')) ([], ?line, []) = Some (rev ?sp, d @ ''. '' @ txt, [])"
    using first_Star_single [OF single_Lit, of "CHR '' ''" "[]" ?line "[]"] by (simp only: tw append_Nil2)
  from first_Grp [OF this, of 1]
  have 1: "first (Grp 1 (Star (Lit '' ''))) ([], ?line, []) = Some (rev ?sp, d @ ''. '' @ txt, [(1, ?sp)])"
    by simp
  have "first (Cls (chars ''-+*'')) (rev ?sp, d @ ''. '' @ txt, [(1, ?sp)]) = None"
    using digit_not_bullet [OF x] by (simp add: first_def d)
  from first_Alt_None [OF this, of "Plus (Cls [CDigit])"]
    first_Plus_single [OF single_Cls assms(1), of "[CDigit]" "''. '' @ txt" "rev ?sp" "[(1, ?sp)]"] assms(2)
  have "first (Alt (Cls (chars ''-+*'')) (Plus (Cls [CDigit]))) (rev ?sp, d @ ''. '' @ txt, [(1, ?sp)])
          = Some (rev d @ rev ?sp, ''. '' @ txt, [(1, ?sp)])"
    by (simp add: isDigit_def inRange_def)
  from first_Grp [OF this, of 2]
  have 2: "first (Grp 2 (Alt (Cls (chars ''-+*'')) (Plus (Cls [CDigit])))) (rev ?sp, d @ ''. '' @ txt, [(1, ?sp)])
          = Some (rev d @ rev ?sp, ''. '' @ txt, [(2, d), (1, ?sp)])"
    by simp
  have 3: "first (Lit ''. '') (rev d @ rev ?sp, ''. '' @ txt, [(2, d), (1, ?sp)])
          = Some (rev ''. '' @ rev d @ rev ?sp, txt, [(2, d), (1, ?sp)])"
    by (simp add: first_def)
  have "first (Plus Dot) (rev ''. '' @ rev d @ rev ?sp, txt @ [], [(2, d), (1, ?sp)])
          = Some (rev txt @ rev ''. '' @ rev d @ rev ?sp, [], [(2, d), (1, ?sp)])"
    by (rule first_Plus_single [OF single_Dot assms(3)]) (use assms(4) in \<open>simp_all add: singleLine_def\<close>)
  from first_Grp [OF this [simplified], of 3]
  have 4: "first (Grp 3 (Plus Dot)) (rev ''. '' @ rev d @ rev ?sp, txt, [(2, d), (1, ?sp)])
          = Some (rev txt @ rev ''. '' @ rev d @ rev ?sp, [], [(3, txt), (2, d), (1, ?sp)])"
    by simp
  have 5: "first Eos (rev txt @ rev ''. '' @ rev d @ rev ?sp, [], [(3, txt), (2, d), (1, ?sp)])
          = Some (rev txt @ rev ''. '' @ rev d @ rev ?sp, [], [(3, txt), (2, d), (1, ?sp)])"
    by (simp add: first_def)
  have re: "ITEM_DOT_RE = Seq Bos (Seq (Grp 1 (Star (Lit '' '')))
             (Seq (Grp 2 (Alt (Cls (chars ''-+*'')) (Plus (Cls [CDigit]))))
               (Seq (Lit ''. '') (Seq (Grp 3 (Plus Dot)) Eos))))"
    by (simp add: ITEM_DOT_RE_def)
  from first_Seq [OF 0 first_Seq [OF 1 first_Seq [OF 2 first_Seq [OF 3 first_Seq [OF 4 5]]]]]
  have "exec ITEM_DOT_RE [] ?line = Some (?line, [(3, txt), (2, d), (1, ?sp)])"
    unfolding re exec_first by simp
  then show ?thesis by (simp add: matchItem_def match_anchored [OF anch])
qed

text \<open>
  C9: every ordered list item shows its literal numeric marker as the explicit value of the
  rendered list item. When a line of a list block is made of spaces, the digits \<open>d\<close>, a
  dot, a space and a text, the list pass writes the opening tag \<open><li value="d">\<close>,
  with the digits as they were typed, and right after it the text of the item (in which
  the last step of the pass rewrites whatever looks like one of its own index spans).
\<close>

theorem C9_ordered_item_value:
  assumes "d \<noteq> []" "\<forall>ch\<in>set d. isDigit ch" "txt \<noteq> []" "singleLine txt"
    and "replicate n (CHR '' '') @ d @ ''. '' @ txt \<in> set (split NL (trimEnd block))"
  shows "\<exists>u w. listBlock block = u @ valueTag d @ gsub INDEX_SPAN_RE valueAttr (txt @ w)"
proof -
  let ?c = "[(3, txt), (2, d), (1, replicate n (CHR '' ''))]"
  have t: "test ALL_DIGITS_RE (capS 2 ?c)"
  proof -
    have anch: "\<And>p s c. p \<noteq> [] \<Longrightarrow> rm ALL_DIGITS_RE (p, s, c) = []"
      by (simp add: ALL_DIGITS_RE_def)
    have 0: "first Bos ([], d, []) = Some ([], d, [])" by (simp add: first_def)
    have 1: "first (Plus (Cls [CDigit])) ([], d, []) = Some (rev d, [], [])"
      using first_Plus_single [OF single_Cls assms(1), of "[CDigit]" "[]" "[]" "[]"] assms(2) by simp
    have 2: "first Eos (rev d, [], []) = Some (rev d, [], [])" by (simp add: first_def)
    from first_Seq [OF 0 first_Seq [OF 1 2]]
    have "first ALL_DIGITS_RE ([], d, []) = Some (rev d, [], [])"
      by (simp add: ALL_DIGITS_RE_def)
    from first_Some_rm [OF this] show ?thesis by (simp add: test_anchored [OF anch] capS_def)
  qed
  from listBlock_ordered [OF assms(5) matchItem_ordered [OF assms(1-4)] t] show ?thesis
    by (simp add: capS_def)
qed

text \<open>An instance: the block \<open>5. foo\<close>.\<close>

theorem C9_ordered_item_value_witness:
  "\<exists>u w. listBlock ''5. foo'' = u @ valueTag ''5'' @ gsub INDEX_SPAN_RE valueAttr (''foo'' @ w)"
proof -
  have 1: "replicate 0 (CHR '' '') @ ''5'' @ ''. '' @ ''foo'' \<in> set (split NL (trimEnd ''5. foo''))"
    by code_simp
  have 2: "\<forall>ch\<in>set ''5''. isDigit ch" by code_simp
  have 3: "singleLine ''foo''" by code_simp
  from C9_ordered_item_value [OF _ 2 _ 3 1] show ?thesis by simp
qed

text \<open>The whole conversion of two ordered items numbered 5 and 9.\<close>

lemma ordered_item_output:
  \<open>markdownToHtml (Suc depth) ''5. foo'' = Some ''<ol><li value="5">foo</li></ol>''\<close>
  by code_simp

lemma ordered_items_output:
  \<open>markdownToHtml (Suc depth) (''5. foo'' @ [NL] @ ''9. bar'')
     = Some ''<ol><li value="5">foo</li><li value="9">bar</li></ol>''\<close>
  by code_simp

section \<open>Backslash escapes\<close>

text \<open>One attempt of the escape pattern: a backslash and a character of the escape set.\<close>

lemma exec_escaped:
  "exec ESCAPED_RE p s =
     (case s of x # y # r \<Rightarrow> if x = BSL \<and> y \<in> set escapeSet then Some ([x, y], [(1, [y])]) else None
      | _ \<Rightarrow> None)"
  by (auto simp: exec_def ESCAPED_RE_def inClass_def chars_def list_ex_iff prefix_def split: list.splits)

text \<open>A backslash before a character outside the escape set makes no placeholder.\<close>

lemma escapePass_other:
  assumes "Y \<notin> set escapeSet"
  shows "escapePass [BSL, Y] = ([BSL, Y], [])"
  using assms by (simp add: escapePass_def exec_escaped)

text \<open>Outside code, the escaped character comes back: each escape alone, and one in a word.\<close>

lemma escape_round_trip_bare:
  assumes "X \<in> set escapeSet"
  shows "markdownToHtml (Suc depth) [BSL, X] = Some (''<p>'' @ [X] @ ''</p>'')"
proof -
  have "\<forall>X\<in>set escapeSet. markdownToHtml (Suc depth) [BSL, X] = Some (''<p>'' @ [X] @ ''</p>'')"
    by code_simp
  with assms show ?thesis by blast
qed

lemma escape_outside_code:
  "markdownToHtml (Suc depth) (''a'' @ [BSL] @ ''_b'') = Some ''<p>a_b</p>''"
  by code_simp

text \<open>
  C4: a backslash followed by a character of the escape set renders that character. It
  does outside code, but not in a backtick span: for the span that holds \<open>a\_b\<close> the
  output shows neither \<open>a_b\<close> nor \<open>a\_b\<close> but the placeholder of the escape, HTML-escaped,
  because the inline path of the tokenizer stores the text of the span with the
  placeholder in it and the placeholders of escapes are put back by a search for their
  unescaped text.
\<close>

theorem C4_escape_lost_in_code_span:
  "markdownToHtml (Suc depth) ([BT] @ ''a'' @ [BSL] @ ''_b'' @ [BT])
     = Some ''<p><code>a&lt;!--escaped_0--&gt;b</code></p>''"
  by code_simp

section \<open>Termination\<close>

lemma quoteDepth_Nil [simp]: "quoteDepth [] = 0"
  by (simp add: quoteDepth_def trimStart_def markers.simps)

lemma quoteDepth_space: "isSpace x \<Longrightarrow> quoteDepth (x # s) = quoteDepth s"
  by (simp add: quoteDepth_def trimStart_def)

lemma quoteDepth_spaces: "\<forall>ch\<in>set a. isSpace ch \<Longrightarrow> quoteDepth (a @ s) = quoteDepth s"
  by (induction a) (simp_all add: quoteDepth_space)

lemma quoteDepth_other:
  "\<not> isSpace x \<Longrightarrow>
   quoteDepth (x # s) = (if prefix ''&gt;'' (x # s) then Suc (quoteDepth (drop 4 (x # s))) else 0)"
  using markers.simps [of "x # s"] by (simp add: quoteDepth_def trimStart_def)

lemma quoteDepth_trimStart [simp]: "quoteDepth (trimStart s) = quoteDepth s"
  by (simp add: quoteDepth_def trimStart_def)

lemma quoteDepth_gt: "quoteDepth (''&gt;'' @ s) = Suc (quoteDepth s)"
  using quoteDepth_other [of "CHR ''&''" "''gt;'' @ s"] by (simp add: isSpace_def)

lemma prefix_gt_cut: "prefix ''&gt;'' (w @ CHR ''<'' # x) = prefix ''&gt;'' w"
  by (auto simp: prefix_def append_eq_Cons_conv Cons_eq_append_conv)

lemma quoteDepth_cut: "quoteDepth (w @ CHR ''<'' # x) = quoteDepth w"
proof (induction "length w" arbitrary: w rule: less_induct)
  case less
  show ?case
  proof (cases w)
    case Nil
    then show ?thesis using quoteDepth_other [of "CHR ''<''" x] by (simp add: isSpace_def)
  next
    case (Cons c w')
    show ?thesis
    proof (cases "isSpace c")
      case True
      with less [of w'] Cons show ?thesis by (simp add: quoteDepth_space)
    next
      case False
      show ?thesis
      proof (cases "prefix ''&gt;'' w")
        case True
        then obtain r where r: "w = ''&gt;'' @ r" by (auto simp: prefix_def)
        with less [of r] show ?thesis by (simp add: quoteDepth_gt del: append.simps)
      next
        case nop: False
        then have nop': "\<not> prefix ''&gt;'' ((c # w') @ CHR ''<'' # x)"
          unfolding Cons by (simp only: prefix_gt_cut) simp
        have 1: "quoteDepth w = 0" using False nop quoteDepth_other [of c w'] Cons by simp
        have 2: "quoteDepth (w @ CHR ''<'' # x) = 0"
          using False nop' quoteDepth_other [of c "w' @ CHR ''<'' # x"] Cons by simp
        from 1 2 show ?thesis by simp
      qed
    qed
  qed
qed

lemma quoteDepth_prefix: "quoteDepth w \<le> quoteDepth (w @ y)"
proof (induction "length w" arbitrary: w rule: less_induct)
  case less
  show ?case
  proof (cases w)
    case Nil
    then show ?thesis by simp
  next
    case (Cons c w')
    show ?thesis
    proof (cases "isSpace c")
      case True
      with less [of w'] Cons show ?thesis by (simp add: quoteDepth_space)
    next
      case False
      show ?thesis
      proof (cases "prefix ''&gt;'' w")
        case True
        then obtain r where r: "w = ''&gt;'' @ r" by (auto simp: prefix_def)
        from less [of r] r have "quoteDepth r \<le> quoteDepth (r @ y)" by simp
        then show ?thesis using quoteDepth_gt [of r] quoteDepth_gt [of "r @ y"] unfolding r by simp
      next
        case nop: False
        have "quoteDepth w = 0" using False nop quoteDepth_other [of c w'] Cons by simp
        then show ?thesis by simp
      qed
    qed
  qed
qed

lemma cutAt_refl: "cutAt s s"
  unfolding cutAt_def by (rule exI [of _ s], rule exI [of _ "[]"]) simp

lemma cutAt_Cons: "cutAt s res \<Longrightarrow> cutAt (x # s) (x # res)"
  unfolding cutAt_def
proof (elim exE conjE)
  fix u rest
  assume "prefix u s" "res = u @ rest" "rest = [] \<or> hd rest = CHR ''<''"
  then have "prefix (x # u) (x # s) \<and> x # res = (x # u) @ rest \<and> (rest = [] \<or> hd rest = CHR ''<'')"
    by simp
  then show "\<exists>u rest. prefix u (x # s) \<and> x # res = u @ rest \<and> (rest = [] \<or> hd rest = CHR ''<'')"
    by blast
qed

lemma cutAt_append: "cutAt s res \<Longrightarrow> cutAt (a @ s) (a @ res)"
  by (induction a) (simp_all add: cutAt_Cons)

lemma cutAt_tag: "t = [] \<or> hd t = CHR ''<'' \<Longrightarrow> cutAt s t"
  unfolding cutAt_def by (rule exI [of _ "[]"], rule exI [of _ t]) simp

lemma cutAt_tag_append: "hd t = CHR ''<'' \<Longrightarrow> t \<noteq> [] \<Longrightarrow> cutAt s (t @ x)"
  by (rule cutAt_tag) (cases t, simp_all)

lemma quoteDepth_cutAt: "cutAt s res \<Longrightarrow> quoteDepth res \<le> quoteDepth s"
proof -
  assume "cutAt s res"
  then obtain u rest y where s: "s = u @ y" and res: "res = u @ rest"
    and rest: "rest = [] \<or> hd rest = CHR ''<''"
    by (auto simp: cutAt_def prefix_def)
  have "quoteDepth res = quoteDepth u"
  proof (cases rest)
    case Nil
    with res show ?thesis by simp
  next
    case (Cons c r)
    with rest res show ?thesis by (simp add: quoteDepth_cut)
  qed
  with quoteDepth_prefix [of u y] s show ?thesis by simp
qed

lemma singleLine_append [simp]: "singleLine (a @ b) = (singleLine a \<and> singleLine b)"
  by (auto simp: singleLine_def)

lemma singleLine_Cons [simp]: "singleLine (x # a) = (\<not> isLineTerminator x \<and> singleLine a)"
  by (auto simp: singleLine_def)

lemma singleLine_Nil [simp]: "singleLine []"
  by (simp add: singleLine_def)

lemma singleLine_subset: "singleLine s \<Longrightarrow> set t \<subseteq> set s \<Longrightarrow> singleLine t"
  by (auto simp: singleLine_def)

lemma gsub_render: "gsub r f s = render f (gsegs r [] s 0)"
  by (simp add: gsub_def render_def)

lemma render_simps [simp]:
  "render f [] = []"
  "render f (Inl x # segs) = x # render f segs"
  "render f (Inr (m, c) # segs) = f m c @ render f segs"
  "render f (map Inl u) = u"
  by (induction u) (simp_all add: render_def)

lemma exec_sound:
  assumes "exec r p s = Some (m, c)"
  shows "prefix m s \<and> (\<forall>ch\<in>set m. may r ch) \<and> capsFrom s [] c"
proof -
  from assms obtain p' s' l where rm: "rm r (p, s, []) = (p', s', c) # l"
    and m: "m = take (length s - length s') s"
    by (auto simp: exec_def split: list.splits)
  then have mem: "(p', s', c) \<in> set (rm r (p, s, []))" by simp
  from eats_take [OF rm_eats [OF mem]] m have "m @ s' = s" "\<forall>ch\<in>set m. may r ch" by simp_all
  with rm_capsFrom [OF mem] show ?thesis by (auto simp: prefix_def)
qed

lemma exec_mem:
  assumes "exec r p s = Some (m, c)"
  shows "\<exists>p' s'. (p', s', c) \<in> set (rm r (p, s, [])) \<and> s = m @ s'"
proof -
  from assms obtain p' s' l where rm: "rm r (p, s, []) = (p', s', c) # l"
    and m: "m = take (length s - length s') s"
    by (auto simp: exec_def split: list.splits)
  then have mem: "(p', s', c) \<in> set (rm r (p, s, []))" by simp
  from eats_take [OF rm_eats [OF mem]] m have "s = m @ s'" by simp
  with mem show ?thesis by blast
qed

lemma gsegs_cutAt:
  assumes "\<And>p s m c. exec r p s = Some (m, c) \<Longrightarrow> tame m (f m c)"
  shows "cutAt s (render f (gsegs r p s 0))"
proof (induction s arbitrary: p)
  case Nil
  show ?case
  proof (cases "exec r p []")
    case None
    then show ?thesis by (simp add: cutAt_refl)
  next
    case (Some mc)
    obtain m c where mc: "mc = (m, c)" by (cases mc)
    from exec_sound [OF Some [unfolded mc]] have "m = []" by simp
    with assms [OF Some [unfolded mc]] have "prefix ''<'' (f m c)" by (simp add: tame_def)
    then show ?thesis using Some mc by (auto simp: prefix_def intro: cutAt_tag)
  qed
next
  case (Cons x xs)
  show ?case
  proof (cases "exec r p (x # xs)")
    case None
    with Cons [of "x # p"] show ?thesis by (simp add: cutAt_Cons)
  next
    case (Some mc)
    obtain m c where mc: "mc = (m, c)" by (cases mc)
    from assms [OF Some [unfolded mc]] consider "prefix ''<'' (f m c)"
      | y where "prefix [y] m" "prefix [y, CHR ''<''] (f m c)" by (auto simp: tame_def)
    then have "cutAt (x # xs) (f m c @ z)" for z
    proof cases
      case 1
      then show ?thesis by (auto simp: prefix_def intro: cutAt_tag)
    next
      case 2
      from 2(1) exec_sound [OF Some [unfolded mc]] have "y = x" by (auto simp: prefix_def)
      with 2(2) obtain t where "f m c = x # CHR ''<'' # t" by (auto simp: prefix_def)
      then show ?thesis
        using cutAt_Cons [OF cutAt_tag [of "CHR ''<'' # t @ z" xs], of x] by simp
    qed
    then show ?thesis using Some mc by auto
  qed
qed

lemma gsub_cutAt:
  assumes "\<And>p s m c. exec r p s = Some (m, c) \<Longrightarrow> tame m (f m c)"
  shows "cutAt s (gsub r f s)"
  unfolding gsub_render by (rule gsegs_cutAt [OF assms])

text \<open>The pieces of a global replace come from the text.\<close>

lemma gsegs_set_Inl: "Inl x \<in> set (gsegs r p s k) \<Longrightarrow> x \<in> set s"
proof (induction s arbitrary: p k)
  case Nil
  have "gsegs r p [] k = [] \<or> (\<exists>mc. gsegs r p [] k = [Inr mc])"
    by (cases "exec r p []") simp_all
  then show ?case
  proof (elim disjE exE)
    assume e: "gsegs r p [] k = []"
    from Nil.prems [unfolded e] show ?thesis by simp
  next
    fix mc
    assume e: "gsegs r p [] k = [Inr mc]"
    from Nil.prems [unfolded e] show ?thesis by simp
  qed
next
  case (Cons y ys)
  show ?case
  proof (cases "0 < k")
    case True
    with Cons.prems have "Inl x \<in> set (gsegs r (y # p) ys (k - 1))" by simp
    from Cons.IH [OF this] show ?thesis by simp
  next
    case False
    have "\<exists>pre j. gsegs r p (y # ys) k = pre @ gsegs r (y # p) ys j \<and> set pre \<subseteq> {Inl y} \<union> range Inr"
    proof (cases "exec r p (y # ys)")
      case None
      with False have "gsegs r p (y # ys) k = [Inl y] @ gsegs r (y # p) ys 0" by simp
      then show ?thesis by (intro exI [of _ "[Inl y]"] exI [of _ 0]) simp
    next
      case (Some mc)
      obtain m c where mc: "mc = (m, c)" by (cases mc)
      show ?thesis
      proof (cases "m = []")
        case True
        with False Some mc have "gsegs r p (y # ys) k = [Inr (m, c), Inl y] @ gsegs r (y # p) ys 0"
          by simp
        then show ?thesis by (intro exI [of _ "[Inr (m, c), Inl y]"] exI [of _ 0]) simp
      next
        case ne: False
        with False Some mc have "gsegs r p (y # ys) k = [Inr (m, c)] @ gsegs r (y # p) ys (length m - 1)"
          by simp
        then show ?thesis by (intro exI [of _ "[Inr (m, c)]"] exI [of _ "length m - 1"]) simp
      qed
    qed
    then obtain pre j where "gsegs r p (y # ys) k = pre @ gsegs r (y # p) ys j"
      "set pre \<subseteq> {Inl y} \<union> range Inr" by blast
    with Cons.prems have "x = y \<or> Inl x \<in> set (gsegs r (y # p) ys j)" by auto
    with Cons.IH [of "y # p" j] show ?thesis by auto
  qed
qed

lemma gsegs_set_Inr:
  "Inr (m, c) \<in> set (gsegs r p s k) \<Longrightarrow> set m \<subseteq> set s \<and> (\<forall>kv\<in>set c. set (snd kv) \<subseteq> set s)"
proof (induction s arbitrary: p k)
  case Nil
  have "gsegs r p [] k = [] \<or> (\<exists>mc. exec r p [] = Some mc \<and> gsegs r p [] k = [Inr mc])"
    by (cases "exec r p []") simp_all
  then have "exec r p [] = Some (m, c)"
  proof (elim disjE exE conjE)
    assume e: "gsegs r p [] k = []"
    from Nil.prems [unfolded e] show ?thesis by simp
  next
    fix mc
    assume e: "gsegs r p [] k = [Inr mc]" and x: "exec r p [] = Some mc"
    from Nil.prems [unfolded e] x show ?thesis by simp
  qed
  from exec_sound [OF this] show ?case by (auto simp: capsFrom_def)
next
  case (Cons y ys)
  show ?case
  proof (cases "0 < k")
    case True
    with Cons.prems have "Inr (m, c) \<in> set (gsegs r (y # p) ys (k - 1))" by simp
    from Cons.IH [OF this] show ?thesis by auto
  next
    case False
    have "exec r p (y # ys) = Some (m, c) \<or> Inr (m, c) \<in> set (gsegs r (y # p) ys 0)
          \<or> (\<exists>j. Inr (m, c) \<in> set (gsegs r (y # p) ys j))"
    proof (cases "exec r p (y # ys)")
      case None
      with Cons.prems False show ?thesis by simp
    next
      case (Some mc)
      obtain m' c' where mc: "mc = (m', c')" by (cases mc)
      with Cons.prems False Some show ?thesis by (cases "m' = []") auto
    qed
    then show ?thesis
    proof (elim disjE exE)
      assume "exec r p (y # ys) = Some (m, c)"
      from exec_sound [OF this] have "prefix m (y # ys)" "\<forall>kv\<in>set c. set (snd kv) \<subseteq> set (y # ys)"
        by (auto simp: capsFrom_def)
      with set_mono_prefix [of m "y # ys"] show ?thesis by simp
    next
      assume "Inr (m, c) \<in> set (gsegs r (y # p) ys 0)"
      from Cons.IH [OF this] show ?thesis by auto
    next
      fix j
      assume "Inr (m, c) \<in> set (gsegs r (y # p) ys j)"
      from Cons.IH [OF this] show ?thesis by auto
    qed
  qed
qed

lemma capS_singleLine: "\<forall>kv\<in>set c. singleLine (snd kv) \<Longrightarrow> singleLine (capS n c)"
  by (auto simp: capS_def split: option.splits dest!: map_of_SomeD)

lemma render_singleLine:
  assumes "\<And>m c. singleLine m \<Longrightarrow> \<forall>kv\<in>set c. singleLine (snd kv) \<Longrightarrow> singleLine (f m c)"
    and "\<forall>seg\<in>set segs. case seg of Inl x \<Rightarrow> \<not> isLineTerminator x
           | Inr (m, c) \<Rightarrow> singleLine m \<and> (\<forall>kv\<in>set c. singleLine (snd kv))"
  shows "singleLine (render f segs)"
  using assms(2)
proof (induction segs)
  case Nil
  show ?case by simp
next
  case (Cons seg segs)
  then show ?case by (cases seg) (auto intro: assms(1))
qed

lemma gsegs_singleLine:
  assumes "singleLine s"
  shows "\<forall>seg\<in>set (gsegs r p s k). case seg of Inl x \<Rightarrow> \<not> isLineTerminator x
           | Inr (m, c) \<Rightarrow> singleLine m \<and> (\<forall>kv\<in>set c. singleLine (snd kv))"
proof
  fix seg
  assume mem: "seg \<in> set (gsegs r p s k)"
  show "case seg of Inl x \<Rightarrow> \<not> isLineTerminator x
           | Inr (m, c) \<Rightarrow> singleLine m \<and> (\<forall>kv\<in>set c. singleLine (snd kv))"
  proof (cases seg)
    case (Inl x)
    with gsegs_set_Inl [of x r p s k] mem assms show ?thesis by (auto simp: singleLine_def)
  next
    case (Inr mc)
    obtain m c where mc: "mc = (m, c)" by (cases mc)
    from gsegs_set_Inr [of m c r p s k] mem Inr mc assms show ?thesis
      by (auto simp: singleLine_def)
  qed
qed

lemma gsub_singleLine:
  assumes "\<And>m c. singleLine m \<Longrightarrow> \<forall>kv\<in>set c. singleLine (snd kv) \<Longrightarrow> singleLine (f m c)"
    and "singleLine s"
  shows "singleLine (gsub r f s)"
  unfolding gsub_render by (rule render_singleLine [OF assms(1) gsegs_singleLine [OF assms(2)]])

lemma gsegs_inside:
  assumes "anchored r"
  shows "singleLine s \<Longrightarrow> p \<noteq> [] \<Longrightarrow> \<not> isLineTerminator (hd p) \<Longrightarrow> gsegs r p s k = map Inl (drop k s)"
proof (induction s arbitrary: p k)
  case Nil
  with assms show ?case by (simp add: anchored_def exec_def)
next
  case (Cons x xs)
  from Cons.prems assms have "exec r p (x # xs) = None" by (simp add: anchored_def exec_def)
  moreover from Cons.prems have "gsegs r (x # p) xs j = map Inl (drop j xs)" for j
    by (intro Cons.IH) simp_all
  ultimately show ?case by (cases k) simp_all
qed

lemma gsegs_anchored:
  assumes "anchored r" "singleLine s"
  shows "gsegs r [] s 0 =
           (case exec r [] s of None \<Rightarrow> map Inl s
            | Some (m, c) \<Rightarrow> Inr (m, c) # map Inl (drop (length m) s))"
proof (cases s)
  case Nil
  then show ?thesis by (auto split: option.splits)
next
  case (Cons x xs)
  from assms(2) Cons have "gsegs r [x] xs j = map Inl (drop j xs)" for j
    by (intro gsegs_inside [OF assms(1)]) simp_all
  then show ?thesis using Cons by (auto split: option.splits simp: drop_Cons')
qed

lemma gsub_anchored:
  assumes "anchored r" "singleLine s"
  shows "gsub r f s =
           (case exec r [] s of None \<Rightarrow> s | Some (m, c) \<Rightarrow> f m c @ drop (length m) s)"
  unfolding gsub_render gsegs_anchored [OF assms] by (auto split: option.splits)

lemma calmI:
  "(\<And>s. singleLine s \<Longrightarrow> singleLine (pass s)) \<Longrightarrow>
   (\<And>s. singleLine s \<Longrightarrow> quoteDepth (pass s) \<le> quoteDepth s) \<Longrightarrow> calm pass"
  by (simp add: calm_def)

lemma calmD: "calm pass \<Longrightarrow> singleLine s \<Longrightarrow> singleLine (pass s) \<and> quoteDepth (pass s) \<le> quoteDepth s"
  by (simp add: calm_def)

lemma calm_comp: "calm f \<Longrightarrow> calm g \<Longrightarrow> calm (\<lambda>s. g (f s))"
  unfolding calm_def by (meson le_trans)

lemma calm_gsub:
  assumes "\<And>p s m c. exec r p s = Some (m, c) \<Longrightarrow> tame m (f m c)"
    and "\<And>m c. singleLine m \<Longrightarrow> \<forall>kv\<in>set c. singleLine (snd kv) \<Longrightarrow> singleLine (f m c)"
  shows "calm (gsub r f)"
proof (rule calmI)
  show "singleLine (gsub r f s)" if "singleLine s" for s
    by (rule gsub_singleLine [OF assms(2) that])
  show "quoteDepth (gsub r f s) \<le> quoteDepth s" for s
    by (rule quoteDepth_cutAt [OF gsub_cutAt [OF assms(1)]])
qed

lemma calm_fold:
  "\<forall>rf\<in>set ps. calm (gsub (fst rf) (snd rf)) \<Longrightarrow>
   calm (fold (\<lambda>(regex, replacement) t. gsub regex replacement t) ps)"
proof (induction ps)
  case Nil
  show ?case by (simp add: calm_def)
next
  case (Cons rf ps)
  obtain r f where rf: "rf = (r, f)" by (cases rf)
  from Cons.prems have 1: "calm (gsub r f)" by (simp add: rf)
  from Cons have 2: "calm (fold (\<lambda>(regex, replacement) t. gsub regex replacement t) ps)" by simp
  from calm_comp [OF 1 2] show ?case by (simp add: rf comp_def)
qed

lemma calm_wrap1:
  assumes "prefix ''<'' opening" "singleLine opening" "singleLine closing"
  shows "calm (gsub r (wrap1 opening closing))"
proof (rule calm_gsub)
  show "tame m (wrap1 opening closing m c)" for m c
    using assms(1) by (auto simp: tame_def wrap1_def prefix_def)
  show "singleLine (wrap1 opening closing m c)" if "\<forall>kv\<in>set c. singleLine (snd kv)" for m c
    using assms(2,3) capS_singleLine [OF that] by (simp add: wrap1_def)
qed

lemma emphasis_cap1:
  assumes "exec (emphasis marker x behind) p s = Some (m, c)"
  shows "capS 1 c = [] \<or> (\<exists>y. capS 1 c = [y] \<and> prefix [y] m)"
proof -
  define REST where "REST = Cat [Lit marker, NAhead (Lit [x]), Grp 2 (PlusL Dot),
          NBehind behind, Lit marker, Ahead (Alt (NCls [CWord]) Eos)]"
  have re: "emphasis marker x behind = Seq (Grp 1 (Alt Bos (NCls [CWord]))) REST"
    by (simp add: emphasis_def REST_def)
  have g: "1 \<notin> set (groups REST)" by (simp add: REST_def PlusL_def)
  from exec_mem [OF assms] obtain p' s' where
    mem: "(p', s', c) \<in> set (rm (emphasis marker x behind) (p, s, []))" and s: "s = m @ s'" by blast
  from mem obtain st1 where 1: "st1 \<in> set (rm (Grp 1 (Alt Bos (NCls [CWord]))) (p, s, []))"
    and 2: "(p', s', c) \<in> set (rm REST st1)" unfolding re in_rm_Seq by blast
  obtain p1 s1 c1 where st1: "st1 = (p1, s1, c1)" by (cases st1)
  from rm_keeps [OF 2 [unfolded st1] g] have k: "capS 1 c = capS 1 c1" by (simp add: capS_def)
  from rm_eats [OF 2 [unfolded st1]] obtain m1 where m1: "s1 = m1 @ s'" by (auto simp: eats_def)
  from 1 st1 consider "s1 = s" "c1 = [(1, [])]" | y where "s = y # s1" "c1 = [(1, [y])]"
    by (auto split: if_splits list.splits)
  then show ?thesis
  proof cases
    case 1
    then have "capS 1 c1 = []" by (simp add: capS_def)
    with k show ?thesis by simp
  next
    case 2
    with s m1 have "m = y # m1" by simp
    moreover from 2 have "capS 1 c1 = [y]" by (simp add: capS_def)
    ultimately show ?thesis using k by simp
  qed
qed

lemma calm_emphasis:
  assumes "prefix ''<'' opening" "singleLine opening" "singleLine closing"
  shows "calm (gsub (emphasis marker x behind) (wrap2 opening closing))"
proof (rule calm_gsub)
  fix p s m c
  assume "exec (emphasis marker x behind) p s = Some (m, c)"
  from emphasis_cap1 [OF this] assms(1) show "tame m (wrap2 opening closing m c)"
    by (auto simp: tame_def wrap2_def prefix_def)
next
  show "singleLine (wrap2 opening closing m c)" if "\<forall>kv\<in>set c. singleLine (snd kv)" for m c
    using assms(2,3) capS_singleLine [OF that] by (simp add: wrap2_def)
qed

lemma DQ_line [simp]: "\<not> isLineTerminator DQ"
  by (simp add: isLineTerminator_def DQ_def)

lemma calm_autolink: "calm (gsub r autolink)"
proof (rule calm_gsub)
  show "tame m (autolink m c)" for m c by (simp add: tame_def autolink_def)
  show "singleLine (autolink m c)" if "\<forall>kv\<in>set c. singleLine (snd kv)" for m c
    using capS_singleLine [OF that] by (simp add: autolink_def isLineTerminator_def)
qed

lemma calm_hr: "calm (gsub r (\<lambda>m c. ''<hr>''))"
  by (rule calm_gsub) (simp_all add: tame_def isLineTerminator_def)

lemma calm_inlinePatterns: "calm inlinePatterns"
proof -
  have "\<forall>rf\<in>set patterns. calm (gsub (fst rf) (snd rf))"
    unfolding patterns_def
    by (simp add: calm_wrap1 calm_emphasis calm_autolink calm_hr isLineTerminator_def)
  from calm_fold [OF this] show ?thesis by (simp add: inlinePatterns_def [abs_def])
qed

lemma singleLine_titleAttr: "\<forall>kv\<in>set c. singleLine (snd kv) \<Longrightarrow> singleLine (titleAttr c)"
  using capS_singleLine [of c 3] by (simp add: titleAttr_def isLineTerminator_def DQ_def)

lemma calm_images: "calm images"
  unfolding images_def [abs_def]
proof (rule calm_gsub)
  show "tame m (image m c)" for m c by (simp add: tame_def image_def)
  show "singleLine (image m c)" if "\<forall>kv\<in>set c. singleLine (snd kv)" for m c
    using capS_singleLine [OF that] singleLine_titleAttr [OF that]
    by (simp add: image_def isLineTerminator_def DQ_def)
qed

lemma calm_links: "calm links"
  unfolding links_def [abs_def]
proof (rule calm_gsub)
  show "tame m (link m c)" for m c by (simp add: tame_def link_def)
  show "singleLine (link m c)" if "\<forall>kv\<in>set c. singleLine (snd kv)" for m c
    using capS_singleLine [OF that] singleLine_titleAttr [OF that]
    by (simp add: link_def isLineTerminator_def DQ_def)
qed

lemma split_single: "d \<notin> set s \<Longrightarrow> split d s = [s]"
  by (induction s) (auto split: list.splits)

lemma split_set: "l \<in> set (split d s) \<Longrightarrow> set l \<subseteq> set s"
proof (induction s arbitrary: l)
  case Nil
  then show ?case by simp
next
  case (Cons x xs)
  show ?case
  proof (cases "x = d")
    case True
    with Cons show ?thesis by auto
  next
    case False
    obtain h t where ht: "split d xs = h # t" by (cases "split d xs") (cases xs, auto split: if_splits list.splits)
    with Cons.prems False have "l = x # h \<or> l \<in> set t" by simp
    with Cons.IH [of h] Cons.IH [of l] ht show ?thesis by auto
  qed
qed

lemma trimEnd_prefix: "prefix (trimEnd s) s"
proof -
  have "rev s = takeWhile isSpace (rev s) @ dropWhile isSpace (rev s)" by simp
  then have "s = rev (dropWhile isSpace (rev s)) @ rev (takeWhile isSpace (rev s))"
    by (metis rev_append rev_rev_ident)
  then show ?thesis unfolding trimEnd_def prefix_def by blast
qed

lemma set_trimEnd: "set (trimEnd s) \<subseteq> set s"
  using set_mono_prefix [OF trimEnd_prefix] .

lemma set_trimStart: "set (trimStart s) \<subseteq> set s"
  unfolding trimStart_def by (rule set_dropWhileD [THEN subsetI]) 

lemma set_trim: "set (trim s) \<subseteq> set s"
  unfolding trim_def using set_trimEnd [of "trimStart s"] set_trimStart [of s] by blast

lemma singleLine_trimEnd: "singleLine s \<Longrightarrow> singleLine (trimEnd s)"
  by (rule singleLine_subset [OF _ set_trimEnd])

lemma singleLine_trimStart: "singleLine s \<Longrightarrow> singleLine (trimStart s)"
  by (rule singleLine_subset [OF _ set_trimStart])

lemma singleLine_trim: "singleLine s \<Longrightarrow> singleLine (trim s)"
  by (rule singleLine_subset [OF _ set_trim])

lemma singleLine_NL: "singleLine s \<Longrightarrow> NL \<notin> set s"
  by (auto simp: singleLine_def isLineTerminator_def NL_def)

lemma singleLine_concat: "\<forall>l\<in>set ls. singleLine l \<Longrightarrow> singleLine (concat ls)"
  by (induction ls) simp_all

text \<open>The parts of a first match come from the text.\<close>

lemma search_set:
  "search r p s = Some (p', m, c, aft) \<Longrightarrow>
   set p' \<subseteq> set p \<union> set s \<and> set m \<subseteq> set s \<and> set aft \<subseteq> set s
   \<and> (\<forall>kv\<in>set c. set (snd kv) \<subseteq> set s)"
proof (induction s arbitrary: p)
  case Nil
  then obtain "exec r p [] = Some (m, c)" "p' = p" "aft = []"
    by (auto split: option.splits)
  with exec_sound [of r p "[]" m c] show ?case by (auto simp: capsFrom_def)
next
  case (Cons x xs)
  show ?case
  proof (cases "exec r p (x # xs)")
    case None
    with Cons.prems have "search r (x # p) xs = Some (p', m, c, aft)" by simp
    from Cons.IH [OF this] show ?thesis by auto
  next
    case (Some mc)
    obtain m' c' where mc: "mc = (m', c')" by (cases mc)
    with Cons.prems Some have e: "m' = m" "c' = c" "p' = p" "aft = drop (length m) (x # xs)" by auto
    from exec_sound [OF Some [unfolded mc e]] have "prefix m (x # xs)"
      "\<forall>kv\<in>set c. set (snd kv) \<subseteq> set (x # xs)" by (auto simp: capsFrom_def)
    with set_mono_prefix [of m "x # xs"] e set_drop_subset [of "length m" "x # xs"] show ?thesis
      by auto
  qed
qed

lemma replace_first_singleLine:
  "singleLine s \<Longrightarrow> singleLine t \<Longrightarrow> singleLine (replace_first r t s)"
proof (cases "search r [] s")
  case None
  then show "singleLine s \<Longrightarrow> singleLine (replace_first r t s)" by (simp add: replace_first_def)
next
  case (Some x)
  obtain p m c aft where x: "x = (p, m, c, aft)" by (cases x)
  assume "singleLine s" "singleLine t"
  with search_set [OF Some [unfolded x]] show "singleLine (replace_first r t s)"
    by (auto simp: replace_first_def Some x singleLine_def)
qed

lemma match_set:
  "match r s = Some (m, c) \<Longrightarrow> set m \<subseteq> set s \<and> (\<forall>kv\<in>set c. set (snd kv) \<subseteq> set s)"
proof -
  assume "match r s = Some (m, c)"
  then obtain p aft where "search r [] s = Some (p, m, c, aft)"
    by (auto simp: match_def split: option.splits)
  from search_set [OF this] show ?thesis by blast
qed

text \<open>A pattern that starts with \<open>^\<close> and has no m flag matches at the start only.\<close>

lemma replace_first_anchored:
  assumes "\<And>p s c. p \<noteq> [] \<Longrightarrow> rm r (p, s, c) = []"
  shows "replace_first r t s =
           (case exec r [] s of None \<Rightarrow> s | Some (m, c) \<Rightarrow> t @ drop (length m) s)"
  using search_anchored [OF assms]
  by (cases s) (auto simp: replace_first_def split: option.splits)

subsection \<open>Indentation\<close>

lemma trimIndentLine_calm:
  "quoteDepth (trimIndentLine s) = quoteDepth s \<and> (singleLine s \<longrightarrow> singleLine (trimIndentLine s))"
proof (cases "exec LEADING_SPACE_RE [] s")
  case None
  have "\<And>p s c. p \<noteq> [] \<Longrightarrow> rm LEADING_SPACE_RE (p, s, c) = []"
    by (simp add: LEADING_SPACE_RE_def)
  from replace_first_anchored [OF this, of "[]" s] None
  have "replace_first LEADING_SPACE_RE [] s = s" by simp
  then show ?thesis by (simp add: trimIndentLine_def)
next
  case (Some mc)
  obtain m c where mc: "mc = (m, c)" by (cases mc)
  have "\<And>p s c. p \<noteq> [] \<Longrightarrow> rm LEADING_SPACE_RE (p, s, c) = []"
    by (simp add: LEADING_SPACE_RE_def)
  from replace_first_anchored [OF this, of "[]" s] Some mc
  have r: "replace_first LEADING_SPACE_RE [] s = drop (length m) s" by simp
  from exec_sound [OF Some [unfolded mc]] obtain aft where
    s: "s = m @ aft" and sp: "\<forall>ch\<in>set m. isSpace ch"
    by (auto simp: prefix_def LEADING_SPACE_RE_def Plus_def)
  from s have d: "drop (length m) s = aft" by simp
  have "quoteDepth (drop (length m) s) = quoteDepth s"
    using quoteDepth_spaces [OF sp, of aft] s d by simp
  moreover have "singleLine s \<longrightarrow> singleLine (drop (length m) s)"
    using s d by auto
  ultimately show ?thesis unfolding trimIndentLine_def r by simp
qed

lemma calm_trimIndentation: "calm trimIndentation"
proof (rule calmI)
  fix s
  assume sl: "singleLine s"
  from split_single [OF singleLine_NL [OF sl]]
  have t: "trimIndentation s = trimIndentLine s" by (simp add: trimIndentation_def)
  from trimIndentLine_calm [of s] sl show "singleLine (trimIndentation s)" by (simp add: t)
  from trimIndentLine_calm [of s] show "quoteDepth (trimIndentation s) \<le> quoteDepth s"
    by (simp add: t)
qed

subsection \<open>Checkbox lists\<close>

lemma singleLine_checkboxItem: "singleLine line \<Longrightarrow> singleLine (checkboxItem line)"
  using replace_first_singleLine [of line "[]" CHECKBOX_PREFIX_RE]
  by (simp add: checkboxItem_def Let_def isLineTerminator_def)

lemma singleLine_checkboxBlock:
  assumes "singleLine block"
  shows "singleLine (checkboxBlock block)"
proof -
  have "singleLine l" if "l \<in> set (split NL (trim block))" for l
    using split_set [OF that] singleLine_subset [OF singleLine_trim [OF assms]] by blast
  then have "singleLine (concat (map checkboxItem (split NL (trim block))))"
    by (intro singleLine_concat) (auto intro: singleLine_checkboxItem)
  then show ?thesis by (simp add: checkboxBlock_def isLineTerminator_def)
qed

lemma calm_checkboxLists: "calm checkboxLists"
  unfolding checkboxLists_def [abs_def]
proof (rule calm_gsub)
  show "tame m (checkboxBlock m)" for m by (simp add: tame_def checkboxBlock_def)
  show "singleLine (checkboxBlock m)" if "singleLine m" for m
    by (rule singleLine_checkboxBlock [OF that])
qed

subsection \<open>Nested lists\<close>

lemma toEnd_SeqL: "toEnd a \<Longrightarrow> toEnd (Seq a b)"
  unfolding toEnd_def
proof (intro allI impI)
  fix p s c p' s' c'
  assume a: "\<forall>p s c p' s' c'. (p', s', c') \<in> set (rm a (p, s, c)) \<longrightarrow> singleLine s \<longrightarrow> s' = []"
    and mem: "(p', s', c') \<in> set (rm (Seq a b) (p, s, c))" and sl: "singleLine s"
  from mem obtain st1 where 1: "st1 \<in> set (rm a (p, s, c))" and 2: "(p', s', c') \<in> set (rm b st1)"
    unfolding in_rm_Seq by blast
  obtain p1 s1 c1 where st1: "st1 = (p1, s1, c1)" by (cases st1)
  from a 1 st1 sl have "s1 = []" by blast
  with eats_length [OF rm_eats [OF 2 [unfolded st1]]] show "s' = []" by simp
qed

lemma toEnd_SeqR: "toEnd b \<Longrightarrow> toEnd (Seq a b)"
  unfolding toEnd_def
proof (intro allI impI)
  fix p s c p' s' c'
  assume b: "\<forall>p s c p' s' c'. (p', s', c') \<in> set (rm b (p, s, c)) \<longrightarrow> singleLine s \<longrightarrow> s' = []"
    and mem: "(p', s', c') \<in> set (rm (Seq a b) (p, s, c))" and sl: "singleLine s"
  from mem obtain st1 where 1: "st1 \<in> set (rm a (p, s, c))" and 2: "(p', s', c') \<in> set (rm b st1)"
    unfolding in_rm_Seq by blast
  obtain p1 s1 c1 where st1: "st1 = (p1, s1, c1)" by (cases st1)
  from eats_set [OF rm_eats [OF 1 [unfolded st1]]] sl have "singleLine s1"
    by (rule singleLine_subset [rotated])
  with b 2 st1 show "s' = []" by blast
qed

lemma toEnd_Grp: "toEnd a \<Longrightarrow> toEnd (Grp n a)"
  unfolding toEnd_def
proof (intro allI impI)
  fix p s c p' s' c'
  assume a: "\<forall>p s c p' s' c'. (p', s', c') \<in> set (rm a (p, s, c)) \<longrightarrow> singleLine s \<longrightarrow> s' = []"
    and mem: "(p', s', c') \<in> set (rm (Grp n a) (p, s, c))" and sl: "singleLine s"
  from mem obtain c0 where "(p', s', c0) \<in> set (rm a (p, s, c))" by auto
  with a sl show "s' = []" by blast
qed

lemma toEnd_line_end: "toEnd (Alt (Lit [NL]) Eol)"
  unfolding toEnd_def
proof (intro allI impI)
  fix p s c p' s' c'
  assume mem: "(p', s', c') \<in> set (rm (Alt (Lit [NL]) Eol) (p, s, c))" and sl: "singleLine s"
  have "\<not> prefix [NL] s" using singleLine_NL [OF sl] by (auto simp: prefix_def)
  with mem have "s' = s" "s = [] \<or> isLineTerminator (hd s)" by (auto split: if_splits)
  with sl show "s' = []" by (cases s) auto
qed

lemma toEnd_LIST_BLOCK_RE: "toEnd LIST_BLOCK_RE"
  unfolding LIST_BLOCK_RE_def Plus_def Cat.simps
  apply (rule toEnd_Grp)
  apply (rule toEnd_SeqL)
  apply (rule toEnd_SeqR)+
  apply (rule toEnd_line_end)
  done

lemma anchored_LIST_BLOCK_RE: "anchored LIST_BLOCK_RE"
  by (simp add: anchored_def LIST_BLOCK_RE_def Plus_def)

lemma closeAll_singleLine: "singleLine html \<Longrightarrow> singleLine (fst (closeAll (html, stack)))"
proof (induction "(html, stack)" arbitrary: html stack rule: closeAll.induct)
  case (1 html stack)
  show ?case
  proof (cases "stack \<noteq> []")
    case True
    have "singleLine (html @ ''</li></'' @ tagOf (type (last stack)) @ ''>'')"
      using 1(2) by (cases "type (last stack)") (simp_all add: isLineTerminator_def)
    from 1(1) [OF True this] True show ?thesis by (subst closeAll.simps) simp
  next
    case False
    with 1(2) show ?thesis by (subst closeAll.simps) simp
  qed
qed

lemma closeDeeper_Nil: "closeDeeper ind (html, []) = (html, [])"
  by (subst closeDeeper.simps) simp

lemma listBlock_line:
  assumes "singleLine s"
  shows "singleLine (listBlock s) \<and> (listBlock s = [] \<or> hd (listBlock s) = CHR ''<'')"
proof -
  let ?l = "trimEnd s"
  let ?f = "\<lambda>m c. ''<li value=\"'' @ capS 1 c @ ''\">''"
  have sl: "singleLine ?l" by (rule singleLine_trimEnd [OF assms])
  have lines: "split NL (trimEnd s) = [?l]" by (rule split_single [OF singleLine_NL [OF sl]])
  define html where "html = fst (closeAll (listLine ([], []) ?l))"
  have lb: "listBlock s = gsub INDEX_SPAN_RE ?f html"
    by (simp add: listBlock_def lines html_def)
  have h: "singleLine html \<and> (html = [] \<or> hd html = CHR ''<'')"
  proof (cases "matchItem ?l")
    case None
    have "closeAll ([], []) = ([], [])" by (subst closeAll.simps) simp
    with None show ?thesis by (simp add: html_def listLine_def)
  next
    case (Some mc)
    obtain m c where mc: "mc = (m, c)" by (cases mc)
    from Some mc have "match ITEM_DOT_RE ?l = Some (m, c) \<or> match ITEM_BULLET_RE ?l = Some (m, c)"
      by (auto simp: matchItem_def split: option.splits)
    with match_set have "\<forall>kv\<in>set c. set (snd kv) \<subseteq> set ?l" by blast
    with sl have caps: "\<forall>kv\<in>set c. singleLine (snd kv)" by (auto simp: singleLine_def)
    define ty where "ty = (if test ALL_DIGITS_RE (capS 2 c) then Ol else Ul)"
    define body where "body = ''<'' @ tagOf ty @ ''><li>''
        @ (if ty = Ol then indexSpan (capS 2 c) @ capS 3 c else capS 3 c)"
    have ll: "listLine ([], []) ?l = (body, [\<lparr>indent = length (capS 1 c), type = ty\<rparr>])"
      using Some mc by (simp add: listLine_def closeDeeper_Nil Let_def ty_def body_def)
    have b1: "singleLine body"
      using capS_singleLine [OF caps]
      by (cases ty) (simp_all add: body_def indexSpan_def isLineTerminator_def)
    have b2: "body \<noteq> [] \<and> hd body = CHR ''<''" by (simp add: body_def)
    from closeAll_appends [of body "[\<lparr>indent = length (capS 1 c), type = ty\<rparr>]"] obtain h where
      "html = body @ h" by (auto simp: html_def ll)
    with b2 closeAll_singleLine [OF b1, of "[\<lparr>indent = length (capS 1 c), type = ty\<rparr>]"]
    show ?thesis by (auto simp: html_def ll)
  qed
  have 1: "singleLine (listBlock s)"
    unfolding lb
  proof (rule gsub_singleLine)
    show "singleLine html" using h by simp
    show "singleLine (?f m c)" if "\<forall>kv\<in>set c. singleLine (snd kv)" for m c
      using capS_singleLine [OF that] by (simp add: isLineTerminator_def)
  qed
  have 2: "listBlock s = [] \<or> hd (listBlock s) = CHR ''<''"
  proof (cases html)
    case Nil
    then show ?thesis unfolding lb gsub_render by (cases "exec INDEX_SPAN_RE [] []") auto
  next
    case (Cons x xs)
    with h have "x = CHR ''<''" by simp
    then show ?thesis unfolding lb gsub_render Cons
      by (cases "exec INDEX_SPAN_RE [] (CHR ''<'' # xs)") (auto split: if_splits)
  qed
  from 1 2 show ?thesis by simp
qed

lemma calm_nestedLists: "calm nestedLists"
proof -
  have "singleLine (nestedLists s) \<and> cutAt s (nestedLists s)" if sl: "singleLine s" for s
  proof (cases "exec LIST_BLOCK_RE [] s")
    case None
    with gsub_anchored [OF anchored_LIST_BLOCK_RE sl] sl show ?thesis
      by (simp add: nestedLists_def cutAt_refl)
  next
    case (Some mc)
    obtain m c where mc: "mc = (m, c)" by (cases mc)
    from exec_mem [OF Some [unfolded mc]] obtain p' s' where
      mem: "(p', s', c) \<in> set (rm LIST_BLOCK_RE ([], s, []))" and s: "s = m @ s'" by blast
    from toEnd_LIST_BLOCK_RE mem sl have "s' = []" unfolding toEnd_def by blast
    with s have m: "m = s" by simp
    from gsub_anchored [OF anchored_LIST_BLOCK_RE sl] Some mc m
    have "nestedLists s = listBlock s" by (simp add: nestedLists_def)
    with listBlock_line [OF sl] show ?thesis by (auto intro: cutAt_tag)
  qed
  then show ?thesis by (auto intro!: calmI quoteDepth_cutAt)
qed

subsection \<open>Placeholders\<close>

lemma digit_char_digit: "d < 10 \<Longrightarrow> isDigit (digit_char d)"
  by (simp add: isDigit_def inRange_def digit_char_def)

lemma show_nat_digits: "\<forall>ch\<in>set (show_nat n). isDigit ch"
proof (induction n rule: show_nat.induct)
  case (1 n)
  show ?case
  proof (cases "n < 10")
    case True
    then show ?thesis by (subst show_nat.simps) (simp add: digit_char_digit)
  next
    case False
    with 1 show ?thesis by (subst show_nat.simps) (simp add: digit_char_digit)
  qed
qed

lemma digit_line: "isDigit ch \<Longrightarrow> \<not> isLineTerminator ch"
  by (auto simp: isDigit_def inRange_def isLineTerminator_def)

lemma singleLine_show_nat [simp]: "singleLine (show_nat n)"
  using show_nat_digits [of n] by (auto simp: singleLine_def digit_line)

lemma singleLine_escapedPlaceholder [simp]: "singleLine (escapedPlaceholder k)"
  by (simp add: escapedPlaceholder_def isLineTerminator_def)

lemma singleLine_codeblockPlaceholder [simp]: "singleLine (codeblockPlaceholder k)"
  by (simp add: codeblockPlaceholder_def isLineTerminator_def)

lemma singleLine_inlinecodePlaceholder [simp]: "singleLine (inlinecodePlaceholder k)"
  by (simp add: inlinecodePlaceholder_def isLineTerminator_def)

subsection \<open>Escaped characters\<close>

lemma escapeMatches_cutAt: "cutAt s (fst (escapeMatches (gsegs r p s 0) k))"
proof (induction s arbitrary: p k)
  case Nil
  show ?case
  proof (cases "exec r p []")
    case None
    then show ?thesis by (simp add: cutAt_refl)
  next
    case (Some mc)
    obtain m c where mc: "mc = (m, c)" by (cases mc)
    show ?thesis using Some mc
      by (auto simp: escapedPlaceholder_def intro!: cutAt_tag)
  qed
next
  case (Cons x xs)
  show ?case
  proof (cases "exec r p (x # xs)")
    case None
    with Cons [of "x # p" k] show ?thesis by (auto simp: cutAt_Cons split: prod.splits)
  next
    case (Some mc)
    obtain m c where mc: "mc = (m, c)" by (cases mc)
    show ?thesis using Some mc
      by (auto simp: escapedPlaceholder_def split: prod.splits intro!: cutAt_tag)
  qed
qed

lemma escapeMatches_singleLine:
  "\<forall>seg\<in>set segs. case seg of Inl x \<Rightarrow> \<not> isLineTerminator x
           | Inr (m, c) \<Rightarrow> singleLine m \<and> (\<forall>kv\<in>set c. singleLine (snd kv))
   \<Longrightarrow> singleLine (fst (escapeMatches segs k))"
proof (induction segs arbitrary: k)
  case Nil
  show ?case by simp
next
  case (Cons seg segs)
  show ?case
  proof (cases seg)
    case (Inl x)
    with Cons.prems Cons.IH [of k] show ?thesis by (auto split: prod.splits)
  next
    case (Inr mc)
    obtain m c where mc: "mc = (m, c)" by (cases mc)
    with Inr Cons.prems Cons.IH [of "Suc k"] show ?thesis by (auto split: prod.splits)
  qed
qed

lemma calm_escapePass: "calm (\<lambda>s. fst (escapePass s))"
proof (rule calmI)
  show "singleLine (fst (escapePass s))" if "singleLine s" for s
    unfolding escapePass_def by (rule escapeMatches_singleLine [OF gsegs_singleLine [OF that]])
  show "quoteDepth (fst (escapePass s)) \<le> quoteDepth s" for s
    unfolding escapePass_def by (rule quoteDepth_cutAt [OF escapeMatches_cutAt])
qed

subsection \<open>parseBackticks\<close>

lemma find_sub_set: "find_sub w p s = Some (b, a) \<Longrightarrow> set a \<subseteq> set s"
proof (induction w p s rule: find_sub.induct)
  case (1 w p)
  then show ?case by (auto split: if_splits)
next
  case (2 w p x xs)
  show ?case
  proof (cases "prefix w (x # xs)")
    case True
    with 2(2) have "a = drop (length w) (x # xs)" by simp
    then show ?thesis using set_drop_subset [of "length w" "x # xs"] by simp
  next
    case False
    with 2 show ?thesis by auto
  qed
qed

lemma upTo_set: "set (snd (upTo w s)) \<subseteq> set s"
  by (auto simp: upTo_def split: option.splits dest: find_sub_set)

lemma skipChar_set: "set (skipChar d s) \<subseteq> set s"
  by (auto simp: skipChar_def split: list.splits if_splits)

lemma parseBackticks_from_calm:
  "\<exists>X. out (parseBackticks_from esc src t) = out t @ X \<and> cutAt src X
       \<and> (singleLine src \<longrightarrow> singleLine X)"
proof (induction esc src t rule: parseBackticks_from.induct)
  case (1 esc src t)
  show ?case
  proof (cases "src = []")
    case True
    then have "out (parseBackticks_from esc src t) = out t @ []"
      by (subst parseBackticks_from.simps) simp
    with True show ?thesis by (intro exI [of _ "[]"]) (simp add: cutAt_refl)
  next
    case ne: False
    show ?thesis
    proof (cases "prefix ''```'' src")
      case True
      define src' where "src' = snd (upTo ''```'' (skipChar NL (skipChar CR
        (dropWhile (\<lambda>c. \<not> isSpace c) (drop 3 src)))))"
      define t' where "t' = t\<lparr>out := out t @ codeblockPlaceholder (codeIndex t),
                 codeBlocks := codeBlocks t @ [(codeblockPlaceholder (codeIndex t),
                   codeBlockHtml esc (takeWhile (\<lambda>c. \<not> isSpace c) (drop 3 src))
                     (fst (upTo ''```'' (skipChar NL (skipChar CR
                        (dropWhile (\<lambda>c. \<not> isSpace c) (drop 3 src)))))))],
                 codeIndex := Suc (codeIndex t)\<rparr>"
      have eq: "parseBackticks_from esc src t = parseBackticks_from esc src' t'"
        using ne True by (subst parseBackticks_from.simps) (simp add: Let_def src'_def t'_def)
      from 1(1) [OF ne True refl refl refl refl refl] obtain X where
        X: "out (parseBackticks_from esc src' t') = out t' @ X" "cutAt src' X"
           "singleLine src' \<longrightarrow> singleLine X"
        unfolding src'_def t'_def by blast
      have sub: "set src' \<subseteq> set src"
        unfolding src'_def
        using upTo_set skipChar_set set_dropWhileD set_drop_subset
        by (meson in_set_dropD subset_iff)
      have "out (parseBackticks_from esc src t) = out t @ (codeblockPlaceholder (codeIndex t) @ X)"
        using X(1) by (simp add: eq t'_def)
      moreover have "cutAt src (codeblockPlaceholder (codeIndex t) @ X)"
        by (rule cutAt_tag) (simp add: codeblockPlaceholder_def)
      moreover have "singleLine src \<longrightarrow> singleLine (codeblockPlaceholder (codeIndex t) @ X)"
        using X(3) sub by (auto intro: singleLine_subset)
      ultimately show ?thesis by blast
    next
      case nf: False
      show ?thesis
      proof (cases "prefix ''``'' src")
        case True
        define src' where "src' = snd (upTo ''``'' (drop 2 src))"
        define t' where "t' = t\<lparr>out := out t @ inlinecodePlaceholder (inlineIndex t),
                 inlineCodeBlocks := inlineCodeBlocks t @ [(inlinecodePlaceholder (inlineIndex t),
                    fst (upTo ''``'' (drop 2 src)))],
                 inlineIndex := Suc (inlineIndex t)\<rparr>"
        have eq: "parseBackticks_from esc src t = parseBackticks_from esc src' t'"
          using ne nf True by (subst parseBackticks_from.simps) (simp add: Let_def src'_def t'_def)
        from 1(2) [OF ne nf True refl refl] obtain X where
          X: "out (parseBackticks_from esc src' t') = out t' @ X" "cutAt src' X"
             "singleLine src' \<longrightarrow> singleLine X"
          unfolding src'_def t'_def by blast
        have sub: "set src' \<subseteq> set src"
          unfolding src'_def using upTo_set set_drop_subset by (meson subset_trans)
        have "out (parseBackticks_from esc src t) = out t @ (inlinecodePlaceholder (inlineIndex t) @ X)"
          using X(1) by (simp add: eq t'_def)
        moreover have "cutAt src (inlinecodePlaceholder (inlineIndex t) @ X)"
          by (rule cutAt_tag) (simp add: inlinecodePlaceholder_def)
        moreover have "singleLine src \<longrightarrow> singleLine (inlinecodePlaceholder (inlineIndex t) @ X)"
          using X(3) sub by (auto intro: singleLine_subset)
        ultimately show ?thesis by blast
      next
        case nd: False
        show ?thesis
        proof (cases "hd src = BT")
          case True
          define src' where "src' = drop 1 (dropWhile (\<lambda>c. c \<noteq> BT) (tl src))"
          define t' where "t' = t\<lparr>out := out t @ inlinecodePlaceholder (inlineIndex t),
                 inlineCodeBlocks := inlineCodeBlocks t @ [(inlinecodePlaceholder (inlineIndex t),
                    takeWhile (\<lambda>c. c \<noteq> BT) (tl src))],
                 inlineIndex := Suc (inlineIndex t)\<rparr>"
          have eq: "parseBackticks_from esc src t = parseBackticks_from esc src' t'"
            using ne nf nd True
            by (subst parseBackticks_from.simps) (simp add: Let_def src'_def t'_def)
          from 1(3) [OF ne nf nd True refl refl] obtain X where
            X: "out (parseBackticks_from esc src' t') = out t' @ X" "cutAt src' X"
               "singleLine src' \<longrightarrow> singleLine X"
            unfolding src'_def t'_def by blast
          have "set src' \<subseteq> set (tl src)"
            unfolding src'_def
            using set_drop_subset [of 1 "dropWhile (\<lambda>c. c \<noteq> BT) (tl src)"]
              set_dropWhileD [of _ "\<lambda>c. c \<noteq> BT" "tl src"] by blast
          with ne have sub: "set src' \<subseteq> set src" by (cases src) auto
          have "out (parseBackticks_from esc src t) = out t @ (inlinecodePlaceholder (inlineIndex t) @ X)"
            using X(1) by (simp add: eq t'_def)
          moreover have "cutAt src (inlinecodePlaceholder (inlineIndex t) @ X)"
            by (rule cutAt_tag) (simp add: inlinecodePlaceholder_def)
          moreover have "singleLine src \<longrightarrow> singleLine (inlinecodePlaceholder (inlineIndex t) @ X)"
            using X(3) sub by (auto intro: singleLine_subset)
          ultimately show ?thesis by blast
        next
          case nb: False
          from ne obtain x xs where src: "src = x # xs" by (cases src) auto
          define t' where "t' = t\<lparr>out := out t @ [hd src]\<rparr>"
          have eq: "parseBackticks_from esc src t = parseBackticks_from esc (tl src) t'"
            using ne nf nd nb by (subst parseBackticks_from.simps) (simp add: t'_def)
          from 1(4) [OF ne nf nd nb] obtain X where
            X: "out (parseBackticks_from esc (tl src) t') = out t' @ X" "cutAt (tl src) X"
               "singleLine (tl src) \<longrightarrow> singleLine X"
            unfolding t'_def by blast
          have "out (parseBackticks_from esc src t) = out t' @ X"
            unfolding eq by (rule X(1))
          then have "out (parseBackticks_from esc src t) = out t @ (x # X)"
            by (simp add: t'_def src)
          moreover have "cutAt src (x # X)" using X(2) by (simp add: src cutAt_Cons)
          moreover have "singleLine src \<longrightarrow> singleLine (x # X)" using X(3) by (simp add: src)
          ultimately show ?thesis by blast
        qed
      qed
    qed
  qed
qed

lemma calm_parseBackticks: "calm (\<lambda>s. out (parseBackticks esc s))"
proof (rule calmI)
  fix s
  from parseBackticks_from_calm [of esc s
      "\<lparr>out = [], codeBlocks = [], inlineCodeBlocks = [], codeIndex = 0, inlineIndex = 0\<rparr>"]
  obtain X where X: "out (parseBackticks esc s) = X" "cutAt s X" "singleLine s \<longrightarrow> singleLine X"
    by (auto simp: parseBackticks_def)
  show "singleLine (out (parseBackticks esc s))" if "singleLine s" using X that by simp
  show "quoteDepth (out (parseBackticks esc s)) \<le> quoteDepth s"
    using quoteDepth_cutAt [OF X(2)] X(1) by simp
qed

subsection \<open>The passes before the blockquotes\<close>

lemma calm_beforeQuotes: "calm beforeQuotes"
proof (rule calmI)
  fix s
  assume sl: "singleLine s"
  obtain md1 esc where e: "escapePass s = (md1, esc)" by (cases "escapePass s")
  define a where "a = out (parseBackticks esc md1)"
  define b where "b = nestedLists (checkboxLists (trimIndentation a))"
  have bq: "beforeQuotes s = links (images (inlinePatterns b))"
    by (simp add: beforeQuotes_def e a_def b_def)
  from calmD [OF calm_escapePass sl] e have 1: "singleLine md1" "quoteDepth md1 \<le> quoteDepth s"
    by simp_all
  from calmD [OF calm_parseBackticks 1(1), of esc] 1(2)
  have 2: "singleLine a" "quoteDepth a \<le> quoteDepth s" by (simp_all add: a_def)
  from calmD [OF calm_trimIndentation 2(1)] 2(2)
  have 3: "singleLine (trimIndentation a)" "quoteDepth (trimIndentation a) \<le> quoteDepth s"
    by simp_all
  from calmD [OF calm_checkboxLists 3(1)] 3(2)
  have 4: "singleLine (checkboxLists (trimIndentation a))"
    "quoteDepth (checkboxLists (trimIndentation a)) \<le> quoteDepth s" by simp_all
  from calmD [OF calm_nestedLists 4(1)] 4(2)
  have 5: "singleLine b" "quoteDepth b \<le> quoteDepth s" by (simp_all add: b_def)
  from calmD [OF calm_inlinePatterns 5(1)] 5(2)
  have 6: "singleLine (inlinePatterns b)" "quoteDepth (inlinePatterns b) \<le> quoteDepth s"
    by simp_all
  from calmD [OF calm_images 6(1)] 6(2)
  have 7: "singleLine (images (inlinePatterns b))"
    "quoteDepth (images (inlinePatterns b)) \<le> quoteDepth s" by simp_all
  from calmD [OF calm_links 7(1)] 7(2)
  show "singleLine (beforeQuotes s)" "quoteDepth (beforeQuotes s) \<le> quoteDepth s"
    by (simp_all add: bq)
qed

lemma markdownToHtml_returns:
  "(\<exists>r. markdownToHtml (Suc d) md = Some r)
     = (\<exists>r. blockquotes (markdownToHtml d) (beforeQuotes md) = Some r)"
  by (auto simp: markdownToHtml.simps beforeQuotes_def Let_def split: prod.splits option.splits)

subsection \<open>Rendering a quote\<close>

lemma renderQuote_total:
  "(\<forall>item\<in>set items. \<exists>h. f (content item) = Some h) \<longrightarrow> (\<exists>r. renderQuote f items lv = Some r)"
  "(\<forall>item\<in>set items. \<exists>h. f (content item) = Some h) \<longrightarrow> (\<exists>rs. quoteItems f items lv = Some rs)"
proof (induction f items lv and f items lv rule: renderQuote_quoteItems.induct)
  case (1 md2html items lv)
  then show ?case by (auto simp: renderQuote.simps split: option.splits)
next
  case (2 md2html lv)
  then show ?case by simp
next
  case (3 md2html item others lv)
  show ?case
  proof
    assume a: "\<forall>x\<in>set (item # others). \<exists>h. md2html (content x) = Some h"
    then obtain h where h: "md2html (content item) = Some h" by auto
    from a have o: "\<forall>x\<in>set others. \<exists>h. md2html (content x) = Some h" by simp
    show "\<exists>rs. quoteItems md2html (item # others) lv = Some rs"
    proof (cases "isQuote item")
      case False
      with 3(1) [OF False h] o h show ?thesis by auto
    next
      case q: True
      show ?thesis
      proof (cases "level item = lv")
        case True
        have "\<exists>h'. (if content item = [] then Some ''<br>'' else md2html (content item)) = Some h'"
          using h by simp
        then obtain h' where
          h': "(if content item = [] then Some ''<br>'' else md2html (content item)) = Some h'" ..
        from 3(2) [OF _ True h'] q o obtain rs where "quoteItems md2html others lv = Some rs"
          by auto
        with q True h' show ?thesis by simp
      next
        case nl: False
        show ?thesis
        proof (cases "level item > lv")
          case True
          have "\<forall>x\<in>set (item # takeWhile (inNested (level item)) others).
                  \<exists>h. md2html (content x) = Some h"
            using a by (auto dest: set_takeWhileD)
          with 3(3) q nl True obtain nestedHtml where
            n: "renderQuote md2html (item # takeWhile (inNested (level item)) others) (level item)
                  = Some nestedHtml" by auto
          have "\<forall>x\<in>set (dropWhile (inNested (level item)) others).
                  \<exists>h. md2html (content x) = Some h"
            using o by (auto dest: set_dropWhileD)
          with 3(4) [OF _ nl True n] q obtain rs where
            "quoteItems md2html (dropWhile (inNested (level item)) others) lv = Some rs" by auto
          with q nl True n show ?thesis by simp
        next
          case False
          with 3(5) q nl o obtain rs where "quoteItems md2html others lv = Some rs" by auto
          with q nl False show ?thesis by simp
        qed
      qed
    qed
  qed
qed

lemma those_total: "\<forall>x\<in>set xs. \<exists>y. g x = Some y \<Longrightarrow> \<exists>ys. those (map g xs) = Some ys"
  by (induction xs) auto

lemma blockquotes_total:
  assumes "\<And>raw c. Inr (raw, c) \<in> set (gsegs BLOCKQUOTE_RE [] md 0) \<Longrightarrow> \<exists>r. quoteBlock f raw = Some r"
  shows "\<exists>r. blockquotes f md = Some r"
proof -
  have "\<exists>ys. those (map (\<lambda>seg. case seg of Inl x \<Rightarrow> Some [x] | Inr (raw, c) \<Rightarrow> quoteBlock f raw)
                   (gsegs BLOCKQUOTE_RE [] md 0)) = Some ys"
  proof (rule those_total, rule ballI)
    fix seg
    assume mem: "seg \<in> set (gsegs BLOCKQUOTE_RE [] md 0)"
    show "\<exists>y. (case seg of Inl x \<Rightarrow> Some [x] | Inr (raw, c) \<Rightarrow> quoteBlock f raw) = Some y"
    proof (cases seg)
      case (Inl x)
      then show ?thesis by simp
    next
      case (Inr mc)
      obtain raw c where mc: "mc = (raw, c)" by (cases mc)
      from assms [of raw c] mem Inr mc show ?thesis by simp
    qed
  qed
  then show ?thesis by (auto simp: blockquotes_def)
qed

subsection \<open>The content of a quote line is less deep than the line\<close>

lemma quoteDepth_skipSpace: "quoteDepth (skipSpace s) = quoteDepth s"
  by (auto simp: skipSpace_def quoteDepth_space split: list.splits)

lemma quoteDepth_after: "quoteDepth (afterMarkers1 s) \<le> quoteDepth s"
proof (induction s rule: afterMarkers1.induct)
  case (1 s)
  show ?case
  proof (cases "prefix ''&gt;'' s")
    case True
    then obtain d where s: "s = ''&gt;'' @ d" by (auto simp: prefix_def)
    have "afterMarkers1 s = afterMarkers1 (skipSpace (drop 4 s))"
      using True by (subst afterMarkers1.simps) simp
    with 1 [OF True] have "quoteDepth (afterMarkers1 s) \<le> quoteDepth (drop 4 s)"
      by (simp add: quoteDepth_skipSpace)
    also have "\<dots> \<le> quoteDepth s" using quoteDepth_gt [of d] s by simp
    finally show ?thesis .
  next
    case False
    then show ?thesis by (subst afterMarkers1.simps) simp
  qed
qed

lemma quoteDepth_content:
  assumes "prefix ''&gt;'' s"
  shows "quoteDepth (trimStart (afterMarkers1 s)) < quoteDepth s"
proof -
  from assms obtain d where s: "s = ''&gt;'' @ d" by (auto simp: prefix_def)
  have "afterMarkers1 s = afterMarkers1 (skipSpace (drop 4 s))"
    using assms by (subst afterMarkers1.simps) simp
  with quoteDepth_after [of "skipSpace (drop 4 s)"]
  have "quoteDepth (afterMarkers1 s) \<le> quoteDepth d"
    by (simp add: quoteDepth_skipSpace s)
  with quoteDepth_gt [of d] s show ?thesis by simp
qed

subsection \<open>Where a quote block starts\<close>

lemma leads_Lit: "leads (Lit w) w"
  by (auto simp: leads_def prefix_def split: if_splits)

lemma leads_SeqL: "leads a w \<Longrightarrow> leads (Seq a b) w"
  unfolding leads_def
proof (intro allI impI)
  fix p s c p' s' c'
  assume a: "\<forall>p s c p' s' c'. (p', s', c') \<in> set (rm a (p, s, c))
               \<longrightarrow> (\<exists>t. s = w @ t \<and> length s' \<le> length t)"
    and mem: "(p', s', c') \<in> set (rm (Seq a b) (p, s, c))"
  from mem obtain st1 where 1: "st1 \<in> set (rm a (p, s, c))" and 2: "(p', s', c') \<in> set (rm b st1)"
    unfolding in_rm_Seq by blast
  obtain p1 s1 c1 where st1: "st1 = (p1, s1, c1)" by (cases st1)
  from a 1 st1 obtain t where "s = w @ t" "length s1 \<le> length t" by blast
  with eats_length [OF rm_eats [OF 2 [unfolded st1]]]
  show "\<exists>t. s = w @ t \<and> length s' \<le> length t" by auto
qed

lemma leads_Grp: "leads a w \<Longrightarrow> leads (Grp n a) w"
  unfolding leads_def
proof (intro allI impI)
  fix p s c p' s' c'
  assume a: "\<forall>p s c p' s' c'. (p', s', c') \<in> set (rm a (p, s, c))
               \<longrightarrow> (\<exists>t. s = w @ t \<and> length s' \<le> length t)"
    and mem: "(p', s', c') \<in> set (rm (Grp n a) (p, s, c))"
  from mem obtain c0 where "(p', s', c0) \<in> set (rm a (p, s, c))" by auto
  with a show "\<exists>t. s = w @ t \<and> length s' \<le> length t" by blast
qed

lemma leads_Bol: "leads b w \<Longrightarrow> leads (Seq Bol b) w"
  unfolding leads_def
proof (intro allI impI)
  fix p s c p' s' c'
  assume b: "\<forall>p s c p' s' c'. (p', s', c') \<in> set (rm b (p, s, c))
               \<longrightarrow> (\<exists>t. s = w @ t \<and> length s' \<le> length t)"
    and mem: "(p', s', c') \<in> set (rm (Seq Bol b) (p, s, c))"
  from mem have "(p', s', c') \<in> set (rm b (p, s, c))" by (auto split: if_splits)
  with b show "\<exists>t. s = w @ t \<and> length s' \<le> length t" by blast
qed

lemma leads_BLOCKQUOTE_RE: "leads BLOCKQUOTE_RE ''&gt;''"
  unfolding BLOCKQUOTE_RE_def Plus_def Cat.simps
  apply (rule leads_Bol)
  apply (rule leads_SeqL leads_Grp)+
  apply (rule leads_Lit)
  done

lemma exec_leads:
  assumes "leads r w" "exec r p s = Some (m, c)"
  shows "prefix w m"
proof -
  from exec_mem [OF assms(2)] obtain p' s' where
    mem: "(p', s', c) \<in> set (rm r (p, s, [])) \<and> s = m @ s'" by blast
  with assms(1) obtain t where "s = w @ t" "length s' \<le> length t" unfolding leads_def by blast
  with mem have e: "m @ s' = w @ t" and l: "length s' \<le> length t" by auto
  from arg_cong [OF e, of length] l have "length w \<le> length m" by simp
  with e show ?thesis by (metis append_eq_append_conv_if prefix_def append_take_drop_id)
qed

lemma anchored_BLOCKQUOTE_RE: "anchored BLOCKQUOTE_RE"
  by (simp add: anchored_def BLOCKQUOTE_RE_def Plus_def)

lemma prefix_trimEnd:
  assumes "prefix w s" "w \<noteq> []" "\<not> isSpace (last w)"
  shows "prefix w (trimEnd s)"
proof -
  from assms(1) obtain t where s: "s = w @ t" by (auto simp: prefix_def)
  from assms(2) obtain u x where w: "w = u @ [x]" by (cases w rule: rev_cases) auto
  with assms(3) have x: "\<not> isSpace x" by simp
  have "dropWhile isSpace (rev t @ x # rev u) = dropWhile isSpace (rev t) @ x # rev u"
    using x by (induction "rev t" arbitrary: t) (auto simp: dropWhile_append3)
  then have "trimEnd s = w @ rev (dropWhile isSpace (rev t))"
    unfolding trimEnd_def s w
    by (cases "dropWhile isSpace (rev t) = []")
       (auto simp: dropWhile_append dropWhile_eq_Nil_conv x)
  then show ?thesis by simp
qed

subsection \<open>A text of one line\<close>

lemma quoteDepth_mono: "prefix a b \<Longrightarrow> quoteDepth a \<le> quoteDepth b"
  by (auto simp: prefix_def quoteDepth_prefix)

lemma quoteBlock_line:
  assumes sl: "singleLine md" and ex: "exec BLOCKQUOTE_RE [] md = Some (raw, c)"
    and f: "\<And>x. singleLine x \<Longrightarrow> quoteDepth x < quoteDepth md \<Longrightarrow> \<exists>h. f x = Some h"
  shows "\<exists>r. quoteBlock f raw = Some r"
proof -
  let ?l = "trimEnd raw"
  from exec_sound [OF ex] have pr: "prefix raw md" by simp
  from exec_leads [OF leads_BLOCKQUOTE_RE ex] have gt: "prefix ''&gt;'' raw" .
  from pr sl have slr: "singleLine raw" by (auto simp: prefix_def)
  then have sll: "singleLine ?l" by (rule singleLine_trimEnd)
  have gtl: "prefix ''&gt;'' ?l" by (rule prefix_trimEnd [OF gt]) (simp_all add: isSpace_def)
  have lines: "split NL ?l = [?l]" by (rule split_single [OF singleLine_NL [OF sll]])
  have q: "quoteLine ?l = \<lparr>level = markers1 ?l, content = trimStart (afterMarkers1 ?l), isQuote = True\<rparr>"
    using quoteLine_spec [OF sll] gtl by simp
  have "quoteDepth (trimStart (afterMarkers1 ?l)) < quoteDepth ?l" by (rule quoteDepth_content [OF gtl])
  also have "\<dots> \<le> quoteDepth raw"
    by (rule quoteDepth_mono [OF trimEnd_prefix])
  also have "\<dots> \<le> quoteDepth md" by (rule quoteDepth_mono [OF pr])
  finally have d: "quoteDepth (trimStart (afterMarkers1 ?l)) < quoteDepth md" .
  have "singleLine (trimStart (afterMarkers1 ?l))"
    by (rule singleLine_trimStart [OF singleLine_after [OF sll]])
  from f [OF this d] obtain h where "f (trimStart (afterMarkers1 ?l)) = Some h" ..
  with renderQuote_total(1) [of "[quoteLine ?l]" f 1] show ?thesis
    by (simp add: quoteBlock_def lines q)
qed

lemma blockquotes_line:
  assumes sl: "singleLine md"
    and f: "\<And>x. singleLine x \<Longrightarrow> quoteDepth x < quoteDepth md \<Longrightarrow> \<exists>h. f x = Some h"
  shows "\<exists>r. blockquotes f md = Some r"
proof (rule blockquotes_total)
  fix raw c
  assume "Inr (raw, c) \<in> set (gsegs BLOCKQUOTE_RE [] md 0)"
  then have "exec BLOCKQUOTE_RE [] md = Some (raw, c)"
    unfolding gsegs_anchored [OF anchored_BLOCKQUOTE_RE sl] by (auto split: option.splits)
  from quoteBlock_line [OF sl this f] show "\<exists>r. quoteBlock f raw = Some r" .
qed

lemma markdownToHtml_line:
  "singleLine s \<Longrightarrow> quoteDepth s \<le> n \<Longrightarrow> \<exists>r. markdownToHtml (Suc n) s = Some r"
proof (induction n arbitrary: s)
  case 0
  from calmD [OF calm_beforeQuotes 0(1)] 0(2)
  have sl: "singleLine (beforeQuotes s)" and d: "quoteDepth (beforeQuotes s) = 0" by simp_all
  have "\<exists>r. blockquotes (markdownToHtml 0) (beforeQuotes s) = Some r"
    by (rule blockquotes_line [OF sl]) (simp add: d)
  then show ?case by (simp only: markdownToHtml_returns)
next
  case (Suc n)
  from calmD [OF calm_beforeQuotes Suc.prems(1)] Suc.prems(2)
  have sl: "singleLine (beforeQuotes s)" and d: "quoteDepth (beforeQuotes s) \<le> Suc n" by simp_all
  have "\<exists>r. blockquotes (markdownToHtml (Suc n)) (beforeQuotes s) = Some r"
  proof (rule blockquotes_line [OF sl])
    fix x
    assume "singleLine x" "quoteDepth x < quoteDepth (beforeQuotes s)"
    with d show "\<exists>h. markdownToHtml (Suc n) x = Some h" by (intro Suc.IH) simp_all
  qed
  then show ?case by (simp only: markdownToHtml_returns)
qed

subsection \<open>Any text\<close>

lemma split_no_sep: "l \<in> set (split d s) \<Longrightarrow> d \<notin> set l"
proof (induction s arbitrary: l)
  case Nil
  then show ?case by simp
next
  case (Cons x xs)
  show ?case
  proof (cases "x = d")
    case True
    with Cons show ?thesis by auto
  next
    case False
    obtain h t where ht: "split d xs = h # t"
      by (cases "split d xs") (cases xs, auto split: if_splits list.splits)
    with Cons.prems False have "l = x # h \<or> l \<in> set t" by simp
    with Cons.IH [of h] Cons.IH [of l] ht False show ?thesis by auto
  qed
qed

lemma may_BLOCKQUOTE_RE: "may BLOCKQUOTE_RE ch \<Longrightarrow> ch \<noteq> CR"
  by (auto simp: BLOCKQUOTE_RE_def LINE_END_def Plus_def isLineTerminator_def CR_def NL_def)

lemma quote_lines_single:
  assumes "Inr (raw, c) \<in> set (gsegs BLOCKQUOTE_RE [] md 0)" "l \<in> set (split NL (trimEnd raw))"
  shows "singleLine l"
proof -
  have "exec BLOCKQUOTE_RE p s = Some (m, c') \<Longrightarrow> CR \<notin> set m" for p s m c'
    using exec_sound [of BLOCKQUOTE_RE p s m c'] may_BLOCKQUOTE_RE by blast
  have seg: "Inr (m, c') \<in> set (gsegs BLOCKQUOTE_RE p s k) \<Longrightarrow> CR \<notin> set m" for m c' p s k
  proof (induction s arbitrary: p k)
    case Nil
    have "gsegs BLOCKQUOTE_RE p [] k = [] \<or> (\<exists>mc. exec BLOCKQUOTE_RE p [] = Some mc \<and> gsegs BLOCKQUOTE_RE p [] k = [Inr mc])"
      by (cases "exec BLOCKQUOTE_RE p []") simp_all
    then have "exec BLOCKQUOTE_RE p [] = Some (m, c')"
    proof (elim disjE exE conjE)
      assume e: "gsegs BLOCKQUOTE_RE p [] k = []"
      from Nil [unfolded e] show ?thesis by simp
    next
      fix mc
      assume e: "gsegs BLOCKQUOTE_RE p [] k = [Inr mc]" and x: "exec BLOCKQUOTE_RE p [] = Some mc"
      from Nil [unfolded e] x show ?thesis by simp
    qed
    with exec_sound [of BLOCKQUOTE_RE p "[]" m c'] may_BLOCKQUOTE_RE show ?case by blast
  next
    case (Cons y ys)
    show ?case
    proof (cases "0 < k")
      case True
      with Cons.prems have "Inr (m, c') \<in> set (gsegs BLOCKQUOTE_RE (y # p) ys (k - 1))" by simp
      from Cons.IH [OF this] show ?thesis .
    next
      case False
      have "exec BLOCKQUOTE_RE p (y # ys) = Some (m, c')
            \<or> (\<exists>j. Inr (m, c') \<in> set (gsegs BLOCKQUOTE_RE (y # p) ys j))"
      proof (cases "exec BLOCKQUOTE_RE p (y # ys)")
        case None
        with Cons.prems False show ?thesis by auto
      next
        case (Some mc)
        obtain m' c'' where mc: "mc = (m', c'')" by (cases mc)
        with Cons.prems False Some show ?thesis by (cases "m' = []") auto
      qed
      then show ?thesis
      proof (elim disjE exE)
        assume "exec BLOCKQUOTE_RE p (y # ys) = Some (m, c')"
        with exec_sound [of BLOCKQUOTE_RE p "y # ys" m c'] may_BLOCKQUOTE_RE show ?thesis by blast
      next
        fix j
        assume "Inr (m, c') \<in> set (gsegs BLOCKQUOTE_RE (y # p) ys j)"
        from Cons.IH [OF this] show ?thesis .
      qed
    qed
  qed
  from seg [OF assms(1)] have "CR \<notin> set raw" .
  with split_set [OF assms(2)] set_trimEnd [of raw] have "CR \<notin> set l" by blast
  with split_no_sep [OF assms(2)] show ?thesis
    by (auto simp: singleLine_def isLineTerminator_def NL_def CR_def)
qed

lemma singleLine_quoteLine: "singleLine l \<Longrightarrow> singleLine (content (quoteLine l))"
  by (simp add: quoteLine_spec singleLine_trimStart singleLine_after)

lemma fold_max_le: "(a::nat) \<le> fold max xs a"
  by (induction xs arbitrary: a) (auto intro: order_trans [OF max.cobounded2])

lemma fold_max_mem: "x \<in> set xs \<Longrightarrow> (x::nat) \<le> fold max xs a"
proof (induction xs arbitrary: a)
  case Nil
  then show ?case by simp
next
  case (Cons y ys)
  then show ?case using fold_max_le [of "max y a" ys] by auto
qed

lemma maxList_mem: "x \<in> set xs \<Longrightarrow> x \<le> maxList xs"
  unfolding maxList_def by (rule fold_max_mem)

lemma contentDepth_bound:
  assumes "Inr (raw, c) \<in> set (gsegs BLOCKQUOTE_RE [] md 0)" "l \<in> set (split NL (trimEnd raw))"
  shows "quoteDepth (content (quoteLine l)) \<le> contentDepth md"
proof -
  have "quoteDepth (content (quoteLine l))
          \<le> maxList (map (\<lambda>l. quoteDepth (content (quoteLine l))) (split NL (trimEnd raw)))"
    by (rule maxList_mem) (use assms(2) in auto)
  also have "\<dots> \<le> contentDepth md"
    unfolding contentDepth_def by (rule maxList_mem) (use assms(1) in force)
  finally show ?thesis .
qed

lemma markdownToHtml_total: "\<exists>r. markdownToHtml (Suc (Suc (contentDepth (beforeQuotes md)))) md = Some r"
proof -
  let ?md = "beforeQuotes md"
  let ?f = "markdownToHtml (Suc (contentDepth ?md))"
  have "\<exists>r. blockquotes ?f ?md = Some r"
  proof (rule blockquotes_total)
    fix raw c
    assume seg: "Inr (raw, c) \<in> set (gsegs BLOCKQUOTE_RE [] ?md 0)"
    have "\<exists>h. ?f (content item) = Some h"
      if "item \<in> set (map quoteLine (split NL (trimEnd raw)))" for item
    proof -
      from that obtain l where l: "l \<in> set (split NL (trimEnd raw))" and item: "item = quoteLine l"
        by auto
      from singleLine_quoteLine [OF quote_lines_single [OF seg l]] contentDepth_bound [OF seg l]
      show ?thesis unfolding item by (rule markdownToHtml_line)
    qed
    with renderQuote_total(1) [of "map quoteLine (split NL (trimEnd raw))" ?f 1]
    show "\<exists>r. quoteBlock ?f raw = Some r" unfolding quoteBlock_def by blast
  qed
  then show ?thesis by (simp only: markdownToHtml_returns)
qed

subsection \<open>The result is trimmed\<close>



section \<open>The depth of the lines of a text\<close>

text \<open>
  No pass before the blockquotes makes a line deeper than the deepest line of the input,
  so the depth of the self-calls is bounded by the depth of the lines of the input.
\<close>

lemma lineOf_Nil [simp]: "lineOf [] = []"
  by (simp add: lineOf_def)

lemma lineOf_Cons:
  "lineOf (x # s) = (if isLineTerminator x then [] else x # lineOf s)"
  by (simp add: lineOf_def)

lemma lineOf_line: "singleLine a \<Longrightarrow> lineOf (a @ b) = a @ lineOf b"
  by (induction a) (simp_all add: lineOf_Cons)

lemma lineOf_term: "isLineTerminator x \<Longrightarrow> lineOf (a @ x # b) = lineOf a"
  by (induction a) (simp_all add: lineOf_Cons)

lemma lineOf_prefix: "prefix (lineOf a) (lineOf (a @ b))"
  by (induction a) (simp_all add: lineOf_Cons)

lemma singleLine_lineOf [simp]: "singleLine (lineOf s)"
  by (induction s) (simp_all add: lineOf_Cons)

lemma lineOf_single: "singleLine s \<Longrightarrow> lineOf s = s"
  using lineOf_line [of s "[]"] by simp

lemma depthAt_Nil [simp]: "depthAt [] = 0"
  by (simp add: depthAt_def)

lemma depthAt_term [simp]: "isLineTerminator x \<Longrightarrow> depthAt (x # s) = 0"
  by (simp add: depthAt_def lineOf_Cons)

lemma depthAt_mono: "depthAt a \<le> depthAt (a @ b)"
  unfolding depthAt_def by (rule quoteDepth_mono [OF lineOf_prefix])

lemma stop_lt [simp]: "stop (CHR ''<'')"
  by (simp add: stop_def isSpace_def)

lemma stop_DQ [simp]: "stop DQ"
  by (simp add: stop_def isSpace_def DQ_def)

lemma prefix_gt_stop: "stop c \<Longrightarrow> prefix ''&gt;'' (w @ c # x) = prefix ''&gt;'' w"
  by (auto simp: prefix_def append_eq_Cons_conv Cons_eq_append_conv stop_def)

lemma quoteDepth_stop: "stop c \<Longrightarrow> quoteDepth (w @ c # x) = quoteDepth w"
proof (induction "length w" arbitrary: w rule: less_induct)
  case less
  show ?case
  proof (cases w)
    case Nil
    from less.prems have "\<not> isSpace c" "\<not> prefix ''&gt;'' (c # x)"
      by (auto simp: stop_def prefix_def)
    with Nil quoteDepth_other [of c x] show ?thesis by simp
  next
    case (Cons d w')
    show ?thesis
    proof (cases "isSpace d")
      case True
      with less(1) [of w'] less.prems Cons show ?thesis by (simp add: quoteDepth_space)
    next
      case False
      show ?thesis
      proof (cases "prefix ''&gt;'' w")
        case True
        then obtain r where r: "w = ''&gt;'' @ r" by (auto simp: prefix_def)
        with less(1) [of r] less.prems show ?thesis by (simp add: quoteDepth_gt del: append.simps)
      next
        case nop: False
        then have nop': "\<not> prefix ''&gt;'' ((d # w') @ c # x)"
          unfolding Cons by (simp only: prefix_gt_stop [OF less.prems]) simp
        have 1: "quoteDepth w = 0" using False nop quoteDepth_other [of d w'] Cons by simp
        have 2: "quoteDepth (w @ c # x) = 0"
          using False nop' quoteDepth_other [of d "w' @ c # x"] Cons by simp
        from 1 2 show ?thesis by simp
      qed
    qed
  qed
qed

lemma depthAt_stop: "singleLine w \<Longrightarrow> stop c \<Longrightarrow> depthAt (w @ c # x) = quoteDepth w"
proof -
  assume w: "singleLine w" and c: "stop c"
  show ?thesis
  proof (cases "isLineTerminator c")
    case True
    with w show ?thesis by (simp add: depthAt_def lineOf_term lineOf_single)
  next
    case False
    with w have "lineOf (w @ c # x) = w @ c # lineOf x" by (simp add: lineOf_line lineOf_Cons)
    with c show ?thesis by (simp add: depthAt_def quoteDepth_stop)
  qed
qed

subsection \<open>Lines of a text\<close>

lemma fronts_weaken: "fronts n True s \<Longrightarrow> fronts n st s"
  by (auto simp: fronts_def)

lemma fronts_first: "fronts n True s \<Longrightarrow> depthAt s \<le> n"
  unfolding fronts_def by (drule spec [of _ "[]"]) simp

lemma fronts_Nil [simp]: "fronts n st []"
  by (simp add: fronts_def)

lemma fronts_Cons:
  "fronts n st (x # s) = ((st \<longrightarrow> depthAt (x # s) \<le> n) \<and> fronts n (isLineTerminator x) s)"
proof
  assume f: "fronts n st (x # s)"
  have "fronts n (isLineTerminator x) s"
    unfolding fronts_def
  proof (intro allI impI)
    fix a b
    assume "s = a @ b" "if a = [] then isLineTerminator x else isLineTerminator (last a)"
    then have "x # s = (x # a) @ b" "isLineTerminator (last (x # a))" by (auto split: if_splits)
    with f show "depthAt b \<le> n" unfolding fronts_def by (metis list.distinct(1))
  qed
  moreover have "st \<longrightarrow> depthAt (x # s) \<le> n"
    using f unfolding fronts_def by (metis append_Nil)
  ultimately show "(st \<longrightarrow> depthAt (x # s) \<le> n) \<and> fronts n (isLineTerminator x) s" by simp
next
  assume r: "(st \<longrightarrow> depthAt (x # s) \<le> n) \<and> fronts n (isLineTerminator x) s"
  show "fronts n st (x # s)"
    unfolding fronts_def
  proof (intro allI impI)
    fix a b
    assume e: "x # s = a @ b" and c: "if a = [] then st else isLineTerminator (last a)"
    show "depthAt b \<le> n"
    proof (cases a)
      case Nil
      with e c r show ?thesis by simp
    next
      case (Cons y a')
      with e have s: "s = a' @ b" and "y = x" by simp_all
      from c Cons \<open>y = x\<close> have "if a' = [] then isLineTerminator x else isLineTerminator (last a')"
        by (auto split: if_splits)
      with r s show ?thesis unfolding fronts_def by blast
    qed
  qed
qed

lemma fronts_drop: "fronts n st s \<Longrightarrow> fronts n False (drop k s)"
proof (induction k arbitrary: s st)
  case 0
  then show ?case by (auto simp: fronts_def)
next
  case (Suc k)
  show ?case
  proof (cases s)
    case Nil
    then show ?thesis by simp
  next
    case (Cons x xs)
    with Suc.prems have "fronts n (isLineTerminator x) xs" by (simp add: fronts_Cons)
    from Suc.IH [OF this] Cons show ?thesis by simp
  qed
qed

lemma fronts_suffix: "fronts n st (a @ b) \<Longrightarrow> fronts n False b"
  using fronts_drop [of n st "a @ b" "length a"] by simp

lemma fronts_after:
  "fronts n st (a @ b) \<Longrightarrow> a \<noteq> [] \<Longrightarrow> isLineTerminator (last a) \<Longrightarrow> fronts n True b"
proof (induction a arbitrary: st)
  case Nil
  then show ?case by simp
next
  case (Cons x a)
  show ?case
  proof (cases "a = []")
    case True
    with Cons.prems show ?thesis by (simp add: fronts_Cons)
  next
    case False
    with Cons.prems have "fronts n (isLineTerminator x) (a @ b)" "isLineTerminator (last a)"
      by (simp_all add: fronts_Cons)
    from Cons.IH [OF this(1) False this(2)] show ?thesis .
  qed
qed

lemma fronts_prefix: "fronts n st (a @ b) \<Longrightarrow> fronts n st a"
proof (induction a arbitrary: st)
  case Nil
  show ?case by simp
next
  case (Cons x a)
  from Cons.prems have 1: "st \<longrightarrow> depthAt (x # a @ b) \<le> n" and 2: "fronts n (isLineTerminator x) (a @ b)"
    by (simp_all add: fronts_Cons)
  from depthAt_mono [of "x # a" b] 1 have "st \<longrightarrow> depthAt (x # a) \<le> n" by auto
  with Cons.IH [OF 2] show ?case by (simp add: fronts_Cons)
qed

lemma fronts_sublist: "fronts n st s \<Longrightarrow> sublist v s \<Longrightarrow> fronts n False v"
proof -
  assume f: "fronts n st s" and "sublist v s"
  then obtain a b where "s = a @ v @ b" by (auto simp: sublist_def)
  with f have "fronts n False (v @ b)" using fronts_suffix by blast
  then show ?thesis by (rule fronts_prefix)
qed

lemma fronts_line: "singleLine s \<Longrightarrow> fronts n False s"
proof (induction s)
  case Nil
  show ?case by simp
next
  case (Cons x s)
  then show ?case by (simp add: fronts_Cons)
qed

lemma fronts_append:
  "fronts n st a \<Longrightarrow> fronts n (if a = [] then st else isLineTerminator (last a)) b \<Longrightarrow>
   (\<And>a1 a2. a = a1 @ a2 \<Longrightarrow> (if a1 = [] then st else isLineTerminator (last a1)) \<Longrightarrow> singleLine a2
      \<Longrightarrow> depthAt (a2 @ b) \<le> n)
   \<Longrightarrow> fronts n st (a @ b)"
proof (induction a arbitrary: st)
  case Nil
  then show ?case by simp
next
  case (Cons x a)
  have 1: "st \<longrightarrow> depthAt ((x # a) @ b) \<le> n"
  proof
    assume st
    show "depthAt ((x # a) @ b) \<le> n"
    proof (cases "singleLine (x # a)")
      case True
      from Cons.prems(3) [of "[]" "x # a"] \<open>st\<close> True show ?thesis by simp
    next
      case False
      then obtain u t v where "x # a = u @ t # v" "isLineTerminator t" "singleLine u"
        by (metis singleLine_def split_list_first_prop singleLine_def)
      then have "lineOf ((x # a) @ b) = lineOf (x # a)"
        using lineOf_term [of t u "v @ b"] lineOf_term [of t u v] by simp
      with Cons.prems(1) \<open>st\<close> show ?thesis by (simp add: fronts_Cons depthAt_def)
    qed
  qed
  have 2: "fronts n (isLineTerminator x) (a @ b)"
  proof (rule Cons.IH)
    show "fronts n (isLineTerminator x) a" using Cons.prems(1) by (simp add: fronts_Cons)
    show "fronts n (if a = [] then isLineTerminator x else isLineTerminator (last a)) b"
      using Cons.prems(2) by (simp split: if_splits)
    show "depthAt (a2 @ b) \<le> n"
      if "a = a1 @ a2" "if a1 = [] then isLineTerminator x else isLineTerminator (last a1)" "singleLine a2"
      for a1 a2
      using Cons.prems(3) [of "x # a1" a2] that by (simp split: if_splits)
  qed
  from 1 2 show ?case by (simp add: fronts_Cons)
qed

lemma cutL_refl: "cutL s s"
  by (simp add: cutL_def cutAt_refl)

lemma cutL_depth: "cutL s res \<Longrightarrow> depthAt res \<le> depthAt s"
  unfolding cutL_def depthAt_def by (rule quoteDepth_cutAt)

lemma cutL_Cons: "cutL s res \<Longrightarrow> cutL (x # s) (x # res)"
  by (simp add: cutL_def lineOf_Cons cutAt_refl cutAt_Cons)

lemma cutL_term: "isLineTerminator x \<Longrightarrow> cutL (x # s) (x # res)"
  by (simp add: cutL_def lineOf_Cons cutAt_refl)

lemma cutL_tag: "cutL s (CHR ''<'' # res)"
  by (simp add: cutL_def lineOf_Cons isLineTerminator_def cutAt_tag)

lemma cutL_tame:
  assumes "tame m t" "prefix m s"
  shows "cutL s (t @ z)"
proof -
  from assms(1) consider "prefix ''<'' t" | y where "prefix [y] m" "prefix [y, CHR ''<''] t"
    by (auto simp: tame_def)
  then show ?thesis
  proof cases
    case 1
    then show ?thesis by (auto simp: prefix_def cutL_tag)
  next
    case 2
    with assms(2) obtain s' t' where "s = y # s'" "t = y # CHR ''<'' # t'"
      by (auto simp: prefix_def)
    then show ?thesis using cutL_Cons [OF cutL_tag, of y s' "t' @ z"] by simp
  qed
qed

lemma safe_Nil [simp]: "safe n []"
  by (simp add: safe_def)

lemma safe_fronts: "safe n t \<Longrightarrow> fronts n False t"
  unfolding safe_def fronts_def by (metis append_Nil2)

lemma fronts_True: "fronts n False s \<Longrightarrow> depthAt s \<le> n \<Longrightarrow> fronts n True s"
  unfolding fronts_def by (metis append_Nil)

lemma fronts_safe_append:
  assumes "safe n t" "fronts n False z"
  shows "fronts n False (t @ z)"
  unfolding fronts_def
proof (intro allI impI)
  fix a b
  assume e: "t @ z = a @ b" and c: "if a = [] then False else isLineTerminator (last a)"
  then have ne: "a \<noteq> []" and la: "isLineTerminator (last a)" by (auto split: if_splits)
  from e consider u where "t = a @ u" "b = u @ z" | u where "a = t @ u" "u \<noteq> []" "z = u @ b"
    by (auto simp: append_eq_append_conv2) (metis append_Nil2)
  then show "depthAt b \<le> n"
  proof cases
    case 1
    with assms(1) ne la show ?thesis unfolding safe_def by blast
  next
    case 2
    with la have "isLineTerminator (last u)" by simp
    with assms(2) 2 show ?thesis unfolding fronts_def by (metis (full_types))
  qed
qed

lemma renderK_fronts:
  assumes G: "\<And>p s m c j. exec r p s = Some (m, c) \<Longrightarrow> fronts n False s
                \<Longrightarrow> good n p m (drop (length m) s) (f j m c)"
  shows "fronts n False s \<Longrightarrow>
         fronts n False (renderK f (gsegs r p s k) j)
         \<and> (cutL (drop k s) (renderK f (gsegs r p s k) j)
            \<or> (atStart (rev (take k s) @ p) \<and> depthAt (renderK f (gsegs r p s k) j) \<le> n))"
proof (induction s arbitrary: p k j)
  case Nil
  show ?case
  proof (cases "k = 0 \<and> exec r p [] \<noteq> None")
    case False
    then have g: "gsegs r p [] k = []" by (cases "exec r p []") auto
    show ?thesis unfolding g by (simp add: cutL_refl)
  next
    case True
    then obtain m c where e: "exec r p [] = Some (m, c)" by auto
    from exec_sound [OF e] have m: "m = []" by simp
    from True e have g: "gsegs r p [] k = [Inr (m, c)]" by simp
    from G [OF e Nil, of j] have s: "safe n (f j m c)"
      and t: "tame m (f j m c) \<or> f j m c = []" by (auto simp: good_def)
    from t m have "cutL [] (f j m c)"
      by (auto simp: tame_def prefix_def cutL_tag cutL_refl)
    with safe_fronts [OF s] show ?thesis unfolding g by simp
  qed
next
  case (Cons x xs)
  let ?O = "\<lambda>p s k j. renderK f (gsegs r p s k) j"
  from Cons.prems have H: "fronts n (isLineTerminator x) xs" by (simp add: fronts_Cons)
  then have H': "fronts n False xs" by (auto simp: fronts_def)
  have copy: "fronts n False (x # ?O (x # p) xs 0 j') \<and> cutL (x # xs) (x # ?O (x # p) xs 0 j')" for j'
  proof -
    from Cons.IH [OF H', of "x # p" 0 j']
    have A: "fronts n False (?O (x # p) xs 0 j')"
      and B: "cutL xs (?O (x # p) xs 0 j')
              \<or> (atStart (x # p) \<and> depthAt (?O (x # p) xs 0 j') \<le> n)" by simp_all
    show ?thesis
    proof (cases "isLineTerminator x")
      case True
      with H have "depthAt xs \<le> n" by (simp add: fronts_first)
      with B cutL_depth [of xs "?O (x # p) xs 0 j'"] have "depthAt (?O (x # p) xs 0 j') \<le> n" by auto
      with A True show ?thesis by (simp add: fronts_Cons fronts_True cutL_term)
    next
      case False
      with B have "cutL xs (?O (x # p) xs 0 j')" by (simp add: atStart_def)
      with A False show ?thesis by (simp add: fronts_Cons cutL_Cons)
    qed
  qed
  show ?case
  proof (cases "0 < k")
    case True
    then obtain k' where k: "k = Suc k'" by (cases k) auto
    have O: "?O p (x # xs) k j = ?O (x # p) xs k' j" by (simp add: k)
    from Cons.IH [OF H', of "x # p" k' j] show ?thesis unfolding O by (simp add: k)
  next
    case False
    then have k: "k = 0" by simp
    show ?thesis
    proof (cases "exec r p (x # xs)")
      case None
      then have O: "?O p (x # xs) k j = x # ?O (x # p) xs 0 j" by (simp add: k)
      from copy [of j] show ?thesis unfolding O by (simp add: k)
    next
      case (Some mc)
      obtain m c where mc: "mc = (m, c)" by (cases mc)
      from Some mc have e: "exec r p (x # xs) = Some (m, c)" by simp
      from exec_sound [OF e] obtain s' where s': "x # xs = m @ s'" by (auto simp: prefix_def)
      then have d: "drop (length m) (x # xs) = s'" by (metis append_eq_conv_conj)
      from G [OF e Cons.prems, of j] d have s: "safe n (f j m c)"
        and t: "tame m (f j m c)
                \<or> (f j m c = [] \<and> atStart p \<and> (atStart (rev m @ p) \<or> s' = [] \<or> isLineTerminator (hd s')))"
        by (auto simp: good_def)
      show ?thesis
      proof (cases "m = []")
        case True
        have O: "?O p (x # xs) k j = f j m c @ x # ?O (x # p) xs 0 (Suc j)"
          using e True by (simp add: k)
        from copy [of "Suc j"] have A: "fronts n False (x # ?O (x # p) xs 0 (Suc j))"
          and B: "cutL (x # xs) (x # ?O (x # p) xs 0 (Suc j))" by simp_all
        have "cutL (x # xs) (f j m c @ x # ?O (x # p) xs 0 (Suc j))"
        proof (cases "f j m c = []")
          case True
          with B show ?thesis by simp
        next
          case False
          with t have "tame m (f j m c)" by simp
          from cutL_tame [OF this] s' show ?thesis by (simp add: prefix_def)
        qed
        with fronts_safe_append [OF s A] show ?thesis unfolding O by (simp add: k)
      next
        case ne: False
        with s' obtain m' where m': "m = x # m'" "xs = m' @ s'" by (cases m) auto
        then have dd: "drop (length m - 1) xs = s'" "rev (take (length m - 1) xs) @ x # p = rev m @ p"
          by simp_all
        have O: "?O p (x # xs) k j = f j m c @ ?O (x # p) xs (length m - 1) (Suc j)"
          using e ne by (simp add: k)
        from Cons.IH [OF H', of "x # p" "length m - 1" "Suc j", unfolded dd]
        have A: "fronts n False (?O (x # p) xs (length m - 1) (Suc j))"
          and B: "cutL s' (?O (x # p) xs (length m - 1) (Suc j))
                  \<or> (atStart (rev m @ p) \<and> depthAt (?O (x # p) xs (length m - 1) (Suc j)) \<le> n)"
          by blast+
        have "cutL (x # xs) (f j m c @ ?O (x # p) xs (length m - 1) (Suc j))
              \<or> (atStart p \<and> depthAt (f j m c @ ?O (x # p) xs (length m - 1) (Suc j)) \<le> n)"
        proof (cases "tame m (f j m c)")
          case True
          from cutL_tame [OF this] s' show ?thesis by (simp add: prefix_def)
        next
          case False
          with t have t0: "f j m c = []" and ap: "atStart p"
            and E: "atStart (rev m @ p) \<or> s' = [] \<or> isLineTerminator (hd s')" by simp_all
          have "depthAt s' \<le> n" if "cutL s' (?O (x # p) xs (length m - 1) (Suc j))"
          proof -
            from E consider "s' = []" | "s' \<noteq> []" "isLineTerminator (hd s')"
              | "atStart (rev m @ p)" by blast
            then show ?thesis
            proof cases
              case 1
              then show ?thesis by simp
            next
              case 2
              then show ?thesis by (cases s') simp_all
            next
              case 3
              with ne have "isLineTerminator (last m)"
                by (cases m rule: rev_cases) (simp_all add: atStart_def)
              from fronts_after [OF Cons.prems [unfolded s'] ne this] show ?thesis
                by (rule fronts_first)
            qed
          qed
          with B cutL_depth [of s' "?O (x # p) xs (length m - 1) (Suc j)"]
          have "depthAt (?O (x # p) xs (length m - 1) (Suc j)) \<le> n" by auto
          with t0 ap show ?thesis by simp
        qed
        with fronts_safe_append [OF s A] show ?thesis unfolding O by (simp add: k)
      qed
    qed
  qed
qed

lemma gsub_renderK: "gsub r f s = renderK (\<lambda>j. f) (gsegs r [] s 0) 0"
proof -
  have "render f segs = renderK (\<lambda>j. f) segs j" for segs j
  proof (induction segs arbitrary: j)
    case Nil
    show ?case by simp
  next
    case (Cons seg segs)
    then show ?case by (cases seg) auto
  qed
  then show ?thesis by (simp add: gsub_render)
qed

lemma gsub_fronts:
  assumes G: "\<And>p s m c. exec r p s = Some (m, c) \<Longrightarrow> fronts n False s
                \<Longrightarrow> good n p m (drop (length m) s) (f m c)"
    and s: "fronts n True s"
  shows "fronts n True (gsub r f s)"
proof -
  from s have s': "fronts n False s" by (auto simp: fronts_def)
  from renderK_fronts [where f = "\<lambda>j. f" and r = r and n = n, OF G s', of "[]" 0 0]
  have A: "fronts n False (gsub r f s)"
    and B: "cutL s (gsub r f s) \<or> depthAt (gsub r f s) \<le> n"
    by (auto simp: gsub_renderK)
  from B cutL_depth [of s "gsub r f s"] fronts_first [OF s] have "depthAt (gsub r f s) \<le> n" by auto
  with A show ?thesis by (rule fronts_True)
qed

lemma capsSub_refl: "capsSub s c c"
  by (simp add: capsSub_def)

lemma capsSub_clear: "capsSub s (clear gs c) c' \<Longrightarrow> capsSub s c c'"
  by (auto simp: capsSub_def clear_def)

lemma capsSub_trans:
  "capsSub s c c1 \<Longrightarrow> capsSub s1 c1 c2 \<Longrightarrow> suffix s1 s \<Longrightarrow> capsSub s c c2"
  unfolding capsSub_def by (meson sublist_order.order_trans suffix_imp_sublist)

lemma eats_suffix: "eats P p s p' s' \<Longrightarrow> suffix s' s"
  by (auto simp: eats_def suffix_def)

lemma rm_capsSub: "(p', s', c') \<in> set (rm r (p, s, c)) \<Longrightarrow> capsSub s c c'"
proof (induction r "(p, s, c)" arbitrary: p s c p' s' c' rule: rm.induct)
  case (5 a b p s c)
  from 5(3) obtain p1 s1 c1 where a: "(p1, s1, c1) \<in> set (rm a (p, s, c))"
    and b: "(p', s', c') \<in> set (rm b (p1, s1, c1))"
    by auto
  from capsSub_trans [OF 5(1) [OF a] 5(2) [OF a b] eats_suffix [OF rm_eats [OF a]]]
  show ?case .
next
  case (6 a b p s c)
  then show ?case by auto
next
  case (7 a p s c)
  show ?case
  proof (cases "(p', s', c') = (p, s, c)")
    case True
    then show ?thesis by (simp add: capsSub_refl)
  next
    case False
    with 7(3) obtain p1 s1 c1 where
      a: "(p1, s1, c1) \<in> set (rm a (p, s, clear (groups a) c))" and l: "length s1 < length s"
      and b: "(p', s', c') \<in> set (rm (Star a) (p1, s1, c1))"
      by (subst (asm) rm_Star) (auto split: if_splits)
    have "capsSub s c c1" using 7(1) [OF a] by (rule capsSub_clear)
    moreover have "capsSub s1 c1 c'" by (rule 7(2) [OF a _ _ l b]) simp_all
    ultimately show ?thesis using eats_suffix [OF rm_eats [OF a]] by (rule capsSub_trans)
  qed
next
  case (8 a p s c)
  show ?case
  proof (cases "(p', s', c') = (p, s, c)")
    case True
    then show ?thesis by (simp add: capsSub_refl)
  next
    case False
    with 8(3) obtain p1 s1 c1 where
      a: "(p1, s1, c1) \<in> set (rm a (p, s, clear (groups a) c))" and l: "length s1 < length s"
      and b: "(p', s', c') \<in> set (rm (StarL a) (p1, s1, c1))"
      by (subst (asm) rm_StarL) (auto split: if_splits)
    have "capsSub s c c1" using 8(1) [OF a] by (rule capsSub_clear)
    moreover have "capsSub s1 c1 c'" by (rule 8(2) [OF a _ _ l b]) simp_all
    ultimately show ?thesis using eats_suffix [OF rm_eats [OF a]] by (rule capsSub_trans)
  qed
next
  case (9 a p s c)
  from 9(2) have "(p', s', c') = (p, s, c) \<or> (p', s', c') \<in> set (rm a (p, s, clear (groups a) c))"
    by auto
  then show ?case
  proof
    assume "(p', s', c') = (p, s, c)"
    then show ?thesis by (simp add: capsSub_refl)
  next
    assume "(p', s', c') \<in> set (rm a (p, s, clear (groups a) c))"
    from capsSub_clear [OF 9(1) [OF this]] show ?thesis .
  qed
next
  case (10 n a p s c)
  from 10(2) obtain c1 where a: "(p', s', c1) \<in> set (rm a (p, s, c))"
    and c': "c' = (n, take (length s - length s') s) # c1" by auto
  have "sublist (take (length s - length s') s) s"
    by (rule prefix_imp_sublist) (rule take_is_prefix)
  with 10(1) [OF a] c' show ?case by (auto simp: capsSub_def)
next
  case (15 a p s c)
  from 15(2) obtain p1 s1 where "(p1, s1, c') \<in> set (rm a (p, s, c))"
    by (auto split: list.splits) (metis list.set_intros(1))
  from 15(1) [OF this] show ?case .
qed (auto simp: capsSub_refl split: if_splits list.splits)

lemma exec_caps_fronts:
  assumes "exec r p s = Some (m, c)" "fronts n False s"
  shows "\<forall>kv\<in>set c. fronts n False (snd kv)"
proof
  fix kv
  assume kv: "kv \<in> set c"
  from exec_mem [OF assms(1)] obtain p' s' where "(p', s', c) \<in> set (rm r (p, s, []))" by blast
  from rm_capsSub [OF this] kv have "sublist (snd kv) s" by (auto simp: capsSub_def)
  from fronts_sublist [OF assms(2) this] show "fronts n False (snd kv)" .
qed

lemma capS_fronts: "\<forall>kv\<in>set c. fronts n False (snd kv) \<Longrightarrow> fronts n False (capS k c)"
  by (auto simp: capS_def split: option.splits dest!: map_of_SomeD)

subsection \<open>Safe replacements\<close>

lemma safe_line: "singleLine t \<Longrightarrow> safe n t"
  by (auto simp: safe_def singleLine_def) 

lemma safe_lit: "singleLine l \<Longrightarrow> safe n t \<Longrightarrow> safe n (l @ t)"
  unfolding safe_def
proof (intro allI impI)
  fix a b z
  assume l: "singleLine l" and t: "\<forall>a b z. t = a @ b \<longrightarrow> a \<noteq> [] \<longrightarrow> isLineTerminator (last a) \<longrightarrow> depthAt (b @ z) \<le> n"
    and e: "l @ t = a @ b" and ne: "a \<noteq> []" and la: "isLineTerminator (last a)"
  from e consider u where "l = a @ u" | u where "a = l @ u" "u \<noteq> []" "t = u @ b"
    by (auto simp: append_eq_append_conv2) (metis append_Nil2)
  then show "depthAt (b @ z) \<le> n"
  proof cases
    case 1
    with l ne la show ?thesis by (cases a rule: rev_cases) (auto simp: singleLine_def)
  next
    case 2
    with la have "isLineTerminator (last u)" by simp
    with t 2 show ?thesis by blast
  qed
qed

lemma safe_cap:
  assumes v: "fronts n False v" and t: "safe n t" and st: "t \<noteq> []" "stop (hd t)"
  shows "safe n (v @ t)"
  unfolding safe_def
proof (intro allI impI)
  fix a b z
  assume e: "v @ t = a @ b" and ne: "a \<noteq> []" and la: "isLineTerminator (last a)"
  from e consider u where "v = a @ u" "b = u @ t" | u where "a = v @ u" "u \<noteq> []" "t = u @ b"
    by (auto simp: append_eq_append_conv2) (metis append_Nil2)
  then show "depthAt (b @ z) \<le> n"
  proof cases
    case 1
    from v 1(1) ne la have d: "depthAt u \<le> n" unfolding fronts_def by (metis (full_types))
    from st obtain x t' where t': "t = x # t'" "stop x" by (cases t) auto
    show ?thesis
    proof (cases "singleLine u")
      case True
      from depthAt_stop [OF True t'(2), of "t' @ z"] d True show ?thesis
        by (simp add: 1 t' depthAt_def lineOf_single)
    next
      case False
      then obtain u1 y u2 where "u = u1 @ y # u2" "isLineTerminator y"
        by (metis singleLine_def split_list)
      then have "lineOf (u @ t @ z) = lineOf u"
        using lineOf_term [of y u1 "u2 @ t @ z"] lineOf_term [of y u1 u2] by simp
      with d show ?thesis by (simp add: 1 depthAt_def)
    qed
  next
    case 2
    with la have "isLineTerminator (last u)" by simp
    with t 2 show ?thesis unfolding safe_def by blast
  qed
qed

lemma safe_wrap1:
  assumes "singleLine opening" "singleLine closing" "closing \<noteq> []" "stop (hd closing)"
    and "\<forall>kv\<in>set c. fronts n False (snd kv)"
  shows "safe n (wrap1 opening closing m c)"
  unfolding wrap1_def
  by (intro safe_lit safe_cap capS_fronts safe_line assms)

lemma safe_wrap2:
  assumes "singleLine opening" "singleLine closing" "closing \<noteq> []" "stop (hd closing)"
    "opening \<noteq> []" "stop (hd opening)"
    and c: "\<forall>kv\<in>set c. fronts n False (snd kv)"
  shows "safe n (wrap2 opening closing m c)"
proof -
  have 1: "safe n (capS 2 c @ closing)"
    by (intro safe_cap capS_fronts safe_line assms)
  have 2: "safe n (opening @ capS 2 c @ closing)" by (rule safe_lit [OF assms(1) 1])
  show ?thesis unfolding wrap2_def
    by (rule safe_cap [OF capS_fronts [OF c] 2]) (use assms(5,6) in \<open>cases "opening", simp_all\<close>)
qed

lemma linedI: "(\<And>n s. fronts n True s \<Longrightarrow> fronts n True (pass s)) \<Longrightarrow> lined pass"
  by (simp add: lined_def)

lemma linedD: "lined pass \<Longrightarrow> fronts n True s \<Longrightarrow> fronts n True (pass s)"
  by (simp add: lined_def)

lemma lined_comp: "lined f \<Longrightarrow> lined g \<Longrightarrow> lined (\<lambda>s. g (f s))"
  by (simp add: lined_def)

lemma good_tag: "safe n t \<Longrightarrow> prefix ''<'' t \<Longrightarrow> good n p m s' t"
  by (simp add: good_def tame_def)

lemma lined_gsub:
  assumes "\<And>n p s m c. exec r p s = Some (m, c) \<Longrightarrow> fronts n False s
             \<Longrightarrow> good n p m (drop (length m) s) (f m c)"
  shows "lined (gsub r f)"
  by (rule linedI) (rule gsub_fronts [OF assms])

lemma lined_fold:
  "\<forall>rf\<in>set ps. lined (gsub (fst rf) (snd rf)) \<Longrightarrow>
   lined (fold (\<lambda>(regex, replacement) t. gsub regex replacement t) ps)"
proof (induction ps)
  case Nil
  show ?case by (simp add: lined_def)
next
  case (Cons rf ps)
  obtain r f where rf: "rf = (r, f)" by (cases rf)
  from Cons.prems have 1: "lined (gsub r f)" by (simp add: rf)
  from Cons have 2: "lined (fold (\<lambda>(regex, replacement) t. gsub regex replacement t) ps)" by simp
  from lined_comp [OF 1 2] show ?case by (simp add: rf comp_def)
qed

subsection \<open>Inline patterns, images and links\<close>

lemma lined_wrap1:
  assumes "prefix ''<'' op1" "singleLine op1" "singleLine cl1" "prefix ''<'' cl1"
  shows "lined (gsub r (wrap1 op1 cl1))"
proof (rule lined_gsub, rule good_tag)
  fix n p s m c
  assume "exec r p s = Some (m, c)" "fronts n False s"
  from exec_caps_fronts [OF this] assms(4) show "safe n (wrap1 op1 cl1 m c)"
    by (intro safe_wrap1 assms) (auto simp: prefix_def)
  show "prefix ''<'' (wrap1 op1 cl1 m c)" using assms(1) by (auto simp: wrap1_def prefix_def)
qed

lemma lined_emphasis:
  assumes "prefix ''<'' op1" "singleLine op1" "singleLine cl1" "prefix ''<'' cl1"
  shows "lined (gsub (emphasis marker x behind) (wrap2 op1 cl1))"
proof (rule lined_gsub)
  fix n p s m c
  assume e: "exec (emphasis marker x behind) p s = Some (m, c)" and f: "fronts n False s"
  from exec_caps_fronts [OF e f] assms(1,4) have "safe n (wrap2 op1 cl1 m c)"
    by (intro safe_wrap2 assms) (auto simp: prefix_def)
  moreover from emphasis_cap1 [OF e] assms(1) have "tame m (wrap2 op1 cl1 m c)"
    by (auto simp: tame_def wrap2_def prefix_def)
  ultimately show "good n p m (drop (length m) s) (wrap2 op1 cl1 m c)" by (simp add: good_def)
qed

lemma lined_hr: "lined (gsub r (\<lambda>m c. ''<hr>''))"
  by (rule lined_gsub, rule good_tag) (simp_all add: safe_line isLineTerminator_def)

lemma singleLine_DQ [simp]: "singleLine [DQ]"
  by simp

lemma safe_lit_cap:
  "singleLine l \<Longrightarrow> \<forall>kv\<in>set c. fronts n False (snd kv) \<Longrightarrow> safe n t \<Longrightarrow> t \<noteq> [] \<Longrightarrow> stop (hd t)
   \<Longrightarrow> safe n (l @ capS k c @ t)"
  by (rule safe_lit, assumption, rule safe_cap, rule capS_fronts)

lemma lined_autolink: "lined (gsub r autolink)"
proof (rule lined_gsub, rule good_tag)
  fix n p s m c
  assume "exec r p s = Some (m, c)" "fronts n False s"
  from exec_caps_fronts [OF this] have c: "\<forall>kv\<in>set c. fronts n False (snd kv)" .
  have 1: "safe n (''</a>'')" by (rule safe_line) (simp add: isLineTerminator_def)
  have 2: "safe n ((DQ # '' target=\"_blank\">'') @ capS 1 c @ ''</a>'')"
    by (rule safe_lit_cap [OF _ c 1]) (simp_all add: isLineTerminator_def DQ_def stop_def isSpace_def)
  have "safe n (''<a href=\"'' @ capS 1 c @ (DQ # '' target=\"_blank\">'') @ capS 1 c @ ''</a>'')"
    by (rule safe_lit_cap [OF _ c 2]) (simp_all add: isLineTerminator_def DQ_def stop_def isSpace_def)
  then show "safe n (autolink m c)" by (simp add: autolink_def DQ_def)
  show "prefix ''<'' (autolink m c)" by (simp add: autolink_def)
qed

lemma lined_inlinePatterns: "lined inlinePatterns"
proof -
  have "\<forall>rf\<in>set patterns. lined (gsub (fst rf) (snd rf))"
    unfolding patterns_def
    by (simp add: lined_wrap1 lined_emphasis lined_autolink lined_hr isLineTerminator_def)
  from lined_fold [OF this] show ?thesis by (simp add: inlinePatterns_def [abs_def])
qed

lemma safe_titleAttr:
  assumes c: "\<forall>kv\<in>set c. fronts n False (snd kv)" and t: "safe n t"
  shows "safe n (titleAttr c @ t)"
proof (cases "capS 3 c = []")
  case True
  with t show ?thesis by (simp add: titleAttr_def)
next
  case False
  have 1: "safe n ([DQ] @ t)" by (rule safe_lit [OF _ t]) simp
  have "safe n ('' title=\"'' @ capS 3 c @ [DQ] @ t)"
    by (rule safe_lit_cap [OF _ c 1]) (simp_all add: isLineTerminator_def DQ_def stop_def isSpace_def)
  with False show ?thesis by (simp add: titleAttr_def DQ_def)
qed

lemma lined_images: "lined images"
  unfolding images_def [abs_def]
proof (rule lined_gsub, rule good_tag)
  fix n p s m c
  assume "exec IMAGE_RE p s = Some (m, c)" "fronts n False s"
  from exec_caps_fronts [OF this] have c: "\<forall>kv\<in>set c. fronts n False (snd kv)" .
  have 1: "safe n ('' style=\"max-width: 100%;\">'')"
    by (rule safe_line) (simp add: isLineTerminator_def)
  have 2: "safe n ([DQ] @ titleAttr c @ '' style=\"max-width: 100%;\">'')"
    by (rule safe_lit [OF _ safe_titleAttr [OF c 1]]) simp
  have 3: "safe n ((DQ # '' src=\"'') @ capS 2 c @ [DQ] @ titleAttr c @ '' style=\"max-width: 100%;\">'')"
    by (rule safe_lit_cap [OF _ c 2]) (simp_all add: isLineTerminator_def DQ_def stop_def isSpace_def)
  have "safe n (''<img alt=\"'' @ capS 1 c @ (DQ # '' src=\"'') @ capS 2 c
                @ [DQ] @ titleAttr c @ '' style=\"max-width: 100%;\">'')"
    by (rule safe_lit_cap [OF _ c 3]) (simp_all add: isLineTerminator_def DQ_def stop_def isSpace_def)
  then show "safe n (image m c)" by (simp add: image_def DQ_def)
  show "prefix ''<'' (image m c)" by (simp add: image_def)
qed

lemma lined_links: "lined links"
  unfolding links_def [abs_def]
proof (rule lined_gsub, rule good_tag)
  fix n p s m c
  assume "exec LINK_RE p s = Some (m, c)" "fronts n False s"
  from exec_caps_fronts [OF this] have c: "\<forall>kv\<in>set c. fronts n False (snd kv)" .
  have 0: "safe n (''</a>'')" by (rule safe_line) (simp add: isLineTerminator_def)
  have 1: "safe n ('' target=\"_blank\">'' @ capS 1 c @ ''</a>'')"
    by (rule safe_lit_cap [OF _ c 0]) (simp_all add: isLineTerminator_def DQ_def stop_def isSpace_def)
  have 2: "safe n ([DQ] @ titleAttr c @ '' target=\"_blank\">'' @ capS 1 c @ ''</a>'')"
    by (rule safe_lit [OF _ safe_titleAttr [OF c 1]]) simp
  have "safe n (''<a href=\"'' @ capS 2 c @ [DQ] @ titleAttr c @ '' target=\"_blank\">''
                @ capS 1 c @ ''</a>'')"
    by (rule safe_lit_cap [OF _ c 2]) (simp_all add: isLineTerminator_def DQ_def stop_def isSpace_def)
  then show "safe n (link m c)" by (simp add: link_def DQ_def)
  show "prefix ''<'' (link m c)" by (simp add: link_def)
qed

subsection \<open>Checkbox lists and nested lists\<close>

lemma lines_single:
  assumes "CR \<notin> set block" "l \<in> set (split NL block)"
  shows "singleLine l"
  using split_set [OF assms(2)] split_no_sep [OF assms(2)] assms(1)
  by (auto simp: singleLine_def isLineTerminator_def NL_def CR_def)

lemma checkboxBlock_line:
  assumes "CR \<notin> set block"
  shows "singleLine (checkboxBlock block)"
proof -
  from assms set_trim [of block] have "CR \<notin> set (trim block)" by blast
  then have "singleLine l" if "l \<in> set (split NL (trim block))" for l
    using that by (rule lines_single)
  then have "singleLine (concat (map checkboxItem (split NL (trim block))))"
    by (intro singleLine_concat) (auto intro: singleLine_checkboxItem)
  then show ?thesis by (simp add: checkboxBlock_def isLineTerminator_def)
qed

lemma may_CHECKBOX_BLOCK_RE: "may CHECKBOX_BLOCK_RE ch \<Longrightarrow> ch \<noteq> CR"
  by (auto simp: CHECKBOX_BLOCK_RE_def Plus_def isLineTerminator_def CR_def NL_def
      inClass_def chars_def)

lemma may_LIST_BLOCK_RE: "may LIST_BLOCK_RE ch \<Longrightarrow> ch \<noteq> CR"
  by (auto simp: LIST_BLOCK_RE_def Plus_def isLineTerminator_def CR_def NL_def
      inClass_def chars_def isDigit_def inRange_def)

lemma lined_checkboxLists: "lined checkboxLists"
  unfolding checkboxLists_def [abs_def]
proof (rule lined_gsub, rule good_tag)
  fix n p s m c
  assume "exec CHECKBOX_BLOCK_RE p s = Some (m, c)"
  from exec_sound [OF this] may_CHECKBOX_BLOCK_RE have "CR \<notin> set m" by blast
  from checkboxBlock_line [OF this] show "safe n (checkboxBlock m)" by (rule safe_line)
  show "prefix ''<'' (checkboxBlock m)" by (simp add: checkboxBlock_def)
qed

lemma closeDeeper_shape:
  "\<exists>h stack'. closeDeeper ind (html, stack) = (html @ h, stack') \<and> singleLine h
       \<and> (stack = [] \<longrightarrow> h = [] \<and> stack' = [])"
proof (induction ind "(html, stack)" arbitrary: html stack rule: closeDeeper.induct)
  case (1 ind html stack)
  show ?case
  proof (cases "stack \<noteq> [] \<and> indent (last stack) > ind")
    case True
    let ?t = "''</li></'' @ tagOf (type (last stack)) @ ''>''"
    from 1 [OF True] obtain h stack' where
      h: "closeDeeper ind (html @ ?t, butlast stack) = ((html @ ?t) @ h, stack')" "singleLine h"
      by blast
    have sl: "singleLine (?t @ h)"
      using h(2) by (cases "type (last stack)") (simp_all add: isLineTerminator_def)
    have "closeDeeper ind (html, stack) = (html @ (?t @ h), stack')"
      using h(1) True by (subst closeDeeper.simps) simp
    with sl True show ?thesis by blast
  next
    case False
    then have "closeDeeper ind (html, stack) = (html @ [], stack)"
      by (subst closeDeeper.simps) auto
    then show ?thesis by (intro exI [of _ "[]"] exI [of _ stack]) simp
  qed
qed

lemma listLine_listHtml:
  assumes "listHtml st" "singleLine line"
  shows "listHtml (listLine st line)"
proof (cases "matchItem line")
  case None
  with assms(1) show ?thesis by (simp add: listLine_def)
next
  case (Some mc)
  obtain m c where mc: "mc = (m, c)" by (cases mc)
  obtain html stack where st: "st = (html, stack)" by (cases st)
  from Some mc have "match ITEM_DOT_RE line = Some (m, c) \<or> match ITEM_BULLET_RE line = Some (m, c)"
    by (auto simp: matchItem_def split: option.splits)
  with match_set have "\<forall>kv\<in>set c. set (snd kv) \<subseteq> set line" by blast
  with assms(2) have caps: "\<forall>kv\<in>set c. singleLine (snd kv)" by (auto simp: singleLine_def)
  define ty where "ty = (if test ALL_DIGITS_RE (capS 2 c) then Ol else Ul)"
  define item where "item = (if ty = Ol then indexSpan (capS 2 c) @ capS 3 c else capS 3 c)"
  obtain html1 stack1 where cd: "closeDeeper (length (capS 1 c)) (html, stack) = (html1, stack1)"
    by (cases "closeDeeper (length (capS 1 c)) (html, stack)")
  from closeDeeper_shape [of "length (capS 1 c)" html stack] cd obtain h where
    h: "html1 = html @ h" "singleLine h" "stack = [] \<longrightarrow> html1 = html \<and> stack1 = []" by auto
  have item: "singleLine item"
    using capS_singleLine [OF caps] by (simp add: item_def indexSpan_def isLineTerminator_def)
  have tag: "singleLine (''<'' @ tagOf ty @ ''><li>'')"
    by (cases ty) (simp_all add: isLineTerminator_def)
  have ll: "listLine st line =
      (if stack1 = [] \<or> indent (last stack1) < length (capS 1 c)
       then (html1 @ ''<'' @ tagOf ty @ ''><li>'' @ item, stack1 @ [\<lparr>indent = length (capS 1 c), type = ty\<rparr>])
       else (html1 @ ''</li><li>'' @ item, stack1))"
    using Some mc cd by (simp add: listLine_def st Let_def ty_def item_def)
  from assms(1) st have sl: "singleLine html"
    and sh: "(html = [] \<and> stack = []) \<or> (html \<noteq> [] \<and> hd html = CHR ''<'')"
    by (auto simp: listHtml_def)
  from sh show ?thesis
  proof
    assume "html = [] \<and> stack = []"
    with h have "html1 = []" "stack1 = []" by simp_all
    with item tag show ?thesis by (simp add: ll listHtml_def)
  next
    assume n: "html \<noteq> [] \<and> hd html = CHR ''<''"
    with h(1) have "html1 \<noteq> []" "hd html1 = CHR ''<''" by simp_all
    moreover from sl h have "singleLine html1" by simp
    ultimately show ?thesis using item tag by (simp add: ll listHtml_def isLineTerminator_def)
  qed
qed

lemma foldl_listLine_listHtml:
  "listHtml st \<Longrightarrow> \<forall>l\<in>set ls. singleLine l \<Longrightarrow> listHtml (foldl listLine st ls)"
  by (induction ls arbitrary: st) (simp_all add: listLine_listHtml)

lemma listBlock_lines:
  assumes "CR \<notin> set block"
  shows "singleLine (listBlock block) \<and> (listBlock block = [] \<or> hd (listBlock block) = CHR ''<'')"
proof -
  let ?f = "\<lambda>m c. ''<li value=\"'' @ capS 1 c @ ''\">''"
  define st where "st = foldl listLine ([], []) (split NL (trimEnd block))"
  define html where "html = fst (closeAll st)"
  from assms set_trimEnd [of block] have "CR \<notin> set (trimEnd block)" by blast
  then have "\<forall>l\<in>set (split NL (trimEnd block)). singleLine l" by (auto intro: lines_single)
  then have "listHtml st" unfolding st_def
    by (rule foldl_listLine_listHtml [rotated]) (simp add: listHtml_def)
  obtain h0 stack where st': "st = (h0, stack)" by (cases st)
  with \<open>listHtml st\<close> have sl: "singleLine h0"
    and sh: "(h0 = [] \<and> stack = []) \<or> (h0 \<noteq> [] \<and> hd h0 = CHR ''<'')" by (auto simp: listHtml_def)
  have h: "singleLine html \<and> (html = [] \<or> hd html = CHR ''<'')"
  proof -
    from closeAll_singleLine [OF sl, of stack] have 1: "singleLine html" by (simp add: html_def st')
    from sh have "html = [] \<or> hd html = CHR ''<''"
    proof
      assume "h0 = [] \<and> stack = []"
      moreover have "closeAll ([], []) = ([], [])" by (subst closeAll.simps) simp
      ultimately show ?thesis by (simp add: html_def st')
    next
      assume a: "h0 \<noteq> [] \<and> hd h0 = CHR ''<''"
      from closeAll_appends [of h0 stack] obtain h where "html = h0 @ h" by (auto simp: html_def st')
      with a show ?thesis by simp
    qed
    with 1 show ?thesis by simp
  qed
  have lb: "listBlock block = gsub INDEX_SPAN_RE ?f html"
    by (simp add: listBlock_def html_def st_def)
  have 1: "singleLine (listBlock block)"
    unfolding lb
  proof (rule gsub_singleLine)
    show "singleLine html" using h by simp
    show "singleLine (?f m c)" if "\<forall>kv\<in>set c. singleLine (snd kv)" for m c
      using capS_singleLine [OF that] by (simp add: isLineTerminator_def)
  qed
  have 2: "listBlock block = [] \<or> hd (listBlock block) = CHR ''<''"
  proof (cases html)
    case Nil
    then show ?thesis unfolding lb gsub_render by (cases "exec INDEX_SPAN_RE [] []") auto
  next
    case (Cons x xs)
    with h have "x = CHR ''<''" by simp
    then show ?thesis unfolding lb gsub_render Cons
      by (cases "exec INDEX_SPAN_RE [] (CHR ''<'' # xs)") (auto split: if_splits)
  qed
  from 1 2 show ?thesis by simp
qed

lemma lineEnd_SeqR: "lineEnd b \<Longrightarrow> lineEnd (Seq a b)"
  unfolding lineEnd_def in_rm_Seq by (metis prod_cases3)

lemma lineEnd_Grp: "lineEnd a \<Longrightarrow> lineEnd (Grp n a)"
  unfolding lineEnd_def
proof (intro allI impI)
  fix p s c p' s' c'
  assume a: "\<forall>p s c p' s' c'. (p', s', c') \<in> set (rm a (p, s, c))
               \<longrightarrow> atStart p' \<or> s' = [] \<or> isLineTerminator (hd s')"
    and mem: "(p', s', c') \<in> set (rm (Grp n a) (p, s, c))"
  from mem obtain c0 where "(p', s', c0) \<in> set (rm a (p, s, c))" by auto
  with a show "atStart p' \<or> s' = [] \<or> isLineTerminator (hd s')" by blast
qed

lemma lineEnd_line_end: "lineEnd (Alt (Lit [NL]) Eol)"
  by (auto simp: lineEnd_def atStart_def isLineTerminator_def NL_def split: if_splits)

lemma lineEnd_Plus:
  assumes "lineEnd a"
  shows "lineEnd (Seq a (Star a))"
  unfolding lineEnd_def
proof (intro allI impI)
  fix p s c p' s' c'
  let ?Q = "\<lambda>st. atStart (fst st) \<or> fst (snd st) = [] \<or> isLineTerminator (hd (fst (snd st)))"
  assume "(p', s', c') \<in> set (rm (Seq a (Star a)) (p, s, c))"
  then obtain st1 where 1: "st1 \<in> set (rm a (p, s, c))" and 2: "(p', s', c') \<in> set (rm (Star a) st1)"
    unfolding in_rm_Seq by blast
  obtain p1 s1 c1 where st1: "st1 = (p1, s1, c1)" by (cases st1)
  from assms [unfolded lineEnd_def, rule_format, OF 1 [unfolded st1]]
  have q1: "?Q st1" by (simp add: st1)
  have "?Q (p', s', c')"
  proof (rule rm_Star_invariant [where Q = ?Q, OF _ q1 2])
    fix p0 s0 c0 st2
    assume m2: "st2 \<in> set (rm a (p0, s0, clear (groups a) c0))"
    obtain p2 s2 c2 where st2: "st2 = (p2, s2, c2)" by (cases st2)
    from assms [unfolded lineEnd_def, rule_format, OF m2 [unfolded st2]]
    show "?Q st2" by (simp add: st2)
  qed
  then show "atStart p' \<or> s' = [] \<or> isLineTerminator (hd s')" by simp
qed

lemma lineEnd_LIST_BLOCK_RE: "lineEnd LIST_BLOCK_RE"
  unfolding LIST_BLOCK_RE_def Plus_def Cat.simps
  apply (rule lineEnd_Grp)
  apply (rule lineEnd_Plus)
  apply (rule lineEnd_SeqR)+
  apply (rule lineEnd_line_end)
  done

lemma anchored_atStart: "anchored r \<Longrightarrow> exec r p s = Some (m, c) \<Longrightarrow> atStart p"
  unfolding anchored_def atStart_def exec_def by (cases "p = []") (auto split: list.splits)

lemma lined_nestedLists: "lined nestedLists"
  unfolding nestedLists_def [abs_def]
proof (rule lined_gsub)
  fix n p s m c
  assume e: "exec LIST_BLOCK_RE p s = Some (m, c)"
  from exec_sound [OF e] may_LIST_BLOCK_RE have "CR \<notin> set m" by blast
  from listBlock_lines [OF this] have sl: "singleLine (listBlock m)"
    and sh: "listBlock m = [] \<or> hd (listBlock m) = CHR ''<''" by simp_all
  from exec_mem [OF e] obtain p' s' where
    mem: "(p', s', c) \<in> set (rm LIST_BLOCK_RE (p, s, []))" and s: "s = m @ s'" by blast
  from eats_take [OF rm_eats [OF mem]] s have p': "p' = rev m @ p" by simp
  from lineEnd_LIST_BLOCK_RE mem have "atStart p' \<or> s' = [] \<or> isLineTerminator (hd s')"
    unfolding lineEnd_def by blast
  moreover from s have "drop (length m) s = s'" by simp
  moreover have "tame m (listBlock m)" if "listBlock m \<noteq> []"
    using sh that by (cases "listBlock m") (auto simp: tame_def)
  ultimately show "good n p m (drop (length m) s) (listBlock m)"
    using safe_line [OF sl, of n] anchored_atStart [OF anchored_LIST_BLOCK_RE e] p'
    by (auto simp: good_def)
qed

subsection \<open>Escaped characters\<close>

lemma escapeMatches_renderK:
  "fst (escapeMatches segs k) = renderK (\<lambda>j m c. escapedPlaceholder j) segs k"
proof (induction segs arbitrary: k)
  case Nil
  show ?case by simp
next
  case (Cons seg segs)
  show ?case
  proof (cases seg)
    case (Inl x)
    with Cons [of k] show ?thesis by (cases "escapeMatches segs k") simp
  next
    case (Inr mc)
    obtain m c where mc: "mc = (m, c)" by (cases mc)
    with Inr Cons [of "Suc k"] show ?thesis by (cases "escapeMatches segs (Suc k)") simp
  qed
qed

lemma lined_escapePass: "lined (\<lambda>s. fst (escapePass s))"
proof (rule linedI)
  fix n s
  assume s: "fronts n True s"
  let ?f = "\<lambda>j m c. escapedPlaceholder j"
  let ?O = "fst (escapePass s)"
  from s have s': "fronts n False s" by (auto simp: fronts_def)
  have G: "good n p m (drop (length m) s0) (?f j m c)" for p m s0 j c
    by (rule good_tag, rule safe_line, simp, simp add: escapedPlaceholder_def)
  from renderK_fronts [where f = ?f and r = ESCAPED_RE and n = n, OF G s', of "[]" 0 0]
  have A: "fronts n False ?O" and B: "cutL s ?O \<or> depthAt ?O \<le> n"
    by (auto simp: escapePass_def escapeMatches_renderK)
  from B cutL_depth [of s ?O] fronts_first [OF s] have "depthAt ?O \<le> n" by auto
  with A show "fronts n True ?O" by (rule fronts_True)
qed

subsection \<open>parseBackticks\<close>

lemma find_sub_suffix: "find_sub w p s = Some (b, a) \<Longrightarrow> suffix a s"
proof (induction w p s rule: find_sub.induct)
  case (1 w p)
  then show ?case by (auto split: if_splits)
next
  case (2 w p x xs)
  show ?case
  proof (cases "prefix w (x # xs)")
    case True
    with 2(2) have "a = drop (length w) (x # xs)" by simp
    then show ?thesis by (simp add: suffix_drop)
  next
    case False
    with 2 show ?thesis by (auto simp: suffix_Cons)
  qed
qed

lemma upTo_suffix: "suffix (snd (upTo w s)) s"
  by (auto simp: upTo_def split: option.splits dest: find_sub_suffix)

lemma skipChar_suffix: "suffix (skipChar d s) s"
  by (auto simp: skipChar_def suffix_Cons split: list.splits)

lemma fronts_suffix_of: "fronts n st s \<Longrightarrow> suffix b s \<Longrightarrow> fronts n False b"
  by (auto simp: suffix_def dest: fronts_suffix)

lemma parseBackticks_from_fronts:
  "fronts n False src \<Longrightarrow>
   \<exists>X. out (parseBackticks_from esc src t) = out t @ X \<and> fronts n False X \<and> cutL src X"
proof (induction esc src t rule: parseBackticks_from.induct)
  case (1 esc src t)
  note H = 1(5)
  show ?case
  proof (cases "src = []")
    case True
    then have "out (parseBackticks_from esc src t) = out t @ []"
      by (subst parseBackticks_from.simps) simp
    with True show ?thesis by (intro exI [of _ "[]"]) (simp add: cutL_refl)
  next
    case ne: False
    have ph: "\<exists>X. out (parseBackticks_from esc src t) = out t @ X \<and> fronts n False X \<and> cutL src X"
      if eq: "parseBackticks_from esc src t = parseBackticks_from esc src' t'"
        and o: "out t' = out t @ h" and h: "singleLine h" "prefix ''<'' h"
        and X: "\<exists>X. out (parseBackticks_from esc src' t') = out t' @ X \<and> fronts n False X \<and> cutL src' X"
      for src' t' h
    proof -
      from X obtain X where X: "out (parseBackticks_from esc src' t') = out t' @ X" "fronts n False X"
        by blast
      have "out (parseBackticks_from esc src t) = out t @ (h @ X)" using X(1) o by (simp add: eq)
      moreover have "fronts n False (h @ X)" by (rule fronts_safe_append [OF safe_line [OF h(1)] X(2)])
      moreover have "cutL src (h @ X)" using h(2) by (auto simp: prefix_def cutL_tag)
      ultimately show ?thesis by blast
    qed
    show ?thesis
    proof (cases "prefix ''```'' src")
      case True
      define src' where "src' = snd (upTo ''```'' (skipChar NL (skipChar CR
        (dropWhile (\<lambda>c. \<not> isSpace c) (drop 3 src)))))"
      define t' where "t' = t\<lparr>out := out t @ codeblockPlaceholder (codeIndex t),
                 codeBlocks := codeBlocks t @ [(codeblockPlaceholder (codeIndex t),
                   codeBlockHtml esc (takeWhile (\<lambda>c. \<not> isSpace c) (drop 3 src))
                     (fst (upTo ''```'' (skipChar NL (skipChar CR
                        (dropWhile (\<lambda>c. \<not> isSpace c) (drop 3 src)))))))],
                 codeIndex := Suc (codeIndex t)\<rparr>"
      have eq: "parseBackticks_from esc src t = parseBackticks_from esc src' t'"
        using ne True by (subst parseBackticks_from.simps) (simp add: Let_def src'_def t'_def)
      have "suffix src' src"
        unfolding src'_def
        by (rule suffix_order.trans [OF upTo_suffix], rule suffix_order.trans [OF skipChar_suffix],
            rule suffix_order.trans [OF skipChar_suffix],
            rule suffix_order.trans [OF suffix_dropWhile], rule suffix_drop)
      from fronts_suffix_of [OF H this] have H': "fronts n False src'" .
      show ?thesis
      proof (rule ph [OF eq])
        show "out t' = out t @ codeblockPlaceholder (codeIndex t)" by (simp add: t'_def)
        show "singleLine (codeblockPlaceholder (codeIndex t))" by simp
        show "prefix ''<'' (codeblockPlaceholder (codeIndex t))" by (simp add: codeblockPlaceholder_def)
        show "\<exists>X. out (parseBackticks_from esc src' t') = out t' @ X \<and> fronts n False X \<and> cutL src' X"
          using 1(1) [OF ne True refl refl refl refl refl] H' unfolding src'_def t'_def by blast
      qed
    next
      case nf: False
      show ?thesis
      proof (cases "prefix ''``'' src")
        case True
        define src' where "src' = snd (upTo ''``'' (drop 2 src))"
        define t' where "t' = t\<lparr>out := out t @ inlinecodePlaceholder (inlineIndex t),
                 inlineCodeBlocks := inlineCodeBlocks t @ [(inlinecodePlaceholder (inlineIndex t),
                    fst (upTo ''``'' (drop 2 src)))],
                 inlineIndex := Suc (inlineIndex t)\<rparr>"
        have eq: "parseBackticks_from esc src t = parseBackticks_from esc src' t'"
          using ne nf True by (subst parseBackticks_from.simps) (simp add: Let_def src'_def t'_def)
        have "suffix src' src"
          unfolding src'_def by (rule suffix_order.trans [OF upTo_suffix], rule suffix_drop)
        from fronts_suffix_of [OF H this] have H': "fronts n False src'" .
        show ?thesis
        proof (rule ph [OF eq])
          show "out t' = out t @ inlinecodePlaceholder (inlineIndex t)" by (simp add: t'_def)
          show "singleLine (inlinecodePlaceholder (inlineIndex t))" by simp
          show "prefix ''<'' (inlinecodePlaceholder (inlineIndex t))"
            by (simp add: inlinecodePlaceholder_def)
          show "\<exists>X. out (parseBackticks_from esc src' t') = out t' @ X \<and> fronts n False X \<and> cutL src' X"
            using 1(2) [OF ne nf True refl refl] H' unfolding src'_def t'_def by blast
        qed
      next
        case nd: False
        show ?thesis
        proof (cases "hd src = BT")
          case True
          define src' where "src' = drop 1 (dropWhile (\<lambda>c. c \<noteq> BT) (tl src))"
          define t' where "t' = t\<lparr>out := out t @ inlinecodePlaceholder (inlineIndex t),
                 inlineCodeBlocks := inlineCodeBlocks t @ [(inlinecodePlaceholder (inlineIndex t),
                    takeWhile (\<lambda>c. c \<noteq> BT) (tl src))],
                 inlineIndex := Suc (inlineIndex t)\<rparr>"
          have eq: "parseBackticks_from esc src t = parseBackticks_from esc src' t'"
            using ne nf nd True
            by (subst parseBackticks_from.simps) (simp add: Let_def src'_def t'_def)
          have "suffix src' src"
            unfolding src'_def
            by (rule suffix_order.trans [OF suffix_drop], rule suffix_order.trans [OF suffix_dropWhile],
                rule suffix_tl)
          from fronts_suffix_of [OF H this] have H': "fronts n False src'" .
          show ?thesis
          proof (rule ph [OF eq])
            show "out t' = out t @ inlinecodePlaceholder (inlineIndex t)" by (simp add: t'_def)
            show "singleLine (inlinecodePlaceholder (inlineIndex t))" by simp
            show "prefix ''<'' (inlinecodePlaceholder (inlineIndex t))"
              by (simp add: inlinecodePlaceholder_def)
            show "\<exists>X. out (parseBackticks_from esc src' t') = out t' @ X \<and> fronts n False X \<and> cutL src' X"
              using 1(3) [OF ne nf nd True refl refl] H' unfolding src'_def t'_def by blast
          qed
        next
          case nb: False
          from ne obtain x xs where src: "src = x # xs" by (cases src) auto
          define t' where "t' = t\<lparr>out := out t @ [hd src]\<rparr>"
          have eq: "parseBackticks_from esc src t = parseBackticks_from esc (tl src) t'"
            using ne nf nd nb by (subst parseBackticks_from.simps) (simp add: t'_def)
          from H src have Hx: "fronts n (isLineTerminator x) xs" by (simp add: fronts_Cons)
          then have "fronts n False (tl src)" by (auto simp: fronts_def src)
          with 1(4) [OF ne nf nd nb] obtain X where
            X: "out (parseBackticks_from esc (tl src) t') = out t' @ X" "fronts n False X"
               "cutL (tl src) X"
            unfolding t'_def by blast
          have "out (parseBackticks_from esc src t) = out t' @ X"
            unfolding eq by (rule X(1))
          then have 1: "out (parseBackticks_from esc src t) = out t @ (x # X)"
            by (simp add: t'_def src)
          have 2: "fronts n False (x # X)"
          proof (cases "isLineTerminator x")
            case True
            with Hx have "depthAt xs \<le> n" by (simp add: fronts_first)
            with cutL_depth [OF X(3)] src have "depthAt X \<le> n" by simp
            with X(2) True show ?thesis by (simp add: fronts_Cons fronts_True)
          next
            case False
            with X(2) show ?thesis by (simp add: fronts_Cons)
          qed
          have 3: "cutL src (x # X)" using X(3) by (simp add: src cutL_Cons)
          from 1 2 3 show ?thesis by blast
        qed
      qed
    qed
  qed
qed

lemma lined_parseBackticks: "lined (\<lambda>s. out (parseBackticks esc s))"
proof (rule linedI)
  fix n s
  assume s: "fronts n True s"
  then have "fronts n False s" by (auto simp: fronts_def)
  from parseBackticks_from_fronts [OF this, of esc
      "\<lparr>out = [], codeBlocks = [], inlineCodeBlocks = [], codeIndex = 0, inlineIndex = 0\<rparr>"]
  obtain X where X: "out (parseBackticks esc s) = X" "fronts n False X" "cutL s X"
    by (auto simp: parseBackticks_def)
  from cutL_depth [OF X(3)] fronts_first [OF s] have "depthAt X \<le> n" by simp
  with X show "fronts n True (out (parseBackticks esc s))" by (simp add: fronts_True)
qed

subsection \<open>Indentation\<close>

lemma fronts_NL: "fronts n st (a @ NL # b) = (fronts n st a \<and> fronts n True b)"
proof
  assume f: "fronts n st (a @ NL # b)"
  have "fronts n st a" by (rule fronts_prefix [OF f])
  moreover have "fronts n True b"
    using fronts_after [of n st "a @ [NL]" b] f by (simp add: isLineTerminator_def NL_def)
  ultimately show "fronts n st a \<and> fronts n True b" by simp
next
  assume r: "fronts n st a \<and> fronts n True b"
  show "fronts n st (a @ NL # b)"
    unfolding fronts_def
  proof (intro allI impI)
    fix u v
    assume e: "a @ NL # b = u @ v" and c: "if u = [] then st else isLineTerminator (last u)"
    from e consider w where "a = u @ w" "v = w @ NL # b" | w where "u = a @ NL # w" "b = w @ v"
      by (auto simp: append_eq_append_conv2 append_eq_Cons_conv Cons_eq_append_conv)
    then show "depthAt v \<le> n"
    proof cases
      case 1
      have "depthAt v = depthAt w"
        unfolding 1 depthAt_def by (simp add: lineOf_term isLineTerminator_def NL_def)
      with r 1 c show ?thesis unfolding fronts_def by metis
    next
      case 2
      have "if (NL # w) = [] then True else isLineTerminator (last (NL # w))"
        using c 2 by (auto simp: isLineTerminator_def NL_def split: if_splits)
      then have "if w = [] then True else isLineTerminator (last w)" by (auto split: if_splits)
      with r 2 show ?thesis unfolding fronts_def by metis
    qed
  qed
qed

lemma join_split: "join [d] (split d s) = s"
proof (induction s)
  case Nil
  show ?case by simp
next
  case (Cons x xs)
  obtain h t where ht: "split d xs = h # t"
    by (cases "split d xs") (cases xs, auto split: if_splits list.splits)
  with Cons show ?case by (cases t) (auto split: list.splits)
qed

lemma fronts_join:
  "ls \<noteq> [] \<Longrightarrow> fronts n True (join [NL] ls) = (\<forall>l\<in>set ls. fronts n True l)"
proof (induction ls rule: induct_list012)
  case 1
  then show ?case by simp
next
  case (2 x)
  show ?case by simp
next
  case (3 x y ys)
  then show ?case by (simp add: fronts_NL)
qed

lemma fronts_spaces:
  "\<forall>ch\<in>set m. isSpace ch \<Longrightarrow> fronts n True (m @ aft) \<Longrightarrow> fronts n True aft"
proof (induction m)
  case Nil
  then show ?case by simp
next
  case (Cons x m)
  from Cons.prems have d: "depthAt (x # m @ aft) \<le> n" and f: "fronts n (isLineTerminator x) (m @ aft)"
    by (simp_all add: fronts_Cons)
  have "fronts n True (m @ aft)"
  proof (cases "isLineTerminator x")
    case True
    with f show ?thesis by simp
  next
    case False
    with Cons.prems(1) have "depthAt (x # m @ aft) = depthAt (m @ aft)"
      by (simp add: depthAt_def lineOf_Cons quoteDepth_space)
    with d f False show ?thesis by (simp add: fronts_True)
  qed
  with Cons show ?case by simp
qed

lemma trimIndentLine_fronts: "fronts n True l \<Longrightarrow> fronts n True (trimIndentLine l)"
proof (cases "exec LEADING_SPACE_RE [] l")
  case None
  have "\<And>p s c. p \<noteq> [] \<Longrightarrow> rm LEADING_SPACE_RE (p, s, c) = []"
    by (simp add: LEADING_SPACE_RE_def)
  from replace_first_anchored [OF this, of "[]" l] None
  have "replace_first LEADING_SPACE_RE [] l = l" by simp
  then show "fronts n True l \<Longrightarrow> fronts n True (trimIndentLine l)" by (simp add: trimIndentLine_def)
next
  case (Some mc)
  assume f: "fronts n True l"
  obtain m c where mc: "mc = (m, c)" by (cases mc)
  have "\<And>p s c. p \<noteq> [] \<Longrightarrow> rm LEADING_SPACE_RE (p, s, c) = []"
    by (simp add: LEADING_SPACE_RE_def)
  from replace_first_anchored [OF this, of "[]" l] Some mc
  have r: "replace_first LEADING_SPACE_RE [] l = drop (length m) l" by simp
  from exec_sound [OF Some [unfolded mc]] obtain aft where
    l: "l = m @ aft" and sp: "\<forall>ch\<in>set m. isSpace ch"
    by (auto simp: prefix_def LEADING_SPACE_RE_def Plus_def)
  from l have d: "drop (length m) l = aft" by simp
  from fronts_spaces [OF sp f [unfolded l]] f show "fronts n True (trimIndentLine l)"
    by (simp add: trimIndentLine_def r d)
qed

lemma split_ne [simp]: "split d s \<noteq> []"
  by (cases s) (auto split: list.splits)

lemma lined_trimIndentation: "lined trimIndentation"
proof (rule linedI)
  fix n s
  assume "fronts n True s"
  then have "fronts n True (join [NL] (split NL s))" by (simp add: join_split)
  then have "\<forall>l\<in>set (split NL s). fronts n True l" by (simp add: fronts_join)
  then have "\<forall>l\<in>set (map trimIndentLine (split NL s)). fronts n True l"
    by (auto intro: trimIndentLine_fronts)
  then show "fronts n True (trimIndentation s)"
    unfolding trimIndentation_def by (subst fronts_join) simp_all
qed

subsection \<open>The passes before the blockquotes\<close>

lemma lined_beforeQuotes: "lined beforeQuotes"
proof (rule linedI)
  fix n s
  assume s: "fronts n True s"
  obtain md1 esc where e: "escapePass s = (md1, esc)" by (cases "escapePass s")
  define a where "a = out (parseBackticks esc md1)"
  have bq: "beforeQuotes s = links (images (inlinePatterns (nestedLists (checkboxLists (trimIndentation a)))))"
    by (simp add: beforeQuotes_def e a_def)
  from linedD [OF lined_escapePass s] e have "fronts n True md1" by simp
  from linedD [OF lined_parseBackticks this, of esc] have "fronts n True a" by (simp add: a_def)
  from linedD [OF lined_links linedD [OF lined_images linedD [OF lined_inlinePatterns
        linedD [OF lined_nestedLists linedD [OF lined_checkboxLists
          linedD [OF lined_trimIndentation this]]]]]]
  show "fronts n True (beforeQuotes s)" by (simp add: bq)
qed

subsection \<open>The lines of the input\<close>

lemma textLines_ne [simp]: "textLines s \<noteq> []"
  by (induction s) (auto split: list.splits)

lemma textLines_hd: "hd (textLines s) = lineOf s"
  by (induction s) (auto simp: lineOf_def split: list.splits)

lemma textLines_tl: "set (tl (textLines xs)) \<subseteq> set (tl (textLines (x # xs)))"
  by (cases "textLines xs") auto

lemma textLines_after:
  "a \<noteq> [] \<Longrightarrow> isLineTerminator (last a) \<Longrightarrow> lineOf b \<in> set (tl (textLines (a @ b)))"
proof (induction a)
  case Nil
  then show ?case by simp
next
  case (Cons x a)
  show ?case
  proof (cases "a = []")
    case True
    with Cons.prems have "isLineTerminator x" by simp
    with True textLines_hd [of b] show ?thesis
      by (cases "textLines b") auto
  next
    case False
    with Cons have "lineOf b \<in> set (tl (textLines (a @ b)))" by simp
    with textLines_tl [of "a @ b" x] show ?thesis by auto
  qed
qed

lemma textLines_mem:
  "(a = [] \<or> isLineTerminator (last a)) \<Longrightarrow> lineOf b \<in> set (textLines (a @ b))"
proof (cases "a = []")
  case True
  with textLines_hd [of b] show ?thesis by (cases "textLines b") auto
next
  case False
  assume "a = [] \<or> isLineTerminator (last a)"
  with False textLines_after [of a b] show ?thesis
    by (cases "textLines (a @ b)") auto
qed

lemma fronts_nesting: "fronts (nesting md) True md"
  unfolding fronts_def
proof (intro allI impI)
  fix a b
  assume e: "md = a @ b" and c: "if a = [] then True else isLineTerminator (last a)"
  then have "a = [] \<or> isLineTerminator (last a)" by (auto split: if_splits)
  from textLines_mem [OF this, of b] have "lineOf b \<in> set (textLines md)" by (simp add: e)
  then have "quoteDepth (lineOf b) \<in> set (map quoteDepth (textLines md))" by auto
  from maxList_mem [OF this] show "depthAt b \<le> nesting md" by (simp add: depthAt_def nesting_def)
qed

subsection \<open>The depth of the quote lines\<close>

lemma fold_max_bound: "(a::nat) \<le> n \<Longrightarrow> \<forall>x\<in>set xs. x \<le> n \<Longrightarrow> fold max xs a \<le> n"
  by (induction xs arbitrary: a) auto

lemma maxList_le: "\<forall>x\<in>set xs. x \<le> n \<Longrightarrow> maxList xs \<le> n"
  unfolding maxList_def by (rule fold_max_bound) simp_all

lemma gsegs_fronts:
  assumes "anchored r"
  shows "Inr (m, c) \<in> set (gsegs r p s k) \<Longrightarrow> fronts n (atStart p) s \<Longrightarrow> fronts n True m"
proof (induction s arbitrary: p k)
  case Nil
  have "gsegs r p [] k = [] \<or> (\<exists>mc. exec r p [] = Some mc \<and> gsegs r p [] k = [Inr mc])"
    by (cases "exec r p []") simp_all
  then have "exec r p [] = Some (m, c)"
  proof (elim disjE exE conjE)
    assume e: "gsegs r p [] k = []"
    from Nil.prems(1) [unfolded e] show ?thesis by simp
  next
    fix mc
    assume e: "gsegs r p [] k = [Inr mc]" and x: "exec r p [] = Some mc"
    from Nil.prems(1) [unfolded e] x show ?thesis by simp
  qed
  from exec_sound [OF this] show ?case by simp
next
  case (Cons y ys)
  from Cons.prems(2) have nx: "fronts n (atStart (y # p)) ys"
    by (simp add: fronts_Cons atStart_def)
  show ?case
  proof (cases "0 < k")
    case True
    with Cons.prems have "Inr (m, c) \<in> set (gsegs r (y # p) ys (k - 1))" by simp
    from Cons.IH [OF this nx] show ?thesis .
  next
    case False
    have "exec r p (y # ys) = Some (m, c) \<or> Inr (m, c) \<in> set (gsegs r (y # p) ys 0)
          \<or> (\<exists>j. Inr (m, c) \<in> set (gsegs r (y # p) ys j))"
    proof (cases "exec r p (y # ys)")
      case None
      with Cons.prems False show ?thesis by simp
    next
      case (Some mc)
      obtain m' c' where mc: "mc = (m', c')" by (cases mc)
      with Cons.prems False Some show ?thesis by (cases "m' = []") auto
    qed
    then show ?thesis
    proof (elim disjE exE)
      assume x: "exec r p (y # ys) = Some (m, c)"
      from anchored_atStart [OF assms x] Cons.prems(2) have f: "fronts n True (y # ys)" by simp
      from exec_sound [OF x] obtain b where "y # ys = m @ b" by (auto simp: prefix_def)
      with f fronts_prefix [of n True m b] show ?thesis by simp
    next
      assume "Inr (m, c) \<in> set (gsegs r (y # p) ys 0)"
      from Cons.IH [OF this nx] show ?thesis .
    next
      fix j
      assume "Inr (m, c) \<in> set (gsegs r (y # p) ys j)"
      from Cons.IH [OF this nx] show ?thesis .
    qed
  qed
qed

lemma quoteDepth_quoteLine:
  assumes "singleLine l"
  shows "quoteDepth (content (quoteLine l)) \<le> quoteDepth l"
proof (cases "prefix ''&gt;'' l")
  case True
  with quoteDepth_content [OF True] show ?thesis by (simp add: quoteLine_spec [OF assms])
next
  case False
  then show ?thesis by (simp add: quoteLine_spec [OF assms])
qed

lemma contentDepth_le:
  assumes "fronts n True md"
  shows "contentDepth md \<le> n"
  unfolding contentDepth_def
proof (rule maxList_le, rule ballI)
  fix v
  assume "v \<in> set (map (\<lambda>seg. case seg of Inl x \<Rightarrow> 0 | Inr (raw, c) \<Rightarrow>
            maxList (map (\<lambda>l. quoteDepth (content (quoteLine l))) (split NL (trimEnd raw))))
          (gsegs BLOCKQUOTE_RE [] md 0))"
  then obtain seg where seg: "seg \<in> set (gsegs BLOCKQUOTE_RE [] md 0)"
    and v: "v = (case seg of Inl x \<Rightarrow> 0 | Inr (raw, c) \<Rightarrow>
            maxList (map (\<lambda>l. quoteDepth (content (quoteLine l))) (split NL (trimEnd raw))))"
    by auto
  show "v \<le> n"
  proof (cases seg)
    case (Inl x)
    with v show ?thesis by simp
  next
    case (Inr mc)
    obtain raw c where mc: "mc = (raw, c)" by (cases mc)
    from seg Inr mc have mem: "Inr (raw, c) \<in> set (gsegs BLOCKQUOTE_RE [] md 0)" by simp
    from gsegs_fronts [OF anchored_BLOCKQUOTE_RE mem, of n] assms
    have "fronts n True raw" by (simp add: atStart_def)
    moreover obtain w where "raw = trimEnd raw @ w" using trimEnd_prefix [of raw] by (auto simp: prefix_def)
    ultimately have "fronts n True (trimEnd raw)" using fronts_prefix [of n True "trimEnd raw" w] by simp
    then have "fronts n True (join [NL] (split NL (trimEnd raw)))" by (simp add: join_split)
    then have all: "\<forall>l\<in>set (split NL (trimEnd raw)). fronts n True l" by (simp add: fronts_join)
    have "maxList (map (\<lambda>l. quoteDepth (content (quoteLine l))) (split NL (trimEnd raw))) \<le> n"
    proof (rule maxList_le, rule ballI)
      fix d
      assume "d \<in> set (map (\<lambda>l. quoteDepth (content (quoteLine l))) (split NL (trimEnd raw)))"
      then obtain l where l: "l \<in> set (split NL (trimEnd raw))"
        and d: "d = quoteDepth (content (quoteLine l))" by auto
      from quote_lines_single [OF mem l] have sl: "singleLine l" .
      from all l have "depthAt l \<le> n" by (auto dest: fronts_first)
      with sl have "quoteDepth l \<le> n" by (simp add: depthAt_def lineOf_single)
      with quoteDepth_quoteLine [OF sl] d show "d \<le> n" by simp
    qed
    with v Inr mc show ?thesis by simp
  qed
qed

lemma contentDepth_nesting: "contentDepth (beforeQuotes md) \<le> nesting md"
  by (rule contentDepth_le, rule linedD [OF lined_beforeQuotes], rule fronts_nesting)

lemma markdownToHtml_nesting: "\<exists>r. markdownToHtml (Suc (Suc (nesting md))) md = Some r"
proof -
  from markdownToHtml_total [of md] obtain r where
    "markdownToHtml (Suc (Suc (contentDepth (beforeQuotes md)))) md = Some r" ..
  from markdownToHtml_mono [OF this, of "Suc (Suc (nesting md))"] contentDepth_nesting [of md]
  show ?thesis by simp
qed

text \<open>
  C7: \<open>markdownToHtml\<close> terminates on every input, its self-calls are the calls that
  \<open>renderQuote\<close> makes on the content of the lines of a quote block, and their depth is
  bounded by the quote-nesting depth of the input: the calls nested in a conversion of
  \<open>md\<close> are at most \<open>nesting md\<close> plus two deep, the conversion itself included, where
  \<open>nesting md\<close> is the largest number of \<open>&gt;\<close> markers at the start of a line of \<open>md\<close>.
  (For a text of one line the bound is its own depth plus one, \<open>markdownToHtml_line\<close>.)
\<close>

theorem C7_depth_bounded:
  "\<exists>html. markdownToHtml (Suc (Suc (nesting md))) md = Some html"
  by (rule markdownToHtml_nesting)

section \<open>The call stack\<close>

text \<open>
  The self-calls have no cap on their depth. A line of \<open>n\<close> quote markers, each followed
  by two spaces, is a quote line of level 1 whose content is the line of \<open>n - 1\<close> such
  markers, and no pass before the blockquotes changes it: its conversion needs \<open>n + 1\<close>
  nested calls.
\<close>

subsection \<open>Patterns that find nothing\<close>


















subsection \<open>A line of markers\<close>

lemma first_Alt_left: "first a st = Some x \<Longrightarrow> first (Alt a b) st = Some x"
  by (cases st) (auto simp: first_def split: list.splits)








lemma plain_deepQuote: "plain (deepQuote n)"
  by (induction n) (auto simp: plain_def quoteChars_def)





lemma deepQuote_returns: "\<exists>html. markdownToHtml (Suc n) (deepQuote n) = Some html"
proof -
  have sl: "singleLine (deepQuote n)"
    using plain_deepQuote [of n]
    by (auto simp: plain_def quoteChars_def singleLine_def isLineTerminator_def)
  have "quoteDepth (deepQuote n) \<le> n"
    by (induction n) (simp_all add: quoteDepth_def trimStart_def isSpace_def markers.simps)
  from markdownToHtml_line [OF sl this] show ?thesis .
qed




end
